(* ===== verification/Go_Prelude.thy ===== *)
theory Go_Prelude
  imports Main "HOL-Library.Word" "HOL-Library.List_Lexorder" "HOL-Library.Char_ord"
begin

text \<open>
  Shared material of the development: the Go types the programs use (bytes, byte
  strings, 64-bit integers with their wrap-around, the pair of a value and an error),
  decimal formatting and parsing, reading and writing a byte sequence at an offset,
  and the interface of a transition system with an invariant.
\<close>

unbundle bit_operations_syntax

named_theorems go_simps "unfolding rules of the Go operations shared by the components"
named_theorems inv_intros "preservation of a component's invariant by its operations"

section \<open>Go values\<close>

type_synonym byte = "8 word"
type_synonym uint32 = "32 word"
type_synonym uint64 = "64 word"

text \<open>
  A Go string and a Go byte slice are both sequences of bytes; a conversion between
  them copies the bytes. File paths, host names and messages, which the programs build
  from literals, are HOL strings.
\<close>

type_synonym bytes = "byte list"

text \<open>
  The errors the programs return. \<open>ErrMsg\<close> is what \<^verbatim>\<open>errors.New\<close> and
  \<^verbatim>\<open>fmt.Errorf\<close> make; the others come from the standard library: \<^verbatim>\<open>io.EOF\<close>,
  \<^verbatim>\<open>os.ErrInvalid\<close> (a method of a nil file), \<^verbatim>\<open>os.ErrClosed\<close>,
  \<^verbatim>\<open>os.ErrNotExist\<close>, and \<open>EIO\<close> for any other failure of the operating system.
\<close>

datatype go_error = EOF | ErrInvalid | ErrClosed | ErrNotExist | EIO | ErrMsg string

text \<open>A result of type \<^verbatim>\<open>(T, error)\<close>: \<open>Inl\<close> holds a non-nil error.\<close>

type_synonym 'a result = "go_error + 'a"

text \<open>A call either returns or panics (nil dereference, slice bounds, bad capacity).\<close>

datatype 'a outcome = Return 'a | Panic

text \<open>\<^verbatim>\<open>log.Fatalf\<close> ends the process; what follows it in the source is never reached.\<close>

datatype 'a process = Continue 'a | Fatal

text \<open>The bytes of a Go string literal or of a formatted string.\<close>

definition str_bytes :: "string \<Rightarrow> bytes" where
  "str_bytes s = map of_char s"

section \<open>64-bit signed integers\<close>

text \<open>Go's \<^verbatim>\<open>int\<close> and \<^verbatim>\<open>int64\<close> wrap modulo \<open>2 ^ 64\<close> into the signed range.\<close>

definition wrap64 :: "int \<Rightarrow> int" where
  "wrap64 x = (x + 2 ^ 63) mod 2 ^ 64 - 2 ^ 63"

lemma wrap64_id [simp]: "- (2 ^ 63) \<le> x \<Longrightarrow> x < 2 ^ 63 \<Longrightarrow> wrap64 x = x"
  by (simp add: wrap64_def mod_pos_pos_trivial)

lemma wrap64_range: "- (2 ^ 63) \<le> wrap64 x \<and> wrap64 x < 2 ^ 63"
proof -
  have "0 \<le> (x + 2 ^ 63) mod 2 ^ 64" "(x + 2 ^ 63) mod 2 ^ 64 < (2 ^ 64 :: int)"
    by simp_all
  then show ?thesis by (simp add: wrap64_def)
qed

lemma wrap64_add_left: "wrap64 (wrap64 x + y) = wrap64 (x + y)"
proof -
  have "(wrap64 x + y + 2 ^ 63) mod 2 ^ 64 = ((x + 2 ^ 63) mod 2 ^ 64 + y) mod 2 ^ 64"
    by (simp add: wrap64_def algebra_simps)
  also have "\<dots> = (x + 2 ^ 63 + y) mod 2 ^ 64"
    by (rule mod_add_left_eq)
  also have "\<dots> = (x + y + 2 ^ 63) mod 2 ^ 64"
    by (simp add: algebra_simps)
  finally show ?thesis by (simp add: wrap64_def)
qed

section \<open>Decimal integers: fmt and strconv\<close>

definition digit_char :: "nat \<Rightarrow> char" where
  "digit_char d = char_of (48 + d)"

text \<open>\<^verbatim>\<open>strconv.FormatInt(n, 10)\<close> and \<^verbatim>\<open>%d\<close> on a non-negative number.\<close>

fun dec :: "nat \<Rightarrow> string" where
  "dec n = (if n < 10 then [digit_char n] else dec (n div 10) @ [digit_char (n mod 10)])"

declare dec.simps [simp del]

definition is_digit :: "char \<Rightarrow> bool" where
  "is_digit c \<longleftrightarrow> 48 \<le> (of_char c :: nat) \<and> (of_char c :: nat) \<le> 57"

definition digit_val :: "char \<Rightarrow> nat" where
  "digit_val c = of_char c - 48"

definition undec :: "string \<Rightarrow> nat" where
  "undec s = foldl (\<lambda>a c. 10 * a + digit_val c) 0 s"

lemma digit_char [simp]:
  assumes "d < 10"
  shows "is_digit (digit_char d)" and "digit_val (digit_char d) = d"
  using assms by (simp_all add: is_digit_def digit_char_def digit_val_def)

lemma dec_digits: "\<forall>c \<in> set (dec n). is_digit c"
proof (induction n rule: dec.induct)
  case (1 n)
  then show ?case
    by (subst dec.simps) (auto simp: is_digit_def digit_char_def)
qed

lemma dec_ne_Nil [simp]: "dec n \<noteq> []"
  by (subst dec.simps) simp

lemma undec_dec [simp]: "undec (dec n) = n"
proof (induction n rule: dec.induct)
  case (1 n)
  show ?case
  proof (cases "n < 10")
    case True
    then show ?thesis by (simp add: undec_def dec.simps [of n])
  next
    case False
    with 1 have "undec (dec (n div 10)) = n div 10" by simp
    with False show ?thesis
      by (simp add: undec_def dec.simps [of n])
  qed
qed

lemma dec_inject [simp]: "dec m = dec n \<longleftrightarrow> m = n"
  by (metis undec_dec)

text \<open>A decimal number has no other character, so what follows it is determined.\<close>

lemma length_dec: "n < 10 ^ k \<Longrightarrow> length (dec n) \<le> max 1 k"
proof (induction k arbitrary: n)
  case 0
  then show ?case by (simp add: dec.simps)
next
  case (Suc k)
  show ?case
  proof (cases "n < 10")
    case True
    then show ?thesis by (simp add: dec.simps)
  next
    case False
    with Suc.prems have "n div 10 < 10 ^ k" by (simp add: less_mult_imp_div_less)
    from Suc.IH [OF this] False Suc.prems show ?thesis by (cases k) (auto simp: dec.simps [of n])
  qed
qed

lemma takeWhile_dec: "\<not> is_digit c \<Longrightarrow> takeWhile is_digit (dec n @ c # s) = dec n"
  using dec_digits by (simp add: takeWhile_append2)

lemma dec_append_inject:
  assumes "\<not> is_digit c" and "\<not> is_digit d"
  shows "dec m @ c # s = dec n @ d # t \<longleftrightarrow> m = n \<and> c = d \<and> s = t"
  using takeWhile_dec [OF assms(1), of m s] takeWhile_dec [OF assms(2), of n t]
  by (metis dec_inject list.inject same_append_eq)

definition FormatInt :: "int \<Rightarrow> string" where
  "FormatInt n = (if n < 0 then CHR ''-'' # dec (nat (- n)) else dec (nat n))"

text \<open>
  \<^verbatim>\<open>strconv.ParseInt(s, 10, 64)\<close>: an optional sign, then at least one digit and
  nothing else, within the range of an \<^verbatim>\<open>int64\<close>.
\<close>

definition ParseInt :: "string \<Rightarrow> int result" where
  "ParseInt s =
     (let neg = (s \<noteq> [] \<and> hd s = CHR ''-'');
          ds = (if s \<noteq> [] \<and> (hd s = CHR ''-'' \<or> hd s = CHR ''+'') then tl s else s);
          v = (if neg then - int (undec ds) else int (undec ds))
      in if ds = [] \<or> \<not> list_all is_digit ds then Inl (ErrMsg ''invalid syntax'')
         else if v < - (2 ^ 63) \<or> 2 ^ 63 \<le> v then Inl (ErrMsg ''value out of range'')
         else Inr v)"

lemma dec_no_sign: "hd (dec n) \<noteq> CHR ''-''" "hd (dec n) \<noteq> CHR ''+''"
proof -
  have "is_digit (hd (dec n))"
    using dec_digits [of n] by (simp add: list.set_sel(1))
  then show "hd (dec n) \<noteq> CHR ''-''" "hd (dec n) \<noteq> CHR ''+''"
    by (auto simp: is_digit_def)
qed

lemma ParseInt_FormatInt:
  assumes "- (2 ^ 63) \<le> n" and "n < 2 ^ 63"
  shows "ParseInt (FormatInt n) = Inr n"
  using assms dec_digits
  by (auto simp: ParseInt_def FormatInt_def dec_no_sign Let_def list_all_iff)

section \<open>Reading and writing at an offset\<close>

text \<open>The bytes of a file after \<^verbatim>\<open>WriteAt\<close>: a write past the end fills with zeros.\<close>

definition write_at :: "bytes \<Rightarrow> nat \<Rightarrow> bytes \<Rightarrow> bytes" where
  "write_at f off d =
     take off (f @ replicate (off - length f) 0) @ d @ drop (off + length d) f"

text \<open>The range \<open>[off, off + n)\<close> of a byte sequence, shorter when the sequence ends.\<close>

definition chunk :: "nat \<Rightarrow> nat \<Rightarrow> 'a list \<Rightarrow> 'a list" where
  "chunk off n f = take n (drop off f)"

lemma length_chunk [simp]: "off + n \<le> length f \<Longrightarrow> length (chunk off n f) = n"
  by (simp add: chunk_def)

lemma length_chunk_le: "length (chunk off n f) \<le> n"
  by (simp add: chunk_def)

lemma chunk_Nil_len [simp]: "chunk off 0 f = []"
  by (simp add: chunk_def)

lemma chunk_all [simp]: "chunk 0 (length f) f = f"
  by (simp add: chunk_def)

lemma chunk_append_exact [simp]: "chunk (length a) (length b) (a @ b @ c) = b"
  by (simp add: chunk_def)

lemma chunk_chunk: "j + m \<le> n \<Longrightarrow> chunk j m (chunk i n f) = chunk (i + j) m f"
  by (simp add: chunk_def drop_take min_def add.commute)

lemma take_chunk: "m \<le> n \<Longrightarrow> take m (chunk i n f) = chunk i m f"
  by (simp add: chunk_def min_def)

lemma length_write_at: "length (write_at f off d) = max (length f) (off + length d)"
  by (auto simp: write_at_def)

lemma chunk_write_at [simp]: "chunk off (length d) (write_at f off d) = d"
  by (auto simp: chunk_def write_at_def)

lemma chunk_write_at_below:
  assumes "i + n \<le> off" and "i + n \<le> length f"
  shows "chunk i n (write_at f off d) = chunk i n f"
  using assms by (auto simp: chunk_def write_at_def drop_take min_def)

lemma write_at_append: "write_at f (length f) d = f @ d"
  by (simp add: write_at_def)

section \<open>Lists\<close>

lemma insert_ne_Nil [simp]: "List.insert x xs \<noteq> []"
  using set_insert [of x xs] by force

section \<open>Transition systems and their invariants\<close>

text \<open>A finite run of a labelled step relation and the labels it shows.\<close>

inductive run :: "('s \<Rightarrow> 'l \<Rightarrow> 's \<Rightarrow> bool) \<Rightarrow> 's \<Rightarrow> 'l list \<Rightarrow> 's \<Rightarrow> bool" for step where
  run_Nil: "run step s [] s"
| run_Cons: "step s l t \<Longrightarrow> run step t ls u \<Longrightarrow> run step s (l # ls) u"

inductive_simps run_simps [simp]: "run step s [] t" "run step s (l # ls) t"

lemma run_trans: "run step s ls t \<Longrightarrow> run step t ls' u \<Longrightarrow> run step s (ls @ ls') u"
  by (induction rule: run.induct) auto

text \<open>
  The interface a concurrent component offers: its initial states, its atomic steps,
  and a predicate that holds at the start and that every step keeps.
\<close>

locale inv_system =
  fixes init :: "'s \<Rightarrow> bool"
    and step :: "'s \<Rightarrow> 'l \<Rightarrow> 's \<Rightarrow> bool"
    and inv :: "'s \<Rightarrow> bool"
  assumes inv_init: "init s \<Longrightarrow> inv s"
    and inv_step: "step s l t \<Longrightarrow> inv s \<Longrightarrow> inv t"
begin

lemma inv_run: "run step s ls t \<Longrightarrow> inv s \<Longrightarrow> inv t"
  by (induction rule: run.induct) (auto intro: inv_step)

lemma inv_reachable: "init s \<Longrightarrow> run step s ls t \<Longrightarrow> inv t"
  by (blast intro: inv_init inv_run)

end

text \<open>
  A component that refines a specification: every step with a label is a step of the
  specification with the same label, so a run of the component is one of the
  specification.
\<close>

locale refinement = inv_system init step inv
  for init :: "'s \<Rightarrow> bool" and step :: "'s \<Rightarrow> 'l \<Rightarrow> 's \<Rightarrow> bool" and inv :: "'s \<Rightarrow> bool" +
  fixes abs :: "'s \<Rightarrow> 'a"
    and astep :: "'a \<Rightarrow> 'l \<Rightarrow> 'a \<Rightarrow> bool"
  assumes simulates: "step s l t \<Longrightarrow> inv s \<Longrightarrow> astep (abs s) l (abs t)"
begin

lemma run_refines: "run step s ls t \<Longrightarrow> inv s \<Longrightarrow> run astep (abs s) ls (abs t)"
  by (induction rule: run.induct) (auto intro: inv_step simulates)

lemma init_refines: "init s \<Longrightarrow> run step s ls t \<Longrightarrow> run astep (abs s) ls (abs t)"
  by (blast intro: inv_init run_refines)

end

text \<open>
  A system whose steps use up a resource: the predicate holds with room for so many more
  steps, and every step takes one of them.
\<close>

locale counted_system =
  fixes step :: "'s \<Rightarrow> 'l \<Rightarrow> 's \<Rightarrow> bool"
    and inv :: "nat \<Rightarrow> 's \<Rightarrow> bool"
  assumes counted_step: "step s l t \<Longrightarrow> inv (Suc k) s \<Longrightarrow> inv k t"
begin

lemma counted_run: "run step s ls t \<Longrightarrow> inv (length ls + k) s \<Longrightarrow> inv k t"
  by (induction rule: run.induct) (auto intro: counted_step)

end

end
