(* ===== verification/Crc.thy ===== *)
theory Crc
  imports Go_Prelude
begin

text \<open>
  The checksums of Go's \<^verbatim>\<open>hash/crc32\<close> (IEEE polynomial) and \<^verbatim>\<open>hash/crc64\<close>
  (ISO polynomial), bit by bit in reflected form, and the fact the storage engine relies
  on: a change of a single byte changes the checksum.
\<close>

section \<open>One step of a reflected CRC\<close>

definition crc_bit :: "'a::len word \<Rightarrow> 'a word \<Rightarrow> 'a word" where
  "crc_bit poly c = (if bit c 0 then drop_bit 1 c XOR poly else drop_bit 1 c)"

fun crc_bits :: "'a::len word \<Rightarrow> nat \<Rightarrow> 'a word \<Rightarrow> 'a word" where
  "crc_bits poly 0 c = c"
| "crc_bits poly (Suc n) c = crc_bits poly n (crc_bit poly c)"

definition crc_byte :: "'a::len word \<Rightarrow> 'a word \<Rightarrow> byte \<Rightarrow> 'a word" where
  "crc_byte poly c b = crc_bits poly 8 (c XOR ucast b)"

definition crc_update :: "'a::len word \<Rightarrow> 'a word \<Rightarrow> bytes \<Rightarrow> 'a word" where
  "crc_update poly c bs = foldl (crc_byte poly) c bs"

text \<open>\<^verbatim>\<open>crc32.ChecksumIEEE\<close>\<close>

definition ChecksumIEEE :: "bytes \<Rightarrow> uint32" where
  "ChecksumIEEE bs = NOT (crc_update 0xEDB88320 (NOT 0) bs)"

text \<open>\<^verbatim>\<open>crc64.Checksum(data, crc64.MakeTable(crc64.ISO))\<close>\<close>

definition Checksum64ISO :: "bytes \<Rightarrow> uint64" where
  "Checksum64ISO bs = NOT (crc_update 0xD800000000000000 (NOT 0) bs)"

text \<open>The published check values of the two algorithms, on the bytes of 123456789.\<close>

lemma crc_bits_8 [go_simps]:
  "crc_bits p 8 c = crc_bit p (crc_bit p (crc_bit p (crc_bit p
     (crc_bit p (crc_bit p (crc_bit p (crc_bit p c)))))))"
  by (simp add: eval_nat_numeral)

lemma ChecksumIEEE_check:
  "ChecksumIEEE [0x31, 0x32, 0x33, 0x34, 0x35, 0x36, 0x37, 0x38, 0x39] = 0xCBF43926"
  by (simp add: ChecksumIEEE_def crc_update_def crc_byte_def crc_bit_def go_simps)

lemma Checksum64ISO_check:
  "Checksum64ISO [0x31, 0x32, 0x33, 0x34, 0x35, 0x36, 0x37, 0x38, 0x39] = 0xB90956C775A41001"
  by (simp add: Checksum64ISO_def crc_update_def crc_byte_def crc_bit_def go_simps)

section \<open>A single changed byte is detected\<close>

text \<open>
  A polynomial whose top bit is set makes the bit step injective: the top bit of the
  result tells whether the polynomial was added.
\<close>

lemma bit_drop_bit_top: "\<not> bit (drop_bit 1 (c :: 'a::len word)) (LENGTH('a) - 1)"
  by (simp add: bit_drop_bit_eq)

lemma word_xor_cancel [simp]: "(a XOR c = b XOR c) \<longleftrightarrow> (a = (b :: 'a::len word))"
  by (metis xor.assoc xor.right_neutral xor_self_eq)

lemma crc_bit_inj:
  fixes poly :: "'a::len word"
  assumes "bit poly (LENGTH('a) - 1)" and "crc_bit poly c = crc_bit poly d"
  shows "c = d"
proof -
  let ?top = "LENGTH('a) - 1"
  have top: "bit (crc_bit poly x) ?top \<longleftrightarrow> bit x 0" for x
    using assms(1) bit_drop_bit_top [of x] by (simp add: crc_bit_def bit_xor_iff)
  have parity: "bit c 0 \<longleftrightarrow> bit d 0"
    using top [of c] top [of d] assms(2) by simp
  have "drop_bit 1 c = drop_bit 1 d"
    using assms(2) parity by (auto simp: crc_bit_def split: if_splits)
  then have high: "bit c (Suc n) = bit d (Suc n)" for n
    by (metis add.commute bit_drop_bit_eq comp_apply plus_1_eq_Suc)
  show ?thesis
  proof (rule bit_word_eqI)
    fix n
    show "bit c n = bit d n"
      using parity high by (cases n) simp_all
  qed
qed

lemma crc_bits_inj:
  fixes poly :: "'a::len word"
  assumes "bit poly (LENGTH('a) - 1)"
  shows "crc_bits poly n c = crc_bits poly n d \<Longrightarrow> c = d"
  by (induction n arbitrary: c d) (auto dest: crc_bit_inj [OF assms])

lemma crc_byte_inj_state:
  fixes poly :: "'a::len word"
  assumes "bit poly (LENGTH('a) - 1)" and "crc_byte poly c b = crc_byte poly d b"
  shows "c = d"
  using crc_bits_inj [OF assms(1), of 8 "c XOR ucast b" "d XOR ucast b"] assms(2)
  by (simp add: crc_byte_def)

lemma crc_byte_inj_byte:
  fixes poly :: "'a::len word"
  assumes "bit poly (LENGTH('a) - 1)" and "8 \<le> LENGTH('a)"
    and "crc_byte poly c a = crc_byte poly c b"
  shows "a = b"
proof -
  have "ucast a XOR c = ucast b XOR c"
    using crc_bits_inj [OF assms(1), of 8 "c XOR ucast a" "c XOR ucast b"] assms(3)
    by (simp add: crc_byte_def xor.commute)
  then have "ucast a = (ucast b :: 'a word)" by simp
  then have eq: "bit (ucast a :: 'a word) n = bit (ucast b :: 'a word) n" for n by simp
  show ?thesis
  proof (rule bit_word_eqI)
    fix n assume "n < LENGTH(8)"
    with eq [of n] assms(2) show "bit a n = bit b n"
      by (simp add: bit_ucast_iff)
  qed
qed

lemma crc_update_inj:
  fixes poly :: "'a::len word"
  assumes "bit poly (LENGTH('a) - 1)"
  shows "crc_update poly c bs = crc_update poly d bs \<Longrightarrow> c = d"
  unfolding crc_update_def
  by (induction bs arbitrary: c d) (auto dest: crc_byte_inj_state [OF assms])

lemma ChecksumIEEE_single_byte:
  assumes "a \<noteq> b"
  shows "ChecksumIEEE (pre @ a # post) \<noteq> ChecksumIEEE (pre @ b # post)"
proof
  let ?poly = "0xEDB88320 :: uint32"
  have top: "bit ?poly (LENGTH(32) - 1)" by simp
  let ?c = "crc_update ?poly (NOT 0) pre"
  assume "ChecksumIEEE (pre @ a # post) = ChecksumIEEE (pre @ b # post)"
  then have "crc_update ?poly (crc_byte ?poly ?c a) post = crc_update ?poly (crc_byte ?poly ?c b) post"
    by (simp add: ChecksumIEEE_def crc_update_def)
  then have "crc_byte ?poly ?c a = crc_byte ?poly ?c b"
    by (rule crc_update_inj [OF top])
  then have "a = b"
    by (intro crc_byte_inj_byte [OF top]) simp_all
  with assms show False ..
qed

section \<open>The low bits of CRC-64 ISO\<close>

text \<open>
  The polynomial has its bits at the top, so a byte only shifts the rest of the state down:
  the low bits of a checksum are higher bits of the checksum of a prefix.
\<close>

lemma iso_poly_low: "n \<le> 58 \<Longrightarrow> \<not> bit (0xD800000000000000 :: uint64) n"
proof -
  have "(0xD800000000000000 :: uint64) = push_bit 59 27" by (simp add: push_bit_eq_mult)
  then show "n \<le> 58 \<Longrightarrow> ?thesis" by (simp only: bit_push_bit_iff) simp
qed

lemma iso_bits_low: "n + k \<le> 59 \<Longrightarrow> bit (crc_bits (0xD800000000000000 :: uint64) k c) n = bit c (n + k)"
  by (induction k arbitrary: c) (auto simp: crc_bit_def bit_xor_iff bit_drop_bit_eq iso_poly_low simp del: bit_numeral_word_iff)

lemma iso_byte_low: "n \<le> 51 \<Longrightarrow> bit (crc_byte (0xD800000000000000 :: uint64) c b) n = bit c (n + 8)"
  unfolding crc_byte_def by (subst iso_bits_low) (auto simp: bit_xor_iff bit_ucast_iff dest: bit_imp_le_length)

lemma iso_update_low:
  "n + 8 * length bs \<le> 59 \<Longrightarrow> bit (crc_update (0xD800000000000000 :: uint64) c bs) n = bit c (n + 8 * length bs)"
  unfolding crc_update_def
  by (induction bs arbitrary: c) (simp_all add: iso_byte_low add.commute add.left_commute)

lemma Checksum64ISO_low:
  assumes "n + 8 * length bs \<le> 59"
  shows "bit (Checksum64ISO (pre @ bs)) n = bit (Checksum64ISO pre) (n + 8 * length bs)"
  using assms iso_update_low [OF assms] by (simp add: Checksum64ISO_def crc_update_def bit_not_iff)

end
