(* ===== verification/Bitcask_Entry.thy ===== *)
theory Bitcask_Entry
  imports Crc "HOL-Library.Sublist"
begin

text \<open>
  The on-disk record of the storage engine (src/bitcask/main.go): little-endian fields
  as \<^verbatim>\<open>encoding/binary\<close> writes them, the 17-byte header with its checksum, the
  record of a hint file, and logs, which are sequences of records. A log determines its
  records: the header found at the offset of a record is that record's header.
\<close>

section \<open>encoding/binary, little endian\<close>

definition PutUint32 :: "uint32 \<Rightarrow> bytes" where
  "PutUint32 x = [ucast x, ucast (drop_bit 8 x), ucast (drop_bit 16 x), ucast (drop_bit 24 x)]"

definition Uint32 :: "bytes \<Rightarrow> uint32" where
  "Uint32 b = ucast (b ! 0) OR push_bit 8 (ucast (b ! 1)) OR
              push_bit 16 (ucast (b ! 2)) OR push_bit 24 (ucast (b ! 3))"

definition PutUint64 :: "uint64 \<Rightarrow> bytes" where
  "PutUint64 x = map (\<lambda>i. ucast (drop_bit (8 * i) x)) [0..<8]"

lemma length_PutUint32 [simp]: "length (PutUint32 x) = 4"
  by (simp add: PutUint32_def)

lemma length_PutUint64 [simp]: "length (PutUint64 x) = 8"
  by (simp add: PutUint64_def)

lemma Uint32_PutUint32 [simp]: "Uint32 (PutUint32 x) = x"
proof (rule bit_word_eqI)
  fix n assume "n < LENGTH(32)"
  then show "bit (Uint32 (PutUint32 x)) n = bit x n"
    by (cases "n < 8"; cases "n < 16"; cases "n < 24")
       (auto simp: Uint32_def PutUint32_def bit_simps)
qed

lemma byte_bit_high: "8 \<le> n \<Longrightarrow> \<not> bit (x :: byte) n"
  using bit_imp_le_length [of x n] by auto

lemma PutUint32_Uint32: "length b = 4 \<Longrightarrow> PutUint32 (Uint32 b) = b"
proof -
  assume "length b = 4"
  then obtain b0 b1 b2 b3 where b: "b = [b0, b1, b2, b3]"
    by (auto simp: length_Suc_conv numeral_eq_Suc)
  show ?thesis
    by (auto simp: b PutUint32_def Uint32_def bit_simps byte_bit_high intro!: bit_word_eqI)
qed

lemma Uint32_inject: "length a = 4 \<Longrightarrow> length b = 4 \<Longrightarrow> Uint32 a = Uint32 b \<Longrightarrow> a = b"
  by (metis PutUint32_Uint32)

section \<open>Records\<close>

definition headerSize :: nat where
  "headerSize = 17"

text \<open>The buffer \<^verbatim>\<open>put\<close> builds: checksum, timestamp, key size, value size, flag, key, value.\<close>

definition encode_entry :: "uint32 \<Rightarrow> bytes \<Rightarrow> bytes \<Rightarrow> byte \<Rightarrow> bytes" where
  "encode_entry timestamp key value flag =
     (let rest = PutUint32 timestamp @ PutUint32 (of_nat (length key)) @
                 PutUint32 (of_nat (length value)) @ [flag] @ key @ value
      in PutUint32 (ChecksumIEEE rest) @ rest)"

text \<open>The fields the readers take out of a header.\<close>

definition hdr_ksz :: "bytes \<Rightarrow> uint32" where
  "hdr_ksz buf = Uint32 (chunk 8 4 buf)"

definition hdr_vsz :: "bytes \<Rightarrow> uint32" where
  "hdr_vsz buf = Uint32 (chunk 12 4 buf)"

definition hdr_flag :: "bytes \<Rightarrow> byte" where
  "hdr_flag buf = buf ! 16"

definition hdr_crc :: "bytes \<Rightarrow> uint32" where
  "hdr_crc buf = Uint32 (chunk 0 4 buf)"

text \<open>The record \<^verbatim>\<open>appendEntry\<close> writes to the hint file.\<close>

definition hint_record :: "bytes \<Rightarrow> uint32 \<Rightarrow> nat \<Rightarrow> bytes" where
  "hint_record key valueSize dataOffset =
     PutUint32 (of_nat (length key)) @ PutUint32 valueSize @
     PutUint64 (of_nat dataOffset) @ key"

lemma length_encode_entry [simp]:
  "length (encode_entry ts k v fl) = headerSize + length k + length v"
  by (simp add: encode_entry_def Let_def headerSize_def)

lemma chunk_skip: "i \<ge> length a \<Longrightarrow> chunk i n (a @ b) = chunk (i - length a) n b"
  by (simp add: chunk_def)

lemma chunk_first: "n \<le> length a \<Longrightarrow> chunk 0 n (a @ b) = take n a"
  by (simp add: chunk_def)

lemma chunk_within: "i + n \<le> length a \<Longrightarrow> chunk i n (a @ b) = chunk i n a"
  by (simp add: chunk_def)

text \<open>
  The header fields of an encoded record, read from the header alone or from any longer
  buffer that starts with the record.
\<close>

lemma hdr_encode:
  "hdr_ksz (encode_entry ts k v fl @ r) = of_nat (length k)"
  "hdr_vsz (encode_entry ts k v fl @ r) = of_nat (length v)"
  "hdr_flag (encode_entry ts k v fl @ r) = fl"
  "hdr_crc (encode_entry ts k v fl @ r) = ChecksumIEEE (drop 4 (encode_entry ts k v fl))"
  by (simp_all add: hdr_ksz_def hdr_vsz_def hdr_flag_def hdr_crc_def encode_entry_def Let_def
      chunk_skip chunk_first nth_append)

lemma hdr_take:
  assumes "headerSize \<le> length c"
  shows "hdr_ksz (take headerSize c) = hdr_ksz c" and "hdr_vsz (take headerSize c) = hdr_vsz c"
    and "hdr_flag (take headerSize c) = hdr_flag c"
  using assms
  by (simp_all add: hdr_ksz_def hdr_vsz_def hdr_flag_def chunk_def drop_take headerSize_def)

lemma key_of_encode: "chunk headerSize (length k) (encode_entry ts k v fl) = k"
  by (simp add: encode_entry_def Let_def headerSize_def chunk_def)

lemma value_of_encode: "drop (headerSize + length k) (encode_entry ts k v fl) = v"
  by (simp add: encode_entry_def Let_def headerSize_def)

section \<open>Logs\<close>

record entry =
  e_ts :: uint32
  e_key :: bytes
  e_val :: bytes
  e_flag :: byte

definition enc :: "entry \<Rightarrow> bytes" where
  "enc e = encode_entry (e_ts e) (e_key e) (e_val e) (e_flag e)"

definition enc_all :: "entry list \<Rightarrow> bytes" where
  "enc_all es = concat (map enc es)"

definition e_size :: "entry \<Rightarrow> nat" where
  "e_size e = headerSize + length (e_key e) + length (e_val e)"

text \<open>A record whose size fits the 32-bit arithmetic of the merge loop.\<close>

definition small :: "entry \<Rightarrow> bool" where
  "small e \<longleftrightarrow> e_size e < 2 ^ 32"

lemma enc_all_simps [simp]:
  "enc_all [] = []" "enc_all (e # es) = enc e @ enc_all es"
  "enc_all (xs @ ys) = enc_all xs @ enc_all ys"
  by (simp_all add: enc_all_def)

lemma length_enc [simp]: "length (enc e) = e_size e"
  by (simp add: enc_def e_size_def)

lemma e_size_pos: "headerSize \<le> e_size e" "0 < headerSize"
  by (simp_all add: e_size_def headerSize_def)

lemma small_sizes:
  assumes "small e"
  shows "unat (of_nat (length (e_key e)) :: uint32) = length (e_key e)"
    and "unat (of_nat (length (e_val e)) :: uint32) = length (e_val e)"
    and "unat (17 + of_nat (length (e_key e)) + of_nat (length (e_val e)) :: uint32) = e_size e"
    and "unat (17 + of_nat (length (e_key e)) :: uint32) = headerSize + length (e_key e)"
proof -
  have lt: "17 + length (e_key e) + length (e_val e) < 2 ^ 32"
    using assms by (simp add: small_def e_size_def headerSize_def)
  then show "unat (of_nat (length (e_key e)) :: uint32) = length (e_key e)"
    and "unat (of_nat (length (e_val e)) :: uint32) = length (e_val e)"
    by (simp_all add: unat_of_nat take_bit_nat_eq_self)
  have "(17 + of_nat (length (e_key e)) + of_nat (length (e_val e)) :: uint32)
      = of_nat (17 + length (e_key e) + length (e_val e))" by simp
  then show "unat (17 + of_nat (length (e_key e)) + of_nat (length (e_val e)) :: uint32) = e_size e"
    using lt by (simp only: unat_of_nat) (simp add: take_bit_nat_eq_self e_size_def headerSize_def)
  have "(17 + of_nat (length (e_key e)) :: uint32) = of_nat (17 + length (e_key e))" by simp
  then show "unat (17 + of_nat (length (e_key e)) :: uint32) = headerSize + length (e_key e)"
    using lt by (simp only: unat_of_nat) (simp add: take_bit_nat_eq_self headerSize_def)
qed

text \<open>What the readers compute from the header and the buffer of a small record.\<close>

lemma enc_fields:
  assumes "small e"
  shows "unat (hdr_ksz (take headerSize (enc e))) = length (e_key e)"
    and "unat (hdr_vsz (take headerSize (enc e))) = length (e_val e)"
    and "hdr_flag (take headerSize (enc e)) = e_flag e"
    and "hdr_crc (enc e) = ChecksumIEEE (drop 4 (enc e))"
    and "chunk headerSize (length (e_key e)) (enc e) = e_key e"
    and "drop (headerSize + length (e_key e)) (enc e) = e_val e"
  using hdr_take [of "enc e"] hdr_encode [of "e_ts e" "e_key e" "e_val e" "e_flag e" "[]"]
    small_sizes [OF assms] e_size_pos(1) [of e] key_of_encode value_of_encode
  by (simp_all add: enc_def e_size_def)

text \<open>A record with one byte replaced fails the checksum test, wherever the byte is.\<close>

lemma enc_crc_detects:
  assumes "small e" and "j < e_size e" and "x \<noteq> enc e ! j"
  shows "ChecksumIEEE (drop 4 ((enc e)[j := x])) \<noteq> hdr_crc ((enc e)[j := x])"
proof (cases "j < 4")
  case True
  have len: "length (take 4 (enc e)) = 4"
    using e_size_pos(1) [of e] by (simp add: headerSize_def)
  have "(take 4 (enc e))[j := x] \<noteq> take 4 (enc e)"
    using assms True len by (metis nth_list_update_eq nth_take)
  then have "Uint32 ((take 4 (enc e))[j := x]) \<noteq> Uint32 (take 4 (enc e))"
    using Uint32_inject len by (metis length_list_update)
  then show ?thesis
    using enc_fields(4) [OF assms(1)] True
    by (simp add: hdr_crc_def chunk_def take_update_swap drop_update_cancel)
next
  case False
  let ?d = "drop 4 (enc e)" and ?i = "j - 4"
  have i: "?i < length ?d" "x \<noteq> ?d ! ?i" using assms False by auto
  have "drop 4 ((enc e)[j := x]) = take ?i ?d @ x # drop (Suc ?i) ?d"
    using False i(1) by (simp add: drop_update_swap upd_conv_take_nth_drop drop_take)
  moreover have "?d = take ?i ?d @ ?d ! ?i # drop (Suc ?i) ?d"
    by (rule id_take_nth_drop [OF i(1)])
  ultimately have "ChecksumIEEE (drop 4 ((enc e)[j := x])) \<noteq> ChecksumIEEE ?d"
    using ChecksumIEEE_single_byte [OF i(2)] by metis
  then show ?thesis
    using enc_fields(4) [OF assms(1)] False by (simp add: hdr_crc_def chunk_def take_update_cancel)
qed

text \<open>
  \<open>at_log es off e\<close>: the record \<open>e\<close> of the log \<open>es\<close> starts at byte \<open>off\<close>.
\<close>

fun at_log :: "entry list \<Rightarrow> nat \<Rightarrow> entry \<Rightarrow> bool" where
  "at_log [] off e = False"
| "at_log (x # es) off e =
     (if off = 0 then e = x else e_size x \<le> off \<and> at_log es (off - e_size x) e)"

text \<open>The file starts with the log; what follows it (a torn write) does not matter.\<close>

definition has_log :: "bytes \<Rightarrow> entry list \<Rightarrow> bool" where
  "has_log c es \<longleftrightarrow> (\<forall>e \<in> set es. small e) \<and> prefix (enc_all es) c"

lemma at_log_split:
  "at_log es off e \<Longrightarrow> \<exists>xs ys. es = xs @ e # ys \<and> off = length (enc_all xs)"
proof (induction es arbitrary: off)
  case (Cons x es)
  show ?case
  proof (cases "off = 0")
    case True
    with Cons.prems show ?thesis by (rule_tac x = "[]" in exI) simp
  next
    case False
    with Cons.prems obtain xs ys where "es = xs @ e # ys" "off - e_size x = length (enc_all xs)"
      using Cons.IH [of "off - e_size x"] by auto
    with False Cons.prems show ?thesis by (rule_tac x = "x # xs" in exI) auto
  qed
qed simp

lemma at_log_append: "at_log es off e \<Longrightarrow> at_log (es @ fs) off e"
  by (induction es arbitrary: off) (auto split: if_splits)

lemma at_log_skip: "at_log (xs @ ys) (length (enc_all xs) + off) e = at_log ys off e"
  using e_size_pos by (induction xs) (auto simp: add.assoc headerSize_def e_size_def)

lemma at_log_last: "at_log (es @ [e]) (length (enc_all es)) e"
  using at_log_skip [of es "[e]" 0 e] by simp

lemma at_log_end: "at_log es off e \<Longrightarrow> off + e_size e \<le> length (enc_all es)"
  by (auto dest: at_log_split)

lemma at_log_mem: "at_log es off e \<Longrightarrow> e \<in> set es"
  by (auto dest: at_log_split)

text \<open>Two records of a log that start at the same byte are the same record.\<close>

lemma at_log_unique: "at_log es off e \<Longrightarrow> at_log es off e' \<Longrightarrow> e = e'"
  by (induction es arbitrary: off) (auto split: if_splits)

text \<open>No record starts inside another one.\<close>

lemma at_log_gap: "at_log es a r \<Longrightarrow> at_log es c x \<Longrightarrow> a < c \<Longrightarrow> a + e_size r \<le> c"
proof (induction es arbitrary: a c)
  case (Cons y es)
  show ?case
  proof (cases "a = 0")
    case True
    with Cons.prems show ?thesis by simp
  next
    case False
    with Cons.prems have "at_log es (a - e_size y) r" "at_log es (c - e_size y) x"
      "e_size y \<le> a" "e_size y \<le> c" "a - e_size y < c - e_size y" by auto
    with Cons.IH [of "a - e_size y" "c - e_size y"] show ?thesis by simp
  qed
qed simp

text \<open>An offset the scanning loop may stand at: a record's start, or past the log.\<close>

definition boundary :: "entry list \<Rightarrow> nat \<Rightarrow> bool" where
  "boundary es off \<longleftrightarrow> (\<exists>r. at_log es off r) \<or> length (enc_all es) \<le> off"

lemma boundary_0: "boundary es 0"
  by (cases es) (auto simp: boundary_def)

lemma boundary_next: "at_log es off r \<Longrightarrow> boundary es (off + e_size r)"
proof -
  assume "at_log es off r"
  then obtain xs ys where es: "es = (xs @ [r]) @ ys" and off: "off = length (enc_all xs)"
    using at_log_split by fastforce
  have "off + e_size r = length (enc_all (xs @ [r]))" by (simp add: off)
  then show ?thesis
    using at_log_skip [of "xs @ [r]" ys 0] boundary_0 [of ys] by (auto simp: es boundary_def)
qed

lemma has_log_at:
  assumes "has_log c es" and "at_log es off e"
  shows "small e" and "off + e_size e \<le> length c" and "chunk off (e_size e) c = enc e"
proof -
  from assms(2) obtain xs ys where es: "es = xs @ e # ys" and off: "off = length (enc_all xs)"
    using at_log_split by blast
  with assms(1) obtain r where c: "c = enc_all xs @ enc e @ enc_all ys @ r"
    by (auto simp: has_log_def prefix_def)
  show "small e" using assms es by (auto simp: has_log_def)
  show "off + e_size e \<le> length c" by (simp add: c off)
  show "chunk off (e_size e) c = enc e"
    using chunk_append_exact [of "enc_all xs" "enc e" "enc_all ys @ r"] by (simp add: c off)
qed

end
