(* ===== verification/Go_OS.thy ===== *)
theory Go_OS
  imports Go_Prelude
begin

text \<open>
  The part of Go's \<^verbatim>\<open>os\<close> package the programs use, over a file system that maps a
  path to the bytes of the file. Every call may fail: the state carries a script of
  faults that the calls consume in order. An entry \<open>None\<close> lets a call succeed,
  \<open>Some k\<close> makes it fail (a write after \<open>k\<close> bytes), and past the end of the
  script every call succeeds. A theorem that holds for every script therefore holds for
  every pattern of I/O errors.

  A handle \<^verbatim>\<open>*os.File\<close> is the path it was opened on, or \<open>None\<close> for nil. No
  program of the repository uses a handle after the name of its file was removed or
  renamed, so the path determines the file.
\<close>

record os =
  fs :: "string \<Rightarrow> bytes option"
  faults :: "nat option list"

type_synonym handle = "string option"

definition next_fault :: "os \<Rightarrow> nat option \<times> os" where
  "next_fault w = (case faults w of [] \<Rightarrow> (None, w) | f # r \<Rightarrow> (f, w\<lparr>faults := r\<rparr>))"

definition content :: "os \<Rightarrow> string \<Rightarrow> bytes" where
  "content w p = (case fs w p of None \<Rightarrow> [] | Some c \<Rightarrow> c)"

text \<open>An empty directory in which no call fails.\<close>

definition empty_os :: os where
  "empty_os = \<lparr>fs = Map.empty, faults = []\<rparr>"

lemma empty_os [simp]: "content empty_os p = []" "faults empty_os = []" "fs empty_os = Map.empty"
  by (simp_all add: empty_os_def content_def)

section \<open>Opening, inspecting and removing files\<close>

text \<open>\<^verbatim>\<open>os.OpenFile\<close> with \<^verbatim>\<open>O_CREATE|O_RDWR\<close>: an existing file keeps its bytes.\<close>

definition OpenFile :: "string \<Rightarrow> os \<Rightarrow> handle result \<times> os" where
  "OpenFile p w = (case next_fault w of
       (Some _, w') \<Rightarrow> (Inl EIO, w')
     | (None, w') \<Rightarrow> (Inr (Some p), w'\<lparr>fs := (fs w')(p \<mapsto> content w' p)\<rparr>))"

text \<open>\<^verbatim>\<open>O_TRUNC\<close> in addition: the file starts empty.\<close>

definition OpenTrunc :: "string \<Rightarrow> os \<Rightarrow> handle result \<times> os" where
  "OpenTrunc p w = (case next_fault w of
       (Some _, w') \<Rightarrow> (Inl EIO, w')
     | (None, w') \<Rightarrow> (Inr (Some p), w'\<lparr>fs := (fs w')(p \<mapsto> [])\<rparr>))"

text \<open>\<^verbatim>\<open>os.OpenFile\<close> with \<^verbatim>\<open>O_RDONLY\<close>: a missing file is an error.\<close>

definition OpenRead :: "string \<Rightarrow> os \<Rightarrow> handle result \<times> os" where
  "OpenRead p w = (case next_fault w of
       (Some _, w') \<Rightarrow> (Inl EIO, w')
     | (None, w') \<Rightarrow>
         (case fs w' p of None \<Rightarrow> (Inl ErrNotExist, w') | Some _ \<Rightarrow> (Inr (Some p), w')))"

text \<open>\<^verbatim>\<open>os.Stat\<close> by name and \<^verbatim>\<open>f.Stat\<close> by handle; both return the size.\<close>

definition Stat :: "string \<Rightarrow> os \<Rightarrow> nat result \<times> os" where
  "Stat p w = (case next_fault w of
       (Some _, w') \<Rightarrow> (Inl EIO, w')
     | (None, w') \<Rightarrow>
         (case fs w' p of None \<Rightarrow> (Inl ErrNotExist, w') | Some c \<Rightarrow> (Inr (length c), w')))"

definition file_Stat :: "handle \<Rightarrow> os \<Rightarrow> nat result \<times> os" where
  "file_Stat f w = (case f of
       None \<Rightarrow> (Inl ErrInvalid, w)
     | Some p \<Rightarrow> (case next_fault w of
           (Some _, w') \<Rightarrow> (Inl EIO, w')
         | (None, w') \<Rightarrow> (Inr (length (content w' p)), w')))"

text \<open>\<^verbatim>\<open>os.Remove\<close> and \<^verbatim>\<open>os.Rename\<close>.\<close>

definition Remove :: "string \<Rightarrow> os \<Rightarrow> unit result \<times> os" where
  "Remove p w = (case next_fault w of
       (Some _, w') \<Rightarrow> (Inl EIO, w')
     | (None, w') \<Rightarrow> (if fs w' p = None then (Inl ErrNotExist, w')
                      else (Inr (), w'\<lparr>fs := (fs w')(p := None)\<rparr>)))"

definition Rename :: "string \<Rightarrow> string \<Rightarrow> os \<Rightarrow> unit result \<times> os" where
  "Rename p q w = (case next_fault w of
       (Some _, w') \<Rightarrow> (Inl EIO, w')
     | (None, w') \<Rightarrow> (case fs w' p of
           None \<Rightarrow> (Inl ErrNotExist, w')
         | Some c \<Rightarrow> (Inr (), w'\<lparr>fs := (fs w')(p := None, q \<mapsto> c)\<rparr>)))"

section \<open>Reading and writing through a handle\<close>

text \<open>
  \<^verbatim>\<open>f.ReadAt(buf, off)\<close> fills a buffer of \<open>n\<close> bytes or returns an error;
  \<^verbatim>\<open>io.EOF\<close> when the file ends first. An empty buffer needs no system call.
\<close>

definition ReadAt :: "handle \<Rightarrow> nat \<Rightarrow> nat \<Rightarrow> os \<Rightarrow> bytes result \<times> os" where
  "ReadAt f n off w = (case f of
       None \<Rightarrow> (Inl ErrInvalid, w)
     | Some p \<Rightarrow>
         if n = 0 then (Inr [], w)
         else (case next_fault w of
             (Some _, w') \<Rightarrow> (Inl EIO, w')
           | (None, w') \<Rightarrow>
               (if off + n \<le> length (content w' p)
                then (Inr (chunk off n (content w' p)), w') else (Inl EOF, w'))))"

text \<open>
  \<^verbatim>\<open>f.WriteAt(d, off)\<close> returns the number of bytes written and an error, which is
  nil exactly when all of \<open>d\<close> was written; a failed write leaves a prefix of \<open>d\<close>.
\<close>

definition WriteAt :: "handle \<Rightarrow> bytes \<Rightarrow> nat \<Rightarrow> os \<Rightarrow> (nat \<times> go_error option) \<times> os" where
  "WriteAt f d off w = (case f of
       None \<Rightarrow> ((0, Some ErrInvalid), w)
     | Some p \<Rightarrow> (case next_fault w of
           (Some k, w') \<Rightarrow>
             ((min k (length d), Some EIO),
              w'\<lparr>fs := (fs w')(p \<mapsto> (if k = 0 then content w' p
                                         else write_at (content w' p) off (take k d)))\<rparr>)
         | (None, w') \<Rightarrow>
             ((length d, None),
              w'\<lparr>fs := (fs w')(p \<mapsto> write_at (content w' p) off d)\<rparr>)))"

text \<open>\<^verbatim>\<open>f.Write(d)\<close> on a file opened with \<^verbatim>\<open>O_APPEND\<close>, or at its current end.\<close>

definition Append :: "handle \<Rightarrow> bytes \<Rightarrow> os \<Rightarrow> (nat \<times> go_error option) \<times> os" where
  "Append f d w = (case f of
       None \<Rightarrow> ((0, Some ErrInvalid), w)
     | Some p \<Rightarrow> WriteAt f d (length (content w p)) w)"

text \<open>\<^verbatim>\<open>f.Sync()\<close> and \<^verbatim>\<open>f.Close()\<close> report an error or succeed.\<close>

definition Sync :: "handle \<Rightarrow> os \<Rightarrow> go_error option \<times> os" where
  "Sync f w = (case f of
       None \<Rightarrow> (Some ErrInvalid, w)
     | Some p \<Rightarrow> (case next_fault w of (Some _, w') \<Rightarrow> (Some EIO, w') | (None, w') \<Rightarrow> (None, w')))"

definition Close :: "handle \<Rightarrow> os \<Rightarrow> go_error option \<times> os" where
  "Close f w = Sync f w"

section \<open>What the calls leave unchanged\<close>

lemma next_fault_fs [simp]: "next_fault w = (f, w') \<Longrightarrow> fs w' = fs w"
  by (auto simp: next_fault_def split: list.splits)

lemma next_fault_content [simp]: "next_fault w = (f, w') \<Longrightarrow> content w' = content w"
  by (simp add: content_def fun_eq_iff)

lemma next_fault_Nil [simp]: "faults w = [] \<Longrightarrow> next_fault w = (None, w)"
  by (simp add: next_fault_def)

lemma content_upd [simp]:
  "content (w\<lparr>fs := m(p \<mapsto> c)\<rparr>) q = (if q = p then c else content (w\<lparr>fs := m\<rparr>) q)"
  "content (w\<lparr>fs := fs v\<rparr>) = content v"
  by (simp_all add: content_def fun_eq_iff)

lemma content_eqI: "fs w p = fs v p \<Longrightarrow> content w p = content v p"
  by (simp add: content_def)

lemma fs_content: "fs w p \<noteq> None \<Longrightarrow> fs w p = Some (content w p)"
  by (auto simp: content_def)

text \<open>Calls that only look at the file system.\<close>

lemma ReadAt_fs [simp]: "fs (snd (ReadAt f n off w)) = fs w"
  by (auto simp: ReadAt_def split: option.splits prod.splits)

lemma Stat_fs [simp]: "fs (snd (Stat p w)) = fs w"
  by (auto simp: Stat_def split: option.splits prod.splits)

lemma file_Stat_fs [simp]: "fs (snd (file_Stat f w)) = fs w"
  by (auto simp: file_Stat_def split: option.splits prod.splits)

lemma Sync_fs [simp]: "fs (snd (Sync f w)) = fs w"
  by (auto simp: Sync_def split: option.splits prod.splits)

lemma Close_fs [simp]: "fs (snd (Close f w)) = fs w"
  by (simp add: Close_def)

lemma frameD:
  "ReadAt f n off w = (r, w') \<Longrightarrow> fs w' = fs w"
  "Stat p w = (s, w') \<Longrightarrow> fs w' = fs w"
  "file_Stat f w = (s, w') \<Longrightarrow> fs w' = fs w"
  "Sync f w = (x, w') \<Longrightarrow> fs w' = fs w"
  "Close f w = (x, w') \<Longrightarrow> fs w' = fs w"
  by (metis ReadAt_fs Stat_fs file_Stat_fs Sync_fs Close_fs snd_conv)+

text \<open>A successful read returns the bytes of the file.\<close>

lemma ReadAt_InrD:
  "ReadAt f n off w = (Inr d, w') \<Longrightarrow>
   \<exists>p. f = Some p \<and> d = chunk off n (content w p) \<and> length d = n \<and>
       (n = 0 \<or> off + n \<le> length (content w p)) \<and> fs w' = fs w"
  by (auto simp: ReadAt_def split: option.splits prod.splits if_splits)

text \<open>Opening keeps every file's bytes; the opened file exists afterwards.\<close>

lemma OpenFile_content [simp]: "content (snd (OpenFile p w)) = content w"
  by (auto simp: OpenFile_def content_def fun_eq_iff split: option.splits prod.splits)

lemma OpenFile_contentD: "OpenFile p w = (r, w') \<Longrightarrow> content w' = content w"
  by (metis OpenFile_content snd_conv)

lemma OpenFile_fs_mono: "fs w q \<noteq> None \<Longrightarrow> fs (snd (OpenFile p w)) q \<noteq> None"
  by (auto simp: OpenFile_def split: option.splits prod.splits)

lemma OpenFile_InrD:
  "OpenFile p w = (Inr f, w') \<Longrightarrow> f = Some p \<and> fs w' = (fs w)(p \<mapsto> content w p)"
  by (auto simp: OpenFile_def split: option.splits prod.splits)

text \<open>Writing changes one file only, and in it only the bytes at and after the offset.\<close>

lemma WriteAt_other [simp]:
  "f \<noteq> Some q \<Longrightarrow> content (snd (WriteAt f d off w)) q = content w q"
  by (auto simp: WriteAt_def split: option.splits prod.splits)

lemma WriteAt_otherD: "WriteAt f d off w = (r, w') \<Longrightarrow> f \<noteq> Some q \<Longrightarrow> content w' q = content w q"
  by (metis WriteAt_other snd_conv)

lemma WriteAt_fs_mono: "fs w q \<noteq> None \<Longrightarrow> fs (snd (WriteAt f d off w)) q \<noteq> None"
  by (auto simp: WriteAt_def split: option.splits prod.splits)

lemma WriteAt_below:
  assumes "i + n \<le> off" and "i + n \<le> length (content w q)"
  shows "chunk i n (content (snd (WriteAt f d off w)) q) = chunk i n (content w q)"
  using assms
  by (auto simp: WriteAt_def chunk_write_at_below split: option.splits prod.splits)

lemma WriteAt_length: "length (content w q) \<le> length (content (snd (WriteAt f d off w)) q)"
  by (auto simp: WriteAt_def length_write_at split: option.splits prod.splits)

lemma WriteAt_okD:
  "WriteAt f d off w = ((n, None), w') \<Longrightarrow>
   \<exists>p. f = Some p \<and> n = length d \<and> fs w' = (fs w)(p \<mapsto> write_at (content w p) off d)"
  by (auto simp: WriteAt_def split: option.splits prod.splits)

lemma Remove_other [simp]: "q \<noteq> p \<Longrightarrow> fs (snd (Remove p w)) q = fs w q"
  by (auto simp: Remove_def split: option.splits prod.splits)

text \<open>With no fault left in the script every call succeeds.\<close>

lemma no_faults [go_simps]:
  assumes "faults w = []"
  shows "OpenFile p w = (Inr (Some p), w\<lparr>fs := (fs w)(p \<mapsto> content w p)\<rparr>)"
    and "OpenTrunc p w = (Inr (Some p), w\<lparr>fs := (fs w)(p \<mapsto> [])\<rparr>)"
    and "WriteAt (Some p) d off w =
           ((length d, None), w\<lparr>fs := (fs w)(p \<mapsto> write_at (content w p) off d)\<rparr>)"
    and "Sync (Some p) w = (None, w)"
    and "Close (Some p) w = (None, w)"
    and "file_Stat (Some p) w = (Inr (length (content w p)), w)"
  using assms
  by (simp_all add: OpenFile_def OpenTrunc_def WriteAt_def Sync_def Close_def file_Stat_def)

lemma no_faults_ReadAt [go_simps]:
  "faults w = [] \<Longrightarrow> 0 < n \<Longrightarrow> ReadAt (Some p) n off w =
     (if off + n \<le> length (content w p) then (Inr (chunk off n (content w p)), w)
      else (Inl EOF, w))"
  by (simp add: ReadAt_def)

end
