(* ===== verification/KV_Store.thy ===== *)
theory KV_Store
  imports Main
begin

text \<open>
  The contract of a key-value store: a lookup returns the last value written, a write
  changes one key, and every operation keeps the store's invariant. The client lemmas
  give the state after any sequence of operations. A compacting store has in addition an
  operation that changes the representation but no answer.
\<close>

datatype ('a, 'k, 'v) kv_op = KPut 'a 'k 'v | KDel 'a 'k

fun kv_spec :: "('a, 'k, 'v) kv_op \<Rightarrow> ('k \<Rightarrow> 'v option) \<Rightarrow> 'k \<Rightarrow> 'v option" where
  "kv_spec (KPut a k v) m = m(k \<mapsto> v)"
| "kv_spec (KDel a k) m = m(k := None)"

fun kv_run :: "('a \<Rightarrow> 'k \<Rightarrow> 'v \<Rightarrow> 's \<Rightarrow> 's) \<Rightarrow> ('a \<Rightarrow> 'k \<Rightarrow> 's \<Rightarrow> 's) \<Rightarrow> ('a, 'k, 'v) kv_op list \<Rightarrow> 's \<Rightarrow> 's" where
  "kv_run p d [] s = s"
| "kv_run p d (KPut a k v # ops) s = kv_run p d ops (p a k v s)"
| "kv_run p d (KDel a k # ops) s = kv_run p d ops (d a k s)"

fun kv_fits :: "('k \<Rightarrow> 'v \<Rightarrow> bool) \<Rightarrow> ('k \<Rightarrow> bool) \<Rightarrow> ('a, 'k, 'v) kv_op \<Rightarrow> bool" where
  "kv_fits f g (KPut a k v) = f k v"
| "kv_fits f g (KDel a k) = g k"

locale kv_store =
  fixes inv :: "'s \<Rightarrow> bool"
    and view :: "'s \<Rightarrow> 'k \<Rightarrow> 'v option"
    and get :: "'k \<Rightarrow> 's \<Rightarrow> 'v option"
    and put :: "'a \<Rightarrow> 'k \<Rightarrow> 'v \<Rightarrow> 's \<Rightarrow> 's"
    and del :: "'a \<Rightarrow> 'k \<Rightarrow> 's \<Rightarrow> 's"
    and fits :: "'k \<Rightarrow> 'v \<Rightarrow> bool"
    and fits_key :: "'k \<Rightarrow> bool"
  assumes get_view: "inv s \<Longrightarrow> get k s = view s k"
    and put_view: "inv s \<Longrightarrow> fits k v \<Longrightarrow> view (put a k v s) = (view s)(k \<mapsto> v)"
    and del_view: "inv s \<Longrightarrow> fits_key k \<Longrightarrow> view (del a k s) = (view s)(k := None)"
    and put_inv: "inv s \<Longrightarrow> fits k v \<Longrightarrow> inv (put a k v s)"
    and del_inv: "inv s \<Longrightarrow> fits_key k \<Longrightarrow> inv (del a k s)"
begin

lemma run_inv_view:
  "inv s \<Longrightarrow> list_all (kv_fits fits fits_key) ops \<Longrightarrow>
   inv (kv_run put del ops s) \<and> view (kv_run put del ops s) = fold kv_spec ops (view s)"
proof (induction ops arbitrary: s)
  case Nil
  then show ?case by simp
next
  case (Cons x ops)
  then show ?case
    by (cases x) (simp_all add: put_inv del_inv put_view del_view)
qed

lemma get_after_run:
  "inv s \<Longrightarrow> list_all (kv_fits fits fits_key) ops \<Longrightarrow>
   get k (kv_run put del ops s) = fold kv_spec ops (view s) k"
  by (simp add: run_inv_view get_view)

end

text \<open>The argument of a compaction is a choice it makes, such as the order of the files.\<close>

locale compacting_store = kv_store +
  fixes choice_ok :: "'c \<Rightarrow> bool"
    and compact :: "'c \<Rightarrow> 's \<Rightarrow> 's"
  assumes compact_view: "inv s \<Longrightarrow> choice_ok c \<Longrightarrow> view (compact c s) = view s"
    and compact_inv: "inv s \<Longrightarrow> choice_ok c \<Longrightarrow> inv (compact c s)"
begin

lemma get_compact: "inv s \<Longrightarrow> choice_ok c \<Longrightarrow> get k (compact c s) = get k s"
  by (simp add: get_view compact_view compact_inv)

lemma run_compact_run:
  assumes "inv s" and "choice_ok c" and "list_all (kv_fits fits fits_key) (xs @ ys)"
  shows "get k (kv_run put del ys (compact c (kv_run put del xs s))) =
         fold kv_spec (xs @ ys) (view s) k"
proof -
  have xs: "inv (kv_run put del xs s)" "view (kv_run put del xs s) = fold kv_spec xs (view s)"
    using run_inv_view [of s xs] assms by simp_all
  show ?thesis
    using get_after_run [of "compact c (kv_run put del xs s)" ys k] xs assms(2,3)
    by (simp add: compact_inv compact_view)
qed

end

end
