(* ===== verification/Bitcask.thy ===== *)
theory Bitcask
  imports Bitcask_Entry Go_OS KV_Store
begin

text \<open>
  The storage engine of src/bitcask/main.go without its compaction: the in-memory state,
  \<open>Put\<close>, \<open>Delete\<close> and \<open>Get\<close> on every branch, the invariant that ties the
  key directory to the records of the data files, and the abstraction to a map from keys
  to values. All results hold for every script of I/O faults. Each operation runs under
  the engine's mutex, so it is one atomic step.

  The map \<^verbatim>\<open>filePtrs\<close> from a path to the handle opened on it is the list of the
  open paths. The clock value \<open>now\<close> is an argument of the writing operations.
\<close>

section \<open>State\<close>

record KeyDirEntry =
  filePath :: string
  fileEntryOffset :: nat
  valueSize :: uint32

record BitCask =
  fileBasePath :: string
  currOffset :: nat
  filePtrs :: "string list"
  keyDir :: "bytes \<Rightarrow> KeyDirEntry option"
  fileCnt :: nat
  maxFileSizeBytes :: nat
  mergeFileCnt :: nat
  mergeFileOffset :: nat
  mergeHintFileOffset :: nat

definition New :: BitCask where
  "New = \<lparr>fileBasePath = ''./'', currOffset = 0, filePtrs = [], keyDir = Map.empty,
          fileCnt = 1, maxFileSizeBytes = 65536, mergeFileCnt = 1,
          mergeFileOffset = 0, mergeHintFileOffset = 0\<rparr>"

text \<open>The three kinds of file names.\<close>

definition data_path :: "BitCask \<Rightarrow> nat \<Rightarrow> string" where
  "data_path b n = fileBasePath b @ dec n @ ''.data''"

definition merge_path :: "BitCask \<Rightarrow> nat \<Rightarrow> string" where
  "merge_path b n = fileBasePath b @ ''merge-'' @ dec n @ ''.data''"

definition hint_path :: "BitCask \<Rightarrow> nat \<Rightarrow> string" where
  "hint_path b n = fileBasePath b @ ''merge-'' @ dec n @ ''.hint''"

abbreviation active_path :: "BitCask \<Rightarrow> string" where
  "active_path b \<equiv> data_path b (fileCnt b)"

text \<open>\<^verbatim>\<open>b.filePtrs[path]\<close>: nil when the path has no entry.\<close>

definition filePtr :: "BitCask \<Rightarrow> string \<Rightarrow> handle" where
  "filePtr b p = (if p \<in> set (filePtrs b) then Some p else None)"

section \<open>Operations\<close>

definition Get :: "bytes \<Rightarrow> BitCask \<Rightarrow> os \<Rightarrow> bytes result \<times> os" where
  "Get key b w = (case keyDir b key of
     None \<Rightarrow> (Inl (ErrMsg ''Key not found''), w)
   | Some e \<Rightarrow>
       (case ReadAt (filePtr b (filePath e)) headerSize (fileEntryOffset e) w of
          (Inl err, w1) \<Rightarrow> (Inl err, w1)
        | (Inr headerBuf, w1) \<Rightarrow>
            (let storedKeySize = unat (hdr_ksz headerBuf);
                 storedValueSize = unat (hdr_vsz headerBuf);
                 flag = hdr_flag headerBuf
             in case ReadAt (filePtr b (filePath e))
                       (headerSize + storedKeySize + storedValueSize) (fileEntryOffset e) w1 of
                  (Inl err, w2) \<Rightarrow> (Inl err, w2)
                | (Inr buf, w2) \<Rightarrow>
                    (if ChecksumIEEE (drop 4 buf) \<noteq> hdr_crc buf
                     then (Inl (ErrMsg ''Corrupted entry found''), w2)
                     else if chunk headerSize storedKeySize buf \<noteq> key
                     then (Inl (ErrMsg ''Key mismatch''), w2)
                     else if flag = 1 then (Inl (ErrMsg ''Key not found''), w2)
                     else (Inr (drop (headerSize + storedKeySize) buf), w2)))))"

text \<open>The parts of \<^verbatim>\<open>put\<close>: open the first file, index the record, start the next file.\<close>

definition put_open :: "BitCask \<Rightarrow> os \<Rightarrow> go_error option \<times> BitCask \<times> os" where
  "put_open b w =
     (if filePtrs b = [] then
        (case OpenFile (active_path b) w of
           (Inl err, w1) \<Rightarrow> (Some err, b, w1)
         | (Inr _, w1) \<Rightarrow> (None, b\<lparr>filePtrs := [active_path b]\<rparr>, w1))
      else (None, b, w))"

definition put_index :: "bytes \<Rightarrow> bytes \<Rightarrow> byte \<Rightarrow> BitCask \<Rightarrow> BitCask" where
  "put_index key value flag b =
     (let b1 = (if flag = 0
                then b\<lparr>keyDir := (keyDir b)(key \<mapsto>
                         \<lparr>filePath = active_path b, fileEntryOffset = currOffset b,
                          valueSize = of_nat (length value)\<rparr>)\<rparr>
                else b\<lparr>keyDir := (keyDir b)(key := None)\<rparr>)
      in b1\<lparr>currOffset := currOffset b1 + (headerSize + length key + length value)\<rparr>)"

definition put_rotate :: "BitCask \<Rightarrow> os \<Rightarrow> go_error option \<times> BitCask \<times> os" where
  "put_rotate b w =
     (if currOffset b \<ge> maxFileSizeBytes b then
        (let b1 = b\<lparr>fileCnt := fileCnt b + 1\<rparr>
         in case OpenFile (active_path b1) w of
              (Inl err, w1) \<Rightarrow> (Some err, b1, w1)
            | (Inr _, w1) \<Rightarrow>
                (None, b1\<lparr>filePtrs := List.insert (active_path b1) (filePtrs b1),
                          currOffset := 0\<rparr>, w1))
      else (None, b, w))"

definition put :: "uint32 \<Rightarrow> bytes \<Rightarrow> bytes \<Rightarrow> byte \<Rightarrow> BitCask \<Rightarrow> os
    \<Rightarrow> go_error option \<times> BitCask \<times> os" where
  "put now key value flag b w =
     (let entrySize = headerSize + length key + length value;
          buf = encode_entry now key value flag
      in case put_open b w of
           (Some err, b1, w1) \<Rightarrow> (Some err, b1, w1)
         | (None, b1, w1) \<Rightarrow>
             (case WriteAt (filePtr b1 (active_path b1)) buf (currOffset b1) w1 of
                ((numBytes, Some err), w2) \<Rightarrow> (Some err, b1, w2)
              | ((numBytes, None), w2) \<Rightarrow>
                  (if numBytes \<noteq> entrySize
                   then (Some (ErrMsg ''Incomplete entry written''), b1, w2)
                   else put_rotate (put_index key value flag b1) w2)))"

definition Put :: "uint32 \<Rightarrow> bytes \<Rightarrow> bytes \<Rightarrow> BitCask \<Rightarrow> os \<Rightarrow> go_error option \<times> BitCask \<times> os" where
  "Put now key value b w = put now key value 0 b w"

definition Delete :: "uint32 \<Rightarrow> bytes \<Rightarrow> BitCask \<Rightarrow> os \<Rightarrow> go_error option \<times> BitCask \<times> os" where
  "Delete now key b w = put now key [] 1 b w"

section \<open>File names\<close>

lemma data_path_inject [simp]: "data_path b m = data_path b n \<longleftrightarrow> m = n"
  by (simp add: data_path_def)

lemma merge_path_inject [simp]: "merge_path b m = merge_path b n \<longleftrightarrow> m = n"
  by (simp add: merge_path_def)

lemma data_merge_path [simp]:
  "data_path b m \<noteq> merge_path b n" "merge_path b n \<noteq> data_path b m"
proof -
  have "hd (dec m) \<noteq> CHR ''m''"
    using dec_digits [of m] by (auto simp: is_digit_def dest: bspec [OF _ list.set_sel(1)])
  then show "data_path b m \<noteq> merge_path b n" "merge_path b n \<noteq> data_path b m"
    by (auto simp: data_path_def merge_path_def dest: arg_cong [where f = hd])
qed

lemma hint_path_other [simp]:
  "hint_path b m \<noteq> data_path b n" "hint_path b m \<noteq> merge_path b n"
  "data_path b n \<noteq> hint_path b m" "merge_path b n \<noteq> hint_path b m"
proof -
  have "last (hint_path b m) = CHR ''t''" "last (data_path b n) = CHR ''a''"
    "last (merge_path b n) = CHR ''a''"
    by (simp_all add: hint_path_def data_path_def merge_path_def)
  then show "hint_path b m \<noteq> data_path b n" "hint_path b m \<noteq> merge_path b n"
    "data_path b n \<noteq> hint_path b m" "merge_path b n \<noteq> hint_path b m"
    by force+
qed

text \<open>The names depend on the base path only.\<close>

lemma path_upd [simp]:
  "data_path (b\<lparr>filePtrs := x_filePtrs\<rparr>) = data_path b"
  "data_path (b\<lparr>keyDir := x_keyDir\<rparr>) = data_path b"
  "data_path (b\<lparr>currOffset := x_currOffset\<rparr>) = data_path b"
  "data_path (b\<lparr>fileCnt := x_fileCnt\<rparr>) = data_path b"
  "data_path (b\<lparr>mergeFileCnt := x_mergeFileCnt\<rparr>) = data_path b"
  "data_path (b\<lparr>mergeFileOffset := x_mergeFileOffset\<rparr>) = data_path b"
  "data_path (b\<lparr>mergeHintFileOffset := x_mergeHintFileOffset\<rparr>) = data_path b"
  "merge_path (b\<lparr>filePtrs := x_filePtrs\<rparr>) = merge_path b"
  "merge_path (b\<lparr>keyDir := x_keyDir\<rparr>) = merge_path b"
  "merge_path (b\<lparr>currOffset := x_currOffset\<rparr>) = merge_path b"
  "merge_path (b\<lparr>fileCnt := x_fileCnt\<rparr>) = merge_path b"
  "merge_path (b\<lparr>mergeFileCnt := x_mergeFileCnt\<rparr>) = merge_path b"
  "merge_path (b\<lparr>mergeFileOffset := x_mergeFileOffset\<rparr>) = merge_path b"
  "merge_path (b\<lparr>mergeHintFileOffset := x_mergeHintFileOffset\<rparr>) = merge_path b"
  "hint_path (b\<lparr>filePtrs := x_filePtrs\<rparr>) = hint_path b"
  "hint_path (b\<lparr>keyDir := x_keyDir\<rparr>) = hint_path b"
  "hint_path (b\<lparr>currOffset := x_currOffset\<rparr>) = hint_path b"
  "hint_path (b\<lparr>fileCnt := x_fileCnt\<rparr>) = hint_path b"
  "hint_path (b\<lparr>mergeFileCnt := x_mergeFileCnt\<rparr>) = hint_path b"
  "hint_path (b\<lparr>mergeFileOffset := x_mergeFileOffset\<rparr>) = hint_path b"
  "hint_path (b\<lparr>mergeHintFileOffset := x_mergeHintFileOffset\<rparr>) = hint_path b"
  by (simp_all add: data_path_def merge_path_def hint_path_def fun_eq_iff)

section \<open>Abstraction and invariant\<close>

text \<open>
  The map the engine stores: the bytes that the key directory points at, in the file
  they are in.
\<close>

definition cask_map :: "BitCask \<Rightarrow> os \<Rightarrow> bytes \<Rightarrow> bytes option" where
  "cask_map b w k = (case keyDir b k of
     None \<Rightarrow> None
   | Some e \<Rightarrow> Some (chunk (fileEntryOffset e + headerSize + length k) (unat (valueSize e))
                     (content w (filePath e))))"

text \<open>Every open file is a numbered data file or a numbered merge file.\<close>

definition open_ok :: "BitCask \<Rightarrow> bool" where
  "open_ok b \<longleftrightarrow> (\<forall>p \<in> set (filePtrs b).
     (\<exists>n \<le> fileCnt b. p = data_path b n) \<or> (\<exists>m \<le> mergeFileCnt b. p = merge_path b m))"

text \<open>
  \<open>L\<close> gives each file its log. A key directory entry denotes the record of its file's
  log that starts at its offset: a live record of that key with that value size.
\<close>

definition denotes :: "(string \<Rightarrow> entry list) \<Rightarrow> bytes \<Rightarrow> KeyDirEntry \<Rightarrow> entry \<Rightarrow> bool" where
  "denotes L k e r \<longleftrightarrow> at_log (L (filePath e)) (fileEntryOffset e) r \<and> e_key r = k \<and>
     e_flag r = 0 \<and> valueSize e = of_nat (length (e_val r))"

definition cask_log :: "BitCask \<Rightarrow> os \<Rightarrow> (string \<Rightarrow> entry list) \<Rightarrow> bool" where
  "cask_log b w L \<longleftrightarrow> open_ok b \<and>
     (\<forall>p \<in> set (filePtrs b). has_log (content w p) (L p)) \<and>
     (active_path b \<in> set (filePtrs b) \<longrightarrow> length (enc_all (L (active_path b))) = currOffset b) \<and>
     (filePtrs b = [] \<longrightarrow> currOffset b = 0) \<and>
     (\<forall>k e. keyDir b k = Some e \<longrightarrow> filePath e \<in> set (filePtrs b) \<and> (\<exists>r. denotes L k e r))"

definition cask_inv :: "BitCask \<Rightarrow> os \<Rightarrow> bool" where
  "cask_inv b w \<longleftrightarrow> (\<exists>L. cask_log b w L)"

lemma cask_logD:
  assumes "cask_log b w L"
  shows "open_ok b" and "p \<in> set (filePtrs b) \<Longrightarrow> has_log (content w p) (L p)"
    and "active_path b \<in> set (filePtrs b) \<Longrightarrow> length (enc_all (L (active_path b))) = currOffset b"
    and "filePtrs b = [] \<Longrightarrow> currOffset b = 0"
    and "keyDir b k = Some e \<Longrightarrow> filePath e \<in> set (filePtrs b)"
    and "keyDir b k = Some e \<Longrightarrow> \<exists>r. denotes L k e r"
  using assms by (auto simp: cask_log_def)

lemma cask_logI:
  assumes "open_ok b" and "\<And>p. p \<in> set (filePtrs b) \<Longrightarrow> has_log (content w p) (L p)"
    and "active_path b \<in> set (filePtrs b) \<Longrightarrow> length (enc_all (L (active_path b))) = currOffset b"
    and "filePtrs b = [] \<Longrightarrow> currOffset b = 0"
    and "\<And>k e. keyDir b k = Some e \<Longrightarrow> filePath e \<in> set (filePtrs b)"
    and "\<And>k e. keyDir b k = Some e \<Longrightarrow> \<exists>r. denotes L k e r"
  shows "cask_log b w L"
  using assms by (simp add: cask_log_def)

text \<open>What the key directory points at, as bytes of the file.\<close>

lemma denotes_bytes:
  assumes log: "cask_log b w L" and e: "keyDir b k = Some e" and r: "denotes L k e r"
  shows "fileEntryOffset e + e_size r \<le> length (content w (filePath e))"
    and "chunk (fileEntryOffset e) (e_size r) (content w (filePath e)) = enc r"
    and "small r"
  using has_log_at [OF cask_logD(2) [OF log cask_logD(5) [OF log e]]] r
  by (auto simp: denotes_def)

lemma cask_map_denotes:
  assumes log: "cask_log b w L" and e: "keyDir b k = Some e" and r: "denotes L k e r"
  shows "cask_map b w k = Some (e_val r)"
proof -
  note bytes = denotes_bytes [OF assms]
  have key: "e_key r = k" and vs: "unat (valueSize e) = length (e_val r)"
    using r small_sizes(2) [OF bytes(3)] by (auto simp: denotes_def)
  have "chunk (fileEntryOffset e + (headerSize + length k)) (length (e_val r))
          (content w (filePath e)) = chunk (headerSize + length k) (length (e_val r)) (enc r)"
    using chunk_chunk [of "headerSize + length k" "length (e_val r)" "e_size r"
        "fileEntryOffset e" "content w (filePath e)"] key bytes(2)
    by (simp add: e_size_def)
  also have "\<dots> = e_val r"
    using value_of_encode [of k "e_ts r" "e_val r" "e_flag r"] key
    by (simp add: chunk_def enc_def)
  finally show ?thesis
    by (simp add: cask_map_def e vs add.assoc)
qed

text \<open>Two states agree on a key when they index it alike and denote the same record.\<close>

lemma cask_map_eqI:
  assumes "cask_log b w L" and "cask_log b' w' L'" and "keyDir b' k = keyDir b k"
    and "\<And>e r. keyDir b k = Some e \<Longrightarrow> denotes L k e r \<Longrightarrow> denotes L' k e r"
  shows "cask_map b' w' k = cask_map b w k"
proof (cases "keyDir b k")
  case None
  with assms(3) show ?thesis by (simp add: cask_map_def)
next
  case (Some e)
  then obtain r where r: "denotes L k e r"
    using cask_logD(6) [OF assms(1)] by blast
  from Some assms(3) have e': "keyDir b' k = Some e" by simp
  show ?thesis
    using cask_map_denotes [OF assms(1) Some r] cask_map_denotes [OF assms(2) e' assms(4) [OF Some r]]
    by simp
qed

lemma denotes_prefix:
  "denotes L k e r \<Longrightarrow> prefix (L (filePath e)) (L' (filePath e)) \<Longrightarrow> denotes L' k e r"
  by (auto simp: denotes_def prefix_def at_log_append)

lemma denotes_snoc: "denotes L k e r \<Longrightarrow> denotes (L(p := L p @ es)) k e r"
  by (erule denotes_prefix) auto

lemma has_log_write:
  assumes "has_log c es"
  shows "has_log (write_at c (length (enc_all es)) d) es"
    and "small e \<Longrightarrow> has_log (write_at c (length (enc_all es)) (enc e)) (es @ [e])"
  using assms by (auto simp: has_log_def prefix_def write_at_def)

lemma has_log_Nil [simp]: "has_log c []"
  by (simp add: has_log_def)

lemma New_sel [simp]:
  "filePtrs New = []" "fileCnt New = 1" "mergeFileCnt New = 1" "currOffset New = 0" "keyDir New = Map.empty"
  by (simp_all add: New_def)

lemma New_inv: "cask_log New w (\<lambda>_. [])"
  by (simp add: cask_log_def open_ok_def)

lemma cask_map_New [simp]: "cask_map New w = Map.empty"
  by (simp add: cask_map_def fun_eq_iff)

section \<open>Get\<close>

text \<open>What a map with no faults in sight answers.\<close>

definition get_spec :: "(bytes \<Rightarrow> bytes option) \<Rightarrow> bytes \<Rightarrow> bytes result" where
  "get_spec m k = (case m k of None \<Rightarrow> Inl (ErrMsg ''Key not found'') | Some v \<Rightarrow> Inr v)"

text \<open>
  A read of the engine's own record passes every check of \<open>Get\<close>: the result is the
  stored value, or the error of a failed system call.
\<close>

lemma Get_result:
  assumes log: "cask_log b w L"
  shows "(fst (Get k b w) = Inl EIO \<and> faults w \<noteq> []) \<or> fst (Get k b w) = get_spec (cask_map b w) k"
proof (cases "keyDir b k")
  case None
  then show ?thesis by (simp add: Get_def cask_map_def get_spec_def)
next
  case (Some e)
  then obtain r where r: "denotes L k e r"
    using cask_logD(6) [OF log] by blast
  note bytes = denotes_bytes [OF log Some r] and fields = enc_fields [OF denotes_bytes(3) [OF log Some r]]
  have key: "e_key r = k" and flag: "e_flag r = 0" using r by (auto simp: denotes_def)
  have ptr: "filePtr b (filePath e) = Some (filePath e)"
    using cask_logD(5) [OF log Some] by (simp add: filePtr_def)
  have hdr: "chunk (fileEntryOffset e) headerSize (content w (filePath e)) = take headerSize (enc r)"
    using take_chunk [OF e_size_pos(1)] bytes(2) by metis
  have size: "headerSize + length k + length (e_val r) = e_size r" by (simp add: e_size_def key)
  show ?thesis
    using bytes(1) e_size_pos(1) [of r] e_size_pos(2) next_fault_Nil [of w]
      cask_map_denotes [OF log Some r] fields
    by (auto simp: Get_def Some ptr ReadAt_def hdr key flag size bytes(2) get_spec_def
        Let_def split: prod.splits option.splits)
qed

lemma Get_fs: "fs (snd (Get k b w)) = fs w"
  by (auto simp: Get_def Let_def split: option.splits prod.splits sum.splits dest!: frameD)

section \<open>Put and Delete\<close>

lemma cask_log_content:
  "cask_log b w L \<Longrightarrow> content w' = content w \<Longrightarrow> cask_log b w' L"
  by (simp add: cask_log_def)

lemma cask_log_agree:
  "cask_log b w L \<Longrightarrow> (\<And>p. p \<in> set (filePtrs b) \<Longrightarrow> content w' p = content w p) \<Longrightarrow> cask_log b w' L"
  by (simp add: cask_log_def)

lemma cask_map_cong:
  "keyDir b' = keyDir b \<Longrightarrow> content w' = content w \<Longrightarrow> cask_map b' w' = cask_map b w"
  by (rule ext) (simp add: cask_map_def split: option.split)

text \<open>A path that is not open is not indexed, so its log is free to choose.\<close>

lemma cask_log_fresh:
  assumes "cask_log b w L" and "p \<notin> set (filePtrs b)"
  shows "cask_log b w (L(p := es))"
proof -
  have "filePath e \<noteq> p" if "keyDir b k = Some e" for k e
    using cask_logD(5) [OF assms(1) that] assms(2) by auto
  then have "\<exists>r. denotes (L(p := es)) k e r" if "keyDir b k = Some e" for k e
    using cask_logD(6) [OF assms(1) that] that by (auto simp: denotes_def)
  with assms show ?thesis by (auto simp: cask_log_def)
qed

text \<open>Opening an empty log under a permitted name.\<close>

lemma cask_log_open:
  assumes log: "cask_log b w L" and new: "p \<notin> set (filePtrs b)"
    and b': "b' = b\<lparr>filePtrs := List.insert p (filePtrs b), currOffset := off\<rparr>"
    and act: "p = active_path b \<and> off = 0 \<or> p \<noteq> active_path b \<and> off = currOffset b"
    and ok: "(\<exists>n \<le> fileCnt b. p = data_path b n) \<or> (\<exists>m \<le> mergeFileCnt b. p = merge_path b m)"
    and es: "has_log (content w p) es" "p = active_path b \<longrightarrow> es = []"
  shows "cask_log b' w (L(p := es))"
proof -
  note fresh = cask_logD [OF cask_log_fresh [OF log new, of es]]
  show ?thesis
  proof (rule cask_logI)
    show "open_ok b'"
      using fresh(1) ok by (auto simp: b' open_ok_def)
    show "has_log (content w q) ((L(p := es)) q)" if "q \<in> set (filePtrs b')" for q
      using fresh(2) [of q] es(1) that by (auto simp: b' split: if_splits)
    show "length (enc_all ((L(p := es)) (active_path b'))) = currOffset b'"
      if "active_path b' \<in> set (filePtrs b')"
      using fresh(3) act es(2) that by (auto simp: b')
  qed (use fresh(5,6) in \<open>auto simp: b'\<close>)
qed

text \<open>
  A write at the end of a file's log: a whole record extends the log, and whatever part
  of a record a failed write leaves there keeps it.
\<close>

lemma cask_log_extend:
  assumes log: "cask_log b w L" and p: "p \<in> set (filePtrs b)" and r: "small r"
    and w': "content w' = (content w)(p := write_at (content w p) (length (enc_all (L p))) (enc r))"
    and b': "b' = b\<lparr>currOffset := (if p = active_path b then currOffset b + e_size r else currOffset b)\<rparr>"
  shows "cask_log b' w' (L(p := L p @ [r]))"
proof (rule cask_logI)
  note old = cask_logD [OF log]
  show "has_log (content w' q) ((L(p := L p @ [r])) q)" if "q \<in> set (filePtrs b')" for q
    using old(2) [of q] has_log_write(2) [OF old(2) [OF p] r] that by (simp add: w' b')
  show "length (enc_all ((L(p := L p @ [r])) (active_path b'))) = currOffset b'"
    if "active_path b' \<in> set (filePtrs b')"
    using old(3) that by (simp add: b')
  show "\<exists>x. denotes (L(p := L p @ [r])) k e x" if "keyDir b' k = Some e" for k e
    using old(6) [of k e] that by (auto simp: b' dest: denotes_snoc)
qed (use cask_logD [OF log] p in \<open>auto simp: b' open_ok_def\<close>)

lemma cask_log_torn:
  assumes log: "cask_log b w L" and p: "p \<in> set (filePtrs b)"
    and w': "fst (WriteAt (Some p) d (length (enc_all (L p))) w) = (n, err)"
            "snd (WriteAt (Some p) d (length (enc_all (L p))) w) = w'"
  shows "cask_log b w' L" and "cask_map b w' = cask_map b w"
proof -
  note old = cask_logD [OF log]
  have "has_log (content w' q) (L q)" if "q \<in> set (filePtrs b)" for q
  proof (cases "q = p")
    case True
    then show ?thesis
      using has_log_write(1) [OF old(2) [OF p]] old(2) [OF p] w'(2)
      by (auto simp: WriteAt_def split: prod.splits option.splits)
  next
    case False
    then show ?thesis using old(2) [OF that] w'(2) by (metis WriteAt_other option.inject)
  qed
  then show new: "cask_log b w' L"
    using old by (intro cask_logI) auto
  show "cask_map b w' = cask_map b w"
    by (rule ext) (rule cask_map_eqI [OF log new], simp_all)
qed

lemma cask_log_index:
  assumes "cask_log b w L" and "filePath e \<in> set (filePtrs b)" and "denotes L k e r"
  shows "cask_log (b\<lparr>keyDir := (keyDir b)(k \<mapsto> e)\<rparr>) w L"
  using assms by (auto simp: cask_log_def open_ok_def)

lemma cask_log_unindex: "cask_log b w L \<Longrightarrow> cask_log (b\<lparr>keyDir := (keyDir b)(k := None)\<rparr>) w L"
  by (auto simp: cask_log_def open_ok_def)

lemma cask_map_index:
  assumes "cask_log b w L" and "filePath e \<in> set (filePtrs b)" and "denotes L k e r"
  shows "cask_map (b\<lparr>keyDir := (keyDir b)(k \<mapsto> e)\<rparr>) w = (cask_map b w)(k \<mapsto> e_val r)"
  using cask_map_denotes [OF cask_log_index [OF assms], of k e r] assms(3)
  by (auto simp: fun_eq_iff) (simp add: cask_map_def)

subsection \<open>The parts of put\<close>

text \<open>The logs of the open files grow at the end, and only the active file's log grows.\<close>

definition log_ext :: "BitCask \<Rightarrow> (string \<Rightarrow> entry list) \<Rightarrow> (string \<Rightarrow> entry list) \<Rightarrow> bool" where
  "log_ext b L L' \<longleftrightarrow> (\<forall>p \<in> set (filePtrs b). prefix (L p) (L' p) \<and> (p \<noteq> active_path b \<longrightarrow> L' p = L p))"

lemma log_ext_refl [simp]: "log_ext b L L"
  by (simp add: log_ext_def)

lemma log_ext_fresh: "p \<notin> set (filePtrs b) \<Longrightarrow> log_ext b L (L(p := es))"
  by (auto simp: log_ext_def)

lemma log_ext_trans:
  assumes "log_ext b L L1" and "log_ext b1 L1 L2"
    and "set (filePtrs b) \<subseteq> set (filePtrs b1)"
    and "active_path b1 = active_path b \<or> active_path b1 \<notin> set (filePtrs b)"
  shows "log_ext b L L2"
  using assms unfolding log_ext_def by (metis prefix_order.trans subsetD)

lemma open_ok_fresh: "open_ok b \<Longrightarrow> data_path b (Suc (fileCnt b)) \<notin> set (filePtrs b)"
  by (fastforce simp: open_ok_def)

lemma put_open_log:
  assumes log: "cask_log b w L" and run: "put_open b w = (err, b1, w1)"
  shows "\<exists>L1. cask_log b1 w1 L1 \<and> cask_map b1 w1 = cask_map b w \<and> log_ext b L L1"
proof (cases "filePtrs b = [] \<and> err = None")
  case True
  then have b1: "b1 = b\<lparr>filePtrs := List.insert (active_path b) (filePtrs b), currOffset := 0\<rparr>"
    and w1: "content w1 = content w"
    using run cask_logD(4) [OF log]
    by (auto simp: put_open_def split: prod.splits sum.splits dest: OpenFile_contentD)
  have "cask_log b1 w (L(active_path b := []))"
    by (rule cask_log_open [OF log _ b1]) (use True in auto)
  moreover have "cask_map b1 w1 = cask_map b w"
    by (rule cask_map_cong) (simp_all add: w1 b1)
  moreover have "log_ext b L (L(active_path b := []))"
    using True by (simp add: log_ext_def)
  ultimately show ?thesis using w1 cask_log_content by blast
next
  case False
  then have "b1 = b" and "content w1 = content w"
    using run by (auto simp: put_open_def split: prod.splits sum.splits if_splits dest: OpenFile_contentD)
  then show ?thesis
    using log cask_log_content cask_map_cong log_ext_refl by blast
qed

lemma put_rotate_log:
  assumes log: "cask_log b w L" and run: "put_rotate b w = (err, b', w')"
  shows "\<exists>L'. cask_log b' w' L' \<and> cask_map b' w' = cask_map b w \<and> log_ext b L L'"
proof (cases "currOffset b \<ge> maxFileSizeBytes b")
  case False
  with run log show ?thesis by (auto simp: put_rotate_def)
next
  case True
  let ?b1 = "b\<lparr>fileCnt := fileCnt b + 1\<rparr>"
  note old = cask_logD [OF log]
  have fresh: "active_path ?b1 \<notin> set (filePtrs ?b1)"
    using open_ok_fresh [OF old(1)] by simp
  have log1: "cask_log ?b1 w L"
    using old fresh by (intro cask_logI) (auto simp: open_ok_def le_Suc_eq)
  have w': "content w' = content w"
    using run True by (auto simp: put_rotate_def Let_def split: prod.splits sum.splits dest: OpenFile_contentD)
  have map: "cask_map b' w' = cask_map b w"
    by (rule cask_map_cong [OF _ w'])
       (use run True in \<open>auto simp: put_rotate_def Let_def split: prod.splits sum.splits\<close>)
  have "\<exists>L'. cask_log b' w L' \<and> log_ext b L L'"
  proof (cases err)
    case None
    then have b': "b' = ?b1\<lparr>filePtrs := List.insert (active_path ?b1) (filePtrs ?b1), currOffset := 0\<rparr>"
      using run True by (auto simp: put_rotate_def Let_def split: prod.splits sum.splits)
    have "cask_log b' w (L(active_path ?b1 := []))"
      by (rule cask_log_open [OF log1 fresh b', where es = "[]"]) auto
    moreover have "log_ext b L (L(active_path ?b1 := []))"
      using fresh by (intro log_ext_fresh) simp
    ultimately show ?thesis by blast
  next
    case (Some x)
    with run True log1 show ?thesis by (auto simp: put_rotate_def Let_def split: prod.splits sum.splits)
  qed
  with w' map show ?thesis using cask_log_content by blast
qed

subsection \<open>The whole operation\<close>

definition upd_spec :: "bytes \<Rightarrow> bytes \<Rightarrow> byte \<Rightarrow> (bytes \<Rightarrow> bytes option) \<Rightarrow> bytes \<Rightarrow> bytes option" where
  "upd_spec k v fl m = m(k := (if fl = 0 then Some v else None))"

text \<open>A written record is indexed, or its key is removed from the index.\<close>

lemma put_index_log:
  assumes log: "cask_log b w L" and act: "active_path b \<in> set (filePtrs b)"
    and small: "small \<lparr>e_ts = now, e_key = k, e_val = v, e_flag = fl\<rparr>" (is "small ?r")
    and w': "content w' = (content w)(active_path b :=
               write_at (content w (active_path b)) (currOffset b) (encode_entry now k v fl))"
  shows "\<exists>L'. cask_log (put_index k v fl b) w' L' \<and>
              cask_map (put_index k v fl b) w' = upd_spec k v fl (cask_map b w) \<and> log_ext b L L'"
proof -
  let ?p = "active_path b" and ?b1 = "b\<lparr>currOffset := currOffset b + e_size ?r\<rparr>"
  let ?L1 = "L(?p := L ?p @ [?r])"
  let ?e = "\<lparr>filePath = ?p, fileEntryOffset = currOffset b, valueSize = of_nat (length v)\<rparr>"
  have off: "currOffset b = length (enc_all (L ?p))"
    using cask_logD(3) [OF log act] by simp
  have w1: "content w' = (content w)(?p := write_at (content w ?p) (length (enc_all (L ?p))) (enc ?r))"
    using w' off by (simp add: enc_def)
  have log1: "cask_log ?b1 w' ?L1"
    by (rule cask_log_extend [OF log act small w1]) simp
  have grow: "log_ext b L ?L1" by (simp add: log_ext_def)
  have map1: "cask_map ?b1 w' = cask_map b w"
    by (rule ext, rule cask_map_eqI [OF log log1]) (auto intro: denotes_snoc)
  show ?thesis
  proof (cases "fl = 0")
    case True
    then have den: "denotes ?L1 k ?e ?r"
      using at_log_last [of "L ?p" ?r] off by (simp add: denotes_def)
    have "put_index k v fl b = ?b1\<lparr>keyDir := (keyDir ?b1)(k \<mapsto> ?e)\<rparr>"
      using True by (simp add: put_index_def e_size_def)
    then show ?thesis
      using cask_log_index [OF log1 _ den] cask_map_index [OF log1 _ den] act map1 grow True
      by (auto simp: upd_spec_def)
  next
    case False
    then have b': "put_index k v fl b = ?b1\<lparr>keyDir := (keyDir ?b1)(k := None)\<rparr>"
      by (simp add: put_index_def e_size_def)
    have "cask_map (put_index k v fl b) w' = upd_spec k v fl (cask_map ?b1 w')"
      using False by (rule_tac ext) (simp add: b' upd_spec_def cask_map_def)
    then show ?thesis
      using cask_log_unindex [OF log1, of k] grow by (auto simp: map1 b')
  qed
qed

lemma put_write_log:
  assumes log: "cask_log b w L"
    and small: "small \<lparr>e_ts = now, e_key = k, e_val = v, e_flag = fl\<rparr>"
    and act: "active_path b \<in> set (filePtrs b)"
    and wr: "WriteAt (Some (active_path b)) (encode_entry now k v fl) (currOffset b) w = ((n, None), w2)"
    and run: "put_rotate (put_index k v fl b) w2 = (err, b', w')"
  shows "\<exists>L'. cask_log b' w' L' \<and> cask_map b' w' = upd_spec k v fl (cask_map b w) \<and> log_ext b L L'"
proof -
  have "content w2 = (content w)(active_path b :=
      write_at (content w (active_path b)) (currOffset b) (encode_entry now k v fl))"
    using WriteAt_okD [OF wr] by (auto simp: content_def fun_eq_iff)
  from put_index_log [OF log act small this] obtain L2 where
    log2: "cask_log (put_index k v fl b) w2 L2" and
    map2: "cask_map (put_index k v fl b) w2 = upd_spec k v fl (cask_map b w)" and
    ext2: "log_ext b L L2" by blast
  from put_rotate_log [OF log2 run] map2 obtain L' where
    "cask_log b' w' L'" "cask_map b' w' = upd_spec k v fl (cask_map b w)"
    "log_ext (put_index k v fl b) L2 L'" by auto
  moreover from this(3) have "log_ext b L L'"
    by (rule log_ext_trans [OF ext2]) (simp_all add: put_index_def Let_def)
  ultimately show ?thesis by blast
qed

lemma put_log:
  assumes log: "cask_log b w L"
    and small: "small \<lparr>e_ts = now, e_key = k, e_val = v, e_flag = fl\<rparr>"
    and run: "put now k v fl b w = (err, b', w')"
  shows "\<exists>L'. cask_log b' w' L' \<and> log_ext b L L' \<and>
     (cask_map b' w' = upd_spec k v fl (cask_map b w) \<or>
      err \<noteq> None \<and> cask_map b' w' = cask_map b w)"
proof -
  obtain err1 b1 w1 where o: "put_open b w = (err1, b1, w1)" by (cases "put_open b w")
  obtain L1 where log1: "cask_log b1 w1 L1" and map1: "cask_map b1 w1 = cask_map b w"
    and ext1: "log_ext b L L1"
    using put_open_log [OF log o] by blast
  let ?p = "active_path b1" and ?buf = "encode_entry now k v fl"
  have b1: "set (filePtrs b) \<subseteq> set (filePtrs b1)" "active_path b1 = active_path b"
    using o by (auto simp: put_open_def split: if_splits prod.splits sum.splits)
  obtain n err2 w2 where wr: "WriteAt (filePtr b1 ?p) ?buf (currOffset b1) w1 = ((n, err2), w2)"
    by (metis surj_pair)
  consider (unwritten) "err1 \<noteq> None \<or> ?p \<notin> set (filePtrs b1)"
    | (failed) e where "err1 = None" "?p \<in> set (filePtrs b1)" "err2 = Some e"
    | (written) "err1 = None" "?p \<in> set (filePtrs b1)" "err2 = None"
    by (cases err2) blast+
  then show ?thesis
  proof cases
    case unwritten
    then have "b' = b1" "w' = w1" "err \<noteq> None"
      using run o by (auto simp: put_def Let_def filePtr_def WriteAt_def split: option.splits)
    then show ?thesis using log1 map1 ext1 by auto
  next
    case failed
    then have b': "b' = b1" "w' = w2" "err = Some e"
      using run o wr by (auto simp: put_def Let_def)
    have "currOffset b1 = length (enc_all (L1 ?p))"
      using cask_logD(3) [OF log1] failed by simp
    then show ?thesis
      using cask_log_torn [OF log1, of ?p ?buf n err2 w2] failed wr map1 b' ext1
      by (auto simp: filePtr_def)
  next
    case written
    then have wr': "WriteAt (Some ?p) ?buf (currOffset b1) w1 = ((n, None), w2)"
      using wr by (simp add: filePtr_def)
    then have "put_rotate (put_index k v fl b1) w2 = (err, b', w')"
      using run o wr written WriteAt_okD [OF wr'] by (simp add: put_def Let_def)
    from put_write_log [OF log1 small written(2) wr' this] obtain L' where
      "cask_log b' w' L'" "cask_map b' w' = upd_spec k v fl (cask_map b w)" "log_ext b1 L1 L'"
      using map1 by auto
    with log_ext_trans [OF ext1 this(3) b1(1)] b1(2) show ?thesis by blast
  qed
qed

text \<open>What a put leaves alone: the base path, the merge files, the files that are open.\<close>

definition put_frame :: "BitCask \<Rightarrow> os \<Rightarrow> BitCask \<Rightarrow> os \<Rightarrow> bool" where
  "put_frame b w b' w' \<longleftrightarrow>
     fileBasePath b' = fileBasePath b \<and> mergeFileCnt b' = mergeFileCnt b \<and>
     set (filePtrs b) \<subseteq> set (filePtrs b') \<and>
     (\<forall>n. merge_path b n \<in> set (filePtrs b') \<longrightarrow> merge_path b n \<in> set (filePtrs b)) \<and>
     (active_path b' = active_path b \<or> active_path b' \<notin> set (filePtrs b)) \<and>
     (\<forall>n. content w' (merge_path b n) = content w (merge_path b n)) \<and>
     (\<forall>k e. keyDir b' k = Some e \<longrightarrow> keyDir b k = Some e \<or> filePath e = active_path b)"

lemma put_frame_trans:
  assumes "put_frame b w b1 w1" and "put_frame b1 w1 b2 w2" and "active_path b1 = active_path b"
  shows "put_frame b w b2 w2"
proof -
  have "merge_path b1 = merge_path b"
    using assms(1) by (simp add: put_frame_def merge_path_def fun_eq_iff)
  with assms show ?thesis unfolding put_frame_def by (metis (no_types, lifting) subset_iff)
qed

lemma put_open_frame:
  "put_open b w = (err, b', w') \<Longrightarrow> put_frame b w b' w' \<and> active_path b' = active_path b"
  by (auto simp: put_open_def put_frame_def split: if_splits prod.splits sum.splits dest: OpenFile_contentD)

lemma put_rotate_frame:
  "open_ok b \<Longrightarrow> put_rotate b w = (err, b', w') \<Longrightarrow> put_frame b w b' w'"
  using open_ok_fresh [of b]
  by (auto simp: put_rotate_def put_frame_def Let_def split: if_splits prod.splits sum.splits dest: OpenFile_contentD)

lemma put_index_frame:
  assumes "WriteAt (filePtr b (active_path b)) d off w = (r, w')"
  shows "put_frame b w (put_index k v fl b) w'" and "put_frame b w b w'"
    and "active_path (put_index k v fl b) = active_path b"
    and "open_ok b \<Longrightarrow> open_ok (put_index k v fl b)"
proof -
  have "content w' (merge_path b n) = content w (merge_path b n)" for n
    by (rule WriteAt_otherD [OF assms]) (simp add: filePtr_def)
  then show "put_frame b w (put_index k v fl b) w'" and "put_frame b w b w'"
    by (auto simp: put_index_def put_frame_def Let_def split: if_splits)
qed (auto simp: put_index_def open_ok_def Let_def)

lemma put_frame:
  assumes "open_ok b" and run: "put now k v fl b w = (err, b', w')"
  shows "put_frame b w b' w'"
proof -
  obtain e1 b1 w1 where o: "put_open b w = (e1, b1, w1)" by (cases "put_open b w")
  obtain r w2 where wr: "WriteAt (filePtr b1 (active_path b1)) (encode_entry now k v fl) (currOffset b1) w1 = (r, w2)"
    by (metis surj_pair)
  note f1 = put_open_frame [OF o] and f2 = put_index_frame [OF wr]
  have ok: "open_ok b1"
    using assms(1) o by (auto simp: put_open_def open_ok_def split: if_splits prod.splits sum.splits)
  consider "b' = b1 \<and> w' = w1" | "b' = b1 \<and> w' = w2" | "put_rotate (put_index k v fl b1) w2 = (err, b', w')"
    using run o wr by (auto simp: put_def Let_def split: if_splits prod.splits option.splits)
  then show ?thesis
  proof cases
    case 1
    with f1 show ?thesis by simp
  next
    case 2
    with put_frame_trans [OF conjunct1 [OF f1] f2(2) conjunct2 [OF f1]] show ?thesis by simp
  next
    case 3
    have "put_frame b w (put_index k v fl b1) w2"
      by (rule put_frame_trans [OF conjunct1 [OF f1] f2(1) conjunct2 [OF f1]])
    then show ?thesis
      by (rule put_frame_trans [OF _ put_rotate_frame [OF f2(4) [OF ok] 3]])
         (simp only: f2(3) conjunct2 [OF f1])
  qed
qed

subsection \<open>When put succeeds\<close>

text \<open>The file that the next record goes to is open, or no file was opened yet.\<close>

definition writable :: "BitCask \<Rightarrow> bool" where
  "writable b \<longleftrightarrow> filePtrs b = [] \<or> active_path b \<in> set (filePtrs b)"

lemma put_ok:
  assumes "faults w = []" and "writable b"
  shows "\<exists>b' w'. put now k v fl b w = (None, b', w') \<and> faults w' = [] \<and> writable b' \<and>
           fileBasePath b' = fileBasePath b"
proof -
  obtain b1 w1 where o: "put_open b w = (None, b1, w1)" "faults w1 = []"
      "active_path b1 \<in> set (filePtrs b1)" "fileBasePath b1 = fileBasePath b"
    using assms that [of b w] that [of "b\<lparr>filePtrs := [active_path b]\<rparr>"]
    by (cases "filePtrs b = []") (auto simp: put_open_def writable_def go_simps)
  then show ?thesis
    by (auto simp: put_def filePtr_def Let_def put_rotate_def put_index_def writable_def go_simps)
qed

text \<open>
  Once some file is open but the active one is not, every put fails and changes nothing:
  the write goes to a nil handle, and only an engine with no open file opens one.
\<close>

lemma put_stuck:
  assumes "filePtrs b \<noteq> []" and "active_path b \<notin> set (filePtrs b)"
  shows "put now k v fl b w = (Some ErrInvalid, b, w)"
  using assms by (simp add: put_def put_open_def filePtr_def WriteAt_def Let_def)

section \<open>The engine as a key-value store\<close>

definition cask_ok :: "BitCask \<times> os \<Rightarrow> bool" where
  "cask_ok s \<longleftrightarrow> (case s of (b, w) \<Rightarrow> cask_inv b w \<and> writable b \<and> faults w = [])"

definition cask_get :: "bytes \<Rightarrow> BitCask \<times> os \<Rightarrow> bytes option" where
  "cask_get k s = (case s of (b, w) \<Rightarrow> (case fst (Get k b w) of Inl _ \<Rightarrow> None | Inr v \<Rightarrow> Some v))"

definition cask_put :: "uint32 \<Rightarrow> bytes \<Rightarrow> bytes \<Rightarrow> BitCask \<times> os \<Rightarrow> BitCask \<times> os" where
  "cask_put now k v s = (case s of (b, w) \<Rightarrow> snd (Put now k v b w))"

definition cask_del :: "uint32 \<Rightarrow> bytes \<Rightarrow> BitCask \<times> os \<Rightarrow> BitCask \<times> os" where
  "cask_del now k s = (case s of (b, w) \<Rightarrow> snd (Delete now k b w))"

definition fits :: "bytes \<Rightarrow> bytes \<Rightarrow> bool" where
  "fits k v \<longleftrightarrow> headerSize + length k + length v < 2 ^ 32"

lemma fits_small: "fits k v \<Longrightarrow> small \<lparr>e_ts = ts, e_key = k, e_val = v, e_flag = fl\<rparr>"
  by (simp add: fits_def small_def e_size_def)

lemma cask_ok_New: "faults w = [] \<Longrightarrow> cask_ok (New, w)"
  using New_inv by (auto simp: cask_ok_def cask_inv_def writable_def)

lemma put_cask_ok:
  assumes "cask_ok (b, w)" and "fits k v"
  shows "cask_ok (snd (put now k v fl b w))"
    and "case_prod cask_map (snd (put now k v fl b w)) = upd_spec k v fl (cask_map b w)"
proof -
  from assms(1) obtain L where L: "cask_log b w L" and ok: "faults w = []" "writable b"
    by (auto simp: cask_ok_def cask_inv_def)
  obtain b' w' where run: "put now k v fl b w = (None, b', w')" and ok': "faults w' = []" "writable b'"
    using put_ok [OF ok] by blast
  from put_log [OF L fits_small [OF assms(2)] run] run ok'
  show "cask_ok (snd (put now k v fl b w))"
    and "case_prod cask_map (snd (put now k v fl b w)) = upd_spec k v fl (cask_map b w)"
    by (auto simp: cask_ok_def cask_inv_def)
qed

interpretation cask: kv_store cask_ok "case_prod cask_map" cask_get cask_put cask_del fits "\<lambda>k. fits k []"
proof
  fix s :: "BitCask \<times> os" and a :: uint32 and k v :: bytes
  obtain b w where s: "s = (b, w)" by (cases s)
  assume ok: "cask_ok s"
  then obtain L where "cask_log b w L" and "faults w = []"
    by (auto simp: s cask_ok_def cask_inv_def)
  then show "cask_get k s = case_prod cask_map s k"
    using Get_result [of b w L k] by (auto simp: s cask_get_def get_spec_def split: option.splits)
  show "cask_ok (cask_put a k v s)" "case_prod cask_map (cask_put a k v s) = (case_prod cask_map s)(k \<mapsto> v)"
    if "fits k v"
    using put_cask_ok [of b w k v a 0] ok that
    by (simp_all add: s cask_put_def Put_def upd_spec_def)
  show "cask_ok (cask_del a k s)" "case_prod cask_map (cask_del a k s) = (case_prod cask_map s)(k := None)"
    if "fits k []"
    using put_cask_ok [of b w k "[]" a 1] ok that
    by (simp_all add: s cask_del_def Delete_def upd_spec_def)
qed

section \<open>The main function\<close>

text \<open>
  Ten thousand rounds of a \<open>Put\<close> and a \<open>Get\<close> of the same key, whose results the program drops; here
  they are collected. The clock is a parameter.
\<close>

definition sprint_bytes :: "nat \<Rightarrow> bytes" where
  "sprint_bytes i = map of_char (dec i)"

fun cask_rounds :: "(nat \<Rightarrow> uint32) \<Rightarrow> nat \<Rightarrow> nat \<Rightarrow> BitCask \<Rightarrow> os \<Rightarrow> (go_error option \<times> bytes result) list" where
  "cask_rounds now i 0 b w = []"
| "cask_rounds now i (Suc n) b w =
     (let str = sprint_bytes i;
          (err, b1, w1) = Put (now i) str str b w;
          (res, w2) = Get str b1 w1
      in (err, res) # cask_rounds now (Suc i) n b1 w2)"

definition bitcask_main :: "(nat \<Rightarrow> uint32) \<Rightarrow> os \<Rightarrow> (go_error option \<times> bytes result) list" where
  "bitcask_main now w = cask_rounds now 0 10000 New w"

lemma fits_sprint: "n < 10000 \<Longrightarrow> fits (sprint_bytes n) (sprint_bytes n)"
  using length_dec [of n 4] by (simp add: fits_def sprint_bytes_def headerSize_def)

text \<open>
  Under every script of I/O faults a round that could write and read gives back what it wrote; a
  round can only fail with an error of a system call.
\<close>

lemma cask_rounds_faulty:
  assumes "cask_inv b w" and "i + n \<le> 10000"
  shows "list_all2 (\<lambda>j (err, res). err \<noteq> None \<or> res = Inl EIO \<or> res = Inr (sprint_bytes j)) [i..<i + n] (cask_rounds now i n b w)"
  using assms
proof (induction n arbitrary: i b w)
  case (Suc n)
  let ?k = "sprint_bytes i"
  obtain err b1 w1 where put: "Put (now i) ?k ?k b w = (err, b1, w1)" by (cases "Put (now i) ?k ?k b w")
  obtain res w2 where get: "Get ?k b1 w1 = (res, w2)" by (cases "Get ?k b1 w1")
  obtain L where L: "cask_log b w L" using Suc.prems(1) by (auto simp: cask_inv_def)
  have small: "small \<lparr>e_ts = now i, e_key = ?k, e_val = ?k, e_flag = 0\<rparr>" using Suc.prems(2) by (intro fits_small fits_sprint) simp
  from put_log [OF L small put [unfolded Put_def]]
  have inv: "cask_inv b1 w1" and upd: "err = None \<Longrightarrow> cask_map b1 w1 = (cask_map b w)(?k \<mapsto> ?k)"
    unfolding cask_inv_def upd_spec_def by auto
  obtain L1 where L1: "cask_log b1 w1 L1" using inv by (auto simp: cask_inv_def)
  have "err \<noteq> None \<or> res = Inl EIO \<or> res = Inr ?k"
    using Get_result [OF L1, of ?k] upd get by (auto simp: get_spec_def)
  moreover have "content w2 = content w1" using Get_fs [of ?k b1 w1] get by (simp add: content_def fun_eq_iff)
  then have "cask_inv b1 w2" using cask_log_content [OF L1] unfolding cask_inv_def by blast
  moreover have "[i..<i + Suc n] = i # [Suc i..<Suc i + n]" by (simp add: upt_conv_Cons del: upt_Suc)
  ultimately show ?case using Suc.IH [of b1 w2 "Suc i"] Suc.prems(2) by (simp add: put get del: upt_Suc)
qed simp

lemma bitcask_main_rounds:
  "list_all2 (\<lambda>j (err, res). err \<noteq> None \<or> res = Inl EIO \<or> res = Inr (sprint_bytes j)) [0..<10000] (bitcask_main now w)"
proof -
  have "cask_inv New w" using New_inv unfolding cask_inv_def by blast
  from cask_rounds_faulty [OF this, of 0 10000 now] show ?thesis by (simp add: bitcask_main_def del: upt_Suc upt_rec_numeral)
qed

section \<open>Corruption\<close>

text \<open>
  One byte of a stored record is overwritten on disk, outside the two size fields: the
  checksum test of \<open>Get\<close> fails.
\<close>

lemma Get_detects_byte:
  assumes log: "cask_log b w L" and e: "keyDir b k = Some e" and r: "denotes L k e r"
    and j: "j < e_size r" "j < 8 \<or> 16 \<le> j" and x: "x \<noteq> enc r ! j"
    and w': "content w' (filePath e) = (content w (filePath e))[fileEntryOffset e + j := x]"
      "faults w' = []"
  shows "fst (Get k b w') = Inl (ErrMsg ''Corrupted entry found'')"
proof -
  note bytes = denotes_bytes [OF log e r]
  let ?c = "content w (filePath e)" and ?off = "fileEntryOffset e" and ?buf = "(enc r)[j := x]"
  have buf: "chunk ?off (e_size r) (?c[?off + j := x]) = ?buf"
    using bytes(2) by (auto simp: chunk_def drop_update_swap take_update_swap)
  have hdr: "chunk ?off headerSize (?c[?off + j := x]) = take headerSize ?buf"
    using take_chunk [OF e_size_pos(1)] buf by metis
  have sizes: "hdr_ksz (take headerSize ?buf) = hdr_ksz (take headerSize (enc r))"
    "hdr_vsz (take headerSize ?buf) = hdr_vsz (take headerSize (enc r))"
    using j by (auto simp: hdr_ksz_def hdr_vsz_def chunk_def headerSize_def drop_take
        drop_update_swap drop_update_cancel take_update_cancel)
  have ptr: "filePtr b (filePath e) = Some (filePath e)"
    using cask_logD(5) [OF log e] by (simp add: filePtr_def)
  have "unat (hdr_ksz (take headerSize ?buf)) = length (e_key r)"
    "unat (hdr_vsz (take headerSize ?buf)) = length (e_val r)"
    using sizes enc_fields [OF bytes(3)] by simp_all
  moreover have "headerSize + length (e_key r) + length (e_val r) = e_size r" by (simp add: e_size_def)
  ultimately show ?thesis
    using enc_crc_detects [OF bytes(3) j(1) x] bytes(1) e_size_pos(1) [of r] e_size_pos(2)
    by (simp add: Get_def e ptr w' go_simps hdr buf Let_def)
qed

section \<open>Properties\<close>

text \<open>
  C4. Without I/O faults, \<open>Get\<close> after any sequence of \<open>Put\<close> and \<open>Delete\<close> on a new
  engine returns the last value put under the key, and \<open>Key not found\<close> when the key was
  never put or was deleted last, whatever files the directory held before.
\<close>

theorem get_after_writes:
  assumes "faults w = []" and "list_all (kv_fits fits (\<lambda>k. fits k [])) ops"
  shows "cask_get k (kv_run cask_put cask_del ops (New, w)) = fold kv_spec ops Map.empty k"
  using cask.get_after_run [OF cask_ok_New [OF assms(1)] assms(2)] by simp

theorem get_after_writes_witness:
  "cask_get [1] (kv_run cask_put cask_del [KPut 0 [1] [5], KPut 3 [1] [6], KPut 4 [2] [], KDel 9 [2]] (New, empty_os)) =
     Some [6]"
  using get_after_writes [of empty_os "[KPut 0 [1] [5], KPut 3 [1] [6], KPut 4 [2] [], KDel 9 [2]]" "[1]"]
  by (simp add: fits_def headerSize_def)

text \<open>
  C5. A write is atomic under every script of I/O faults, torn writes included: it keeps
  the invariant of the engine, and the stored map is either updated at the key or, only
  if an error is returned, unchanged.
\<close>

theorem put_atomic:
  assumes "cask_inv b w" and "fits k v" and "put now k v flag b w = (err, b', w')"
  shows "cask_inv b' w' \<and>
    (cask_map b' w' = (cask_map b w)(k := (if flag = 0 then Some v else None)) \<or>
     err \<noteq> None \<and> cask_map b' w' = cask_map b w)"
proof -
  obtain L where "cask_log b w L" using assms(1) by (auto simp: cask_inv_def)
  from put_log [OF this fits_small [OF assms(2)] assms(3)] show ?thesis
    unfolding cask_inv_def upd_spec_def by blast
qed

theorem put_atomic_witness:
  "\<exists>err b w. put 7 [1] [2] 0 New (empty_os\<lparr>faults := [None, Some 3]\<rparr>) = (err, b, w) \<and> cask_inv b w \<and>
     err = Some EIO \<and> cask_map b w = Map.empty"
proof -
  let ?w = "empty_os\<lparr>faults := [None, Some 3]\<rparr>"
  obtain err b w where run: "put 7 [1] [2] 0 New ?w = (err, b, w)" by (cases "put 7 [1] [2] 0 New ?w")
  then have "err = Some EIO" "keyDir b = Map.empty"
    by (auto simp: put_def put_open_def OpenFile_def next_fault_def WriteAt_def filePtr_def Let_def)
  moreover have "cask_inv New ?w" using New_inv unfolding cask_inv_def by blast
  ultimately show ?thesis
    using put_atomic [OF _ _ run] run by (auto simp: fits_def headerSize_def cask_map_def fun_eq_iff)
qed

text \<open>
  C6. \<open>Get\<close> under every script of I/O faults returns the stored value of the key, or
  \<open>Key not found\<close> exactly when there is none, or the error of a failed system call; it
  never returns another value, a checksum error or a key mismatch on the engine's own
  records, and it changes no file.
\<close>

theorem get_correct:
  assumes "cask_inv b w"
  shows "(fst (Get k b w) = Inl EIO \<and> faults w \<noteq> [] \<or>
     fst (Get k b w) = (case cask_map b w k of None \<Rightarrow> Inl (ErrMsg ''Key not found'') | Some v \<Rightarrow> Inr v)) \<and>
     fs (snd (Get k b w)) = fs w"
  using assms Get_result [of b w _ k] Get_fs [of k b w] by (auto simp: cask_inv_def get_spec_def)

theorem get_correct_witness:
  "cask_inv New empty_os \<and> fst (Get [1] New empty_os) = Inl (ErrMsg ''Key not found'')"
proof -
  have inv: "cask_inv New empty_os" using New_inv unfolding cask_inv_def by blast
  with get_correct [OF inv, of "[1]"] show ?thesis by simp
qed

text \<open>
  C7. One byte of a stored record is overwritten on disk, anywhere but in the two size
  fields: \<open>Get\<close> of its key reports the corruption. The two size fields are excluded
  because \<open>Get\<close> reads as many bytes as they say.
\<close>

theorem get_detects_corruption:
  assumes "cask_log b w L" and "keyDir b k = Some e" and "denotes L k e r"
    and "j < e_size r" and "j < 8 \<or> 16 \<le> j" and "x \<noteq> enc r ! j"
    and "content w' (filePath e) = (content w (filePath e))[fileEntryOffset e + j := x]"
    and "faults w' = []"
  shows "fst (Get k b w') = Inl (ErrMsg ''Corrupted entry found'')"
  by (rule Get_detects_byte) (rule assms)+

theorem get_detects_corruption_witness:
  "\<exists>b w w'. Put 0 [1] [2] New empty_os = (None, b, w) \<and> fst (Get [1] b w) = Inr [2] \<and>
     (\<exists>p x. content w' p = (content w p)[0 := x]) \<and>
     fst (Get [1] b w') = Inl (ErrMsg ''Corrupted entry found'')"
proof -
  have small: "fits [1] [2]" by (simp add: fits_def headerSize_def)
  obtain b w where run: "Put 0 [1] [2] New empty_os = (None, b, w)" and f: "faults w = []"
    using put_ok [of empty_os New 0 "[1]" "[2]" 0] by (auto simp: Put_def writable_def)
  have map: "cask_map b w = [[1] \<mapsto> [2]]" and "cask_ok (b, w)"
    using put_cask_ok [OF cask_ok_New [of empty_os] small, of 0 0] run by (simp_all add: Put_def upd_spec_def)
  then obtain L e where log: "cask_log b w L" and e: "keyDir b [1] = Some e"
    by (fastforce simp: cask_ok_def cask_inv_def cask_map_def fun_eq_iff split: option.splits)
  obtain r where r: "denotes L [1] e r" using cask_logD(6) [OF log e] by blast
  let ?p = "filePath e" and ?x = "enc r ! 0 + 1"
  let ?w = "w\<lparr>fs := (fs w)(?p \<mapsto> (content w ?p)[fileEntryOffset e := ?x])\<rparr>"
  have "fst (Get [1] b ?w) = Inl (ErrMsg ''Corrupted entry found'')"
    by (rule get_detects_corruption [OF log e r, of 0 ?x ?w])
       (use f e_size_pos(1) [of r] in \<open>auto simp: headerSize_def\<close>)
  moreover have "fileEntryOffset e = 0"
    using run e by (auto simp: Put_def put_def put_open_def go_simps Let_def put_index_def put_rotate_def
        filePtr_def split: if_splits)
  moreover have "fst (Get [1] b w) = Inr [2]"
    using Get_result [OF log, of "[1]"] map f by (simp add: get_spec_def)
  ultimately show ?thesis using run by (intro exI [of _ b] exI [of _ w] exI [of _ ?w]) auto
qed

text \<open>
  An engine that has an open file but not the active one is stuck: every \<open>Put\<close> and
  \<open>Delete\<close> fails with \<^verbatim>\<open>os.ErrInvalid\<close> and changes nothing. Both \<open>put\<close>, when it
  cannot open the next file, and \<open>Merge\<close> on a new engine lead to such a state.
\<close>

theorem writes_stuck:
  assumes "filePtrs b \<noteq> []" and "active_path b \<notin> set (filePtrs b)"
  shows "Put now k v b w = (Some ErrInvalid, b, w) \<and> Delete now k b w = (Some ErrInvalid, b, w)"
  using put_stuck [OF assms] by (simp add: Put_def Delete_def)


theorem writes_stuck_witness:
  "Put 0 [1] [2] (New\<lparr>filePtrs := [merge_path New 1]\<rparr>) empty_os =
     (Some ErrInvalid, New\<lparr>filePtrs := [merge_path New 1]\<rparr>, empty_os)"
  using writes_stuck [of "New\<lparr>filePtrs := [merge_path New 1]\<rparr>" 0 "[1]" "[2]" empty_os] by simp

end
