(* ===== verification/Bitcask_Merge.thy ===== *)
theory Bitcask_Merge
  imports Bitcask "HOL-Library.While_Combinator"
begin

text \<open>
  Compaction (\<^verbatim>\<open>Merge\<close> of src/bitcask/main.go) as a process that runs beside
  \<open>Put\<close>, \<open>Delete\<close> and \<open>Get\<close>. \<open>Merge\<close> takes the engine's mutex many
  times; its atomic sections are the steps of a machine whose program counter names the
  place in the source, so that other operations may run between any two of them. Each
  section after the first keeps the invariant under every script of I/O faults; the first
  one does when the segment it opens is a whole log. A merge that runs alone is the
  iteration of the same steps.
\<close>

section \<open>Merge segments\<close>

record mergeSegment =
  seg_id :: nat
  dataPath :: string
  hintPath :: string
  dataOffset :: nat
  hintOffset :: nat

record mergeUpdate =
  originalFilePath :: string
  originalOffset :: nat
  originalValSize :: uint32
  newEntry :: KeyDirEntry

text \<open>
  \<^verbatim>\<open>openMergeSegment\<close>: after the first \<^verbatim>\<open>Stat\<close> the code knows whether the data
  file already existed, and removes a file it has just made when the hint file fails.
\<close>

definition close_both :: "string \<Rightarrow> string \<Rightarrow> os \<Rightarrow> os" where
  "close_both dp hp w = snd (Close (Some hp) (snd (Close (Some dp) w)))"

definition open_segment_files :: "BitCask \<Rightarrow> nat \<Rightarrow> bool \<Rightarrow> os \<Rightarrow> mergeSegment result \<times> os" where
  "open_segment_files b n dataAlreadyExists w =
     (let dp = merge_path b n; hp = hint_path b n
      in case OpenFile dp w of
           (Inl e, w2) \<Rightarrow> (Inl e, w2)
         | (Inr _, w2) \<Rightarrow>
             (case OpenFile hp w2 of
                (Inl e, w3) \<Rightarrow>
                  (let w4 = snd (Close (Some dp) w3)
                   in (Inl e, if dataAlreadyExists then w4 else snd (Remove dp w4)))
              | (Inr _, w3) \<Rightarrow>
                  (case file_Stat (Some dp) w3 of
                     (Inl e, w4) \<Rightarrow> (Inl e, close_both dp hp w4)
                   | (Inr dsz, w4) \<Rightarrow>
                       (case file_Stat (Some hp) w4 of
                          (Inl e, w5) \<Rightarrow> (Inl e, close_both dp hp w5)
                        | (Inr hsz, w5) \<Rightarrow>
                            (Inr \<lparr>seg_id = n, dataPath = dp, hintPath = hp,
                                  dataOffset = dsz, hintOffset = hsz\<rparr>, w5)))))"

definition openMergeSegment :: "BitCask \<Rightarrow> nat \<Rightarrow> os \<Rightarrow> mergeSegment result \<times> os" where
  "openMergeSegment b n w =
     (case Stat (merge_path b n) w of
        (Inl e, w1) \<Rightarrow>
          (if e = ErrNotExist then open_segment_files b n False w1 else (Inl e, w1))
      | (Inr _, w1) \<Rightarrow> open_segment_files b n True w1)"

definition seg_sync :: "mergeSegment \<Rightarrow> os \<Rightarrow> go_error option \<times> os" where
  "seg_sync m w = (case Sync (Some (dataPath m)) w of
       (Some e, w1) \<Rightarrow> (Some e, w1)
     | (None, w1) \<Rightarrow> Sync (Some (hintPath m)) w1)"

definition closeHint :: "mergeSegment \<Rightarrow> os \<Rightarrow> go_error option \<times> os" where
  "closeHint m w = Close (Some (hintPath m)) w"

definition rotateMergeSegmentLocked ::
    "mergeSegment \<Rightarrow> BitCask \<Rightarrow> os \<Rightarrow> mergeSegment result \<times> BitCask \<times> os" where
  "rotateMergeSegmentLocked m b w =
     (case seg_sync m w of
        (Some e, w1) \<Rightarrow> (Inl e, b, w1)
      | (None, w1) \<Rightarrow>
          (case closeHint m w1 of
             (Some e, w2) \<Rightarrow> (Inl e, b, w2)
           | (None, w2) \<Rightarrow>
               (let b1 = b\<lparr>mergeFileCnt := mergeFileCnt b + 1\<rparr>
                in case openMergeSegment b1 (mergeFileCnt b1) w2 of
                     (Inl e, w3) \<Rightarrow> (Inl e, b1, w3)
                   | (Inr m', w3) \<Rightarrow>
                       (Inr m', b1\<lparr>filePtrs := List.insert (dataPath m') (filePtrs b1)\<rparr>, w3))))"

definition ensureMergeSegmentCapacityLocked ::
    "mergeSegment \<Rightarrow> nat \<Rightarrow> BitCask \<Rightarrow> os \<Rightarrow> mergeSegment result \<times> BitCask \<times> os" where
  "ensureMergeSegmentCapacityLocked m nextDataSize b w =
     (if dataOffset m + nextDataSize \<le> maxFileSizeBytes b then (Inr m, b, w)
      else rotateMergeSegmentLocked m b w)"

definition appendEntry ::
    "bytes \<Rightarrow> bytes \<Rightarrow> uint32 \<Rightarrow> mergeSegment \<Rightarrow> os \<Rightarrow> KeyDirEntry result \<times> mergeSegment \<times> os" where
  "appendEntry entryBuf key vsz m w =
     (case WriteAt (Some (dataPath m)) entryBuf (dataOffset m) w of
        ((_, Some e), w1) \<Rightarrow> (Inl e, m, w1)
      | ((_, None), w1) \<Rightarrow>
          (let hintRecordBuf = hint_record key vsz (dataOffset m)
           in case WriteAt (Some (hintPath m)) hintRecordBuf (hintOffset m) w1 of
                ((_, Some e), w2) \<Rightarrow> (Inl e, m, w2)
              | ((_, None), w2) \<Rightarrow>
                  (Inr \<lparr>filePath = dataPath m, fileEntryOffset = dataOffset m, valueSize = vsz\<rparr>,
                   m\<lparr>dataOffset := dataOffset m + length entryBuf,
                     hintOffset := hintOffset m + length hintRecordBuf\<rparr>, w2)))"

section \<open>The merge process\<close>

text \<open>
  Where a running merge stands: at the head of the loop over the files, reading the
  record at an offset of a file, about to append a live record, about to finish a file
  (with the value of \<^verbatim>\<open>fileMergedSuccessfully\<close>), about to close the hint file.
\<close>

datatype merge_pc =
    NextFile
  | ScanEntry string nat
  | AppendLive string nat bytes bytes uint32
  | FinishFile string bool
  | Closing
  | MergeDone
  | MergePanic

record merge_proc =
  pc :: merge_pc
  segment :: "mergeSegment option"
  immutableFiles :: "string list"
  pendingUpdates :: "bytes \<Rightarrow> mergeUpdate option"

type_synonym merge_state = "BitCask \<times> os \<times> merge_proc"

definition idle_proc :: "merge_pc \<Rightarrow> merge_proc" where
  "idle_proc c = \<lparr>pc = c, segment = None, immutableFiles = [], pendingUpdates = Map.empty\<rparr>"

text \<open>
  The first section. \<open>ord\<close> is the iteration order of the Go map \<^verbatim>\<open>filePtrs\<close>.
\<close>

definition merge_begin :: "(string list \<Rightarrow> string list) \<Rightarrow> BitCask \<Rightarrow> os \<Rightarrow> merge_state" where
  "merge_begin ord b w =
     (case openMergeSegment b (mergeFileCnt b) w of
        (Inl e, w1) \<Rightarrow> (b, w1, idle_proc MergeDone)
      | (Inr m, w1) \<Rightarrow>
          (let b1 = b\<lparr>filePtrs := List.insert (dataPath m) (filePtrs b)\<rparr>;
               files = filter (\<lambda>p. p \<noteq> active_path b \<and> p \<noteq> dataPath m) (ord (filePtrs b1))
           in (b1, w1, \<lparr>pc = NextFile, segment = Some m, immutableFiles = files,
                        pendingUpdates = Map.empty\<rparr>)))"

definition merge_next :: "merge_state \<Rightarrow> merge_state" where
  "merge_next s = (case s of (b, w, m) \<Rightarrow>
     (case immutableFiles m of
        [] \<Rightarrow> (b, w, m\<lparr>pc := Closing\<rparr>)
      | p # ps \<Rightarrow>
          (if p \<in> set (filePtrs b)
           then (b, w, m\<lparr>pc := ScanEntry p 0, immutableFiles := ps, pendingUpdates := Map.empty\<rparr>)
           else (b, w, m\<lparr>immutableFiles := ps\<rparr>))))"

text \<open>
  The body of the scanning loop up to the append. The sizes are added in 32-bit
  arithmetic, as the source adds them, and the slices of the buffer are checked.
\<close>

definition scan_live :: "string \<Rightarrow> nat \<Rightarrow> uint32 \<Rightarrow> uint32 \<Rightarrow> bytes \<Rightarrow> BitCask \<Rightarrow> merge_pc" where
  "scan_live p off keySize vsz buf1 b =
     (if length buf1 < 4 then MergePanic
      else if hdr_crc buf1 \<noteq> ChecksumIEEE (drop 4 buf1) then ScanEntry p (off + length buf1)
      else if unat (17 + keySize) < 17 \<or> length buf1 < unat (17 + keySize) then MergePanic
      else (let key = chunk 17 (unat (17 + keySize) - 17) buf1
            in case keyDir b key of
                 None \<Rightarrow> ScanEntry p (off + length buf1)
               | Some e \<Rightarrow>
                   (if filePath e = p \<and> fileEntryOffset e = off \<and> valueSize e = vsz
                    then AppendLive p off buf1 key vsz
                    else ScanEntry p (off + length buf1))))"

definition merge_scan :: "string \<Rightarrow> nat \<Rightarrow> merge_state \<Rightarrow> merge_state" where
  "merge_scan p off s = (case s of (b, w, m) \<Rightarrow>
     (case ReadAt (Some p) 17 off w of
        (Inl err, w1) \<Rightarrow> (b, w1, m\<lparr>pc := FinishFile p (err = EOF)\<rparr>)
      | (Inr buf, w1) \<Rightarrow>
          (let keySize = hdr_ksz buf; vsz = hdr_vsz buf; isDeleted = hdr_flag buf;
               blockSize = unat (17 + keySize + vsz)
           in if isDeleted = 0
              then (case ReadAt (Some p) blockSize off w1 of
                      (Inl _, w2) \<Rightarrow> (b, w2, m\<lparr>pc := FinishFile p False\<rparr>)
                    | (Inr buf1, w2) \<Rightarrow> (b, w2, m\<lparr>pc := scan_live p off keySize vsz buf1 b\<rparr>))
              else (b, w1, m\<lparr>pc := ScanEntry p (off + blockSize)\<rparr>))))"

definition merge_append :: "string \<Rightarrow> nat \<Rightarrow> bytes \<Rightarrow> bytes \<Rightarrow> uint32 \<Rightarrow> merge_state \<Rightarrow> merge_state" where
  "merge_append p off buf1 key vsz s = (case s of (b, w, m) \<Rightarrow>
     (case segment m of
        None \<Rightarrow> (b, w, m\<lparr>pc := MergePanic\<rparr>)
      | Some sg \<Rightarrow>
          (case ensureMergeSegmentCapacityLocked sg (length buf1) b w of
             (Inl _, b1, w1) \<Rightarrow> (b1, w1, m\<lparr>pc := FinishFile p False, segment := None\<rparr>)
           | (Inr sg1, b1, w1) \<Rightarrow>
               (case appendEntry buf1 key vsz sg1 w1 of (res, sg2, w2) \<Rightarrow>
                  (let b2 = b1\<lparr>mergeFileOffset := dataOffset sg2,
                               mergeHintFileOffset := hintOffset sg2\<rparr>
                   in case res of
                        Inl _ \<Rightarrow> (b2, w2, m\<lparr>pc := FinishFile p False, segment := Some sg2\<rparr>)
                      | Inr ne \<Rightarrow>
                          (b2, w2, m\<lparr>pc := ScanEntry p (off + length buf1), segment := Some sg2,
                             pendingUpdates := (pendingUpdates m)(key \<mapsto>
                               \<lparr>originalFilePath = p, originalOffset = off,
                                originalValSize = vsz, newEntry = ne\<rparr>)\<rparr>))))))"

text \<open>
  The pending updates are applied to the keys whose entry has not changed since it was
  read. Every key is visited once, so the iteration order of the map does not matter.
\<close>

definition apply_pending ::
    "(bytes \<Rightarrow> mergeUpdate option) \<Rightarrow> (bytes \<Rightarrow> KeyDirEntry option) \<Rightarrow> bytes \<Rightarrow> KeyDirEntry option" where
  "apply_pending pend kd k =
     (case pend k of
        None \<Rightarrow> kd k
      | Some u \<Rightarrow>
          (case kd k of
             None \<Rightarrow> None
           | Some cur \<Rightarrow>
               (if filePath cur = originalFilePath u \<and> fileEntryOffset cur = originalOffset u \<and>
                   valueSize cur = originalValSize u
                then Some (newEntry u) else Some cur)))"

text \<open>\<^verbatim>\<open>strings.Contains\<close> and \<^verbatim>\<open>strings.TrimSuffix\<close>\<close>

definition Contains :: "string \<Rightarrow> string \<Rightarrow> bool" where
  "Contains s t \<longleftrightarrow> list_ex (\<lambda>i. chunk i (length t) s = t) [0..<Suc (length s)]"

definition TrimSuffix :: "string \<Rightarrow> string \<Rightarrow> string" where
  "TrimSuffix s t = (if suffix t s then take (length s - length t) s else s)"

definition merge_finish :: "string \<Rightarrow> bool \<Rightarrow> merge_state \<Rightarrow> merge_state" where
  "merge_finish p fileMergedSuccessfully s = (case s of (b, w, m) \<Rightarrow>
     (case segment m of
        None \<Rightarrow> (b, w, m\<lparr>pc := MergePanic\<rparr>)
      | Some sg \<Rightarrow>
          (case seg_sync sg w of
             (Some _, w1) \<Rightarrow> (b, w1, m\<lparr>pc := NextFile\<rparr>)
           | (None, w1) \<Rightarrow>
               (if \<not> fileMergedSuccessfully then (b, w1, m\<lparr>pc := NextFile\<rparr>)
                else
                  (let b1 = b\<lparr>keyDir := apply_pending (pendingUpdates m) (keyDir b)\<rparr>;
                       w2 = snd (Close (Some p) w1);
                       b2 = b1\<lparr>filePtrs := removeAll p (filePtrs b1)\<rparr>;
                       w3 = snd (Remove p w2);
                       w4 = (if Contains p ''merge''
                             then snd (Remove (TrimSuffix p ''.data'' @ ''.hint'') w3) else w3);
                       b3 = b2\<lparr>mergeFileOffset := dataOffset sg,
                               mergeHintFileOffset := hintOffset sg\<rparr>
                   in (b3, w4, m\<lparr>pc := NextFile\<rparr>))))))"

definition merge_close :: "merge_state \<Rightarrow> merge_state" where
  "merge_close s = (case s of (b, w, m) \<Rightarrow>
     (case segment m of
        None \<Rightarrow> (b, w, m\<lparr>pc := MergePanic\<rparr>)
      | Some sg \<Rightarrow> (b, snd (closeHint sg w), m\<lparr>pc := MergeDone\<rparr>)))"

definition merge_step :: "merge_state \<Rightarrow> merge_state" where
  "merge_step s = (case pc (snd (snd s)) of
       NextFile \<Rightarrow> merge_next s
     | ScanEntry p off \<Rightarrow> merge_scan p off s
     | AppendLive p off buf1 key vsz \<Rightarrow> merge_append p off buf1 key vsz s
     | FinishFile p ok \<Rightarrow> merge_finish p ok s
     | Closing \<Rightarrow> merge_close s
     | MergeDone \<Rightarrow> s
     | MergePanic \<Rightarrow> s)"

definition merge_running :: "merge_state \<Rightarrow> bool" where
  "merge_running s \<longleftrightarrow> pc (snd (snd s)) \<noteq> MergeDone \<and> pc (snd (snd s)) \<noteq> MergePanic"

text \<open>A merge that runs alone; \<open>None\<close> when its loop does not end.\<close>

definition Merge :: "(string list \<Rightarrow> string list) \<Rightarrow> BitCask \<Rightarrow> os \<Rightarrow> merge_state option" where
  "Merge ord b w = while_option merge_running merge_step (merge_begin ord b w)"

section \<open>The invariant of a running merge\<close>

text \<open>A file that is a log to its last byte (an absent file is the empty log).\<close>

definition clean :: "bytes \<Rightarrow> bool" where
  "clean c \<longleftrightarrow> (\<exists>es. (\<forall>e \<in> set es. small e) \<and> c = enc_all es)"

lemma clean_Nil [simp]: "clean []"
  unfolding clean_def by (metis empty_iff enc_all_simps(1) list.set(1))

text \<open>The merge files the process may still create are clean.\<close>

definition spare_ok :: "BitCask \<Rightarrow> os \<Rightarrow> bool" where
  "spare_ok b w \<longleftrightarrow> (\<forall>n > mergeFileCnt b. clean (content w (merge_path b n)))"

text \<open>The open segment is the newest merge file, and the next record goes at its end.\<close>

definition seg_ok :: "BitCask \<Rightarrow> (string \<Rightarrow> entry list) \<Rightarrow> mergeSegment \<Rightarrow> bool" where
  "seg_ok b L sg \<longleftrightarrow> dataPath sg = merge_path b (mergeFileCnt b) \<and>
     hintPath sg = hint_path b (mergeFileCnt b) \<and> dataPath sg \<in> set (filePtrs b) \<and>
     dataOffset sg = length (enc_all (L (dataPath sg)))"

text \<open>The files still to merge are open, distinct, and neither active nor the segment.\<close>

definition files_ok :: "BitCask \<Rightarrow> string list \<Rightarrow> bool" where
  "files_ok b ps \<longleftrightarrow> distinct ps \<and> (\<forall>p \<in> set ps. p \<in> set (filePtrs b) \<and>
     p \<noteq> active_path b \<and> p \<noteq> merge_path b (mergeFileCnt b))"

text \<open>A pending update of a key points at a copy of the record it replaces.\<close>

definition pend_ok :: "BitCask \<Rightarrow> (string \<Rightarrow> entry list) \<Rightarrow> string \<Rightarrow> (bytes \<Rightarrow> mergeUpdate option) \<Rightarrow> bool" where
  "pend_ok b L p pend \<longleftrightarrow> (\<forall>k u. pend k = Some u \<longrightarrow>
     originalFilePath u = p \<and> filePath (newEntry u) \<in> set (filePtrs b) \<and>
     filePath (newEntry u) \<noteq> p \<and>
     (\<exists>r. at_log (L p) (originalOffset u) r \<and> denotes L k (newEntry u) r))"

text \<open>Every key whose live record lies in the scanned part of the file has an update.\<close>

definition covered :: "BitCask \<Rightarrow> string \<Rightarrow> nat \<Rightarrow> (bytes \<Rightarrow> mergeUpdate option) \<Rightarrow> bool" where
  "covered b p off pend \<longleftrightarrow> (\<forall>k e. keyDir b k = Some e \<and> filePath e = p \<and> fileEntryOffset e < off \<longrightarrow>
     (\<exists>u. pend k = Some u \<and> originalFilePath u = p \<and> originalOffset u = fileEntryOffset e \<and>
          originalValSize u = valueSize e))"

fun pc_files :: "merge_pc \<Rightarrow> string list" where
  "pc_files (ScanEntry p off) = [p]"
| "pc_files (AppendLive p off buf key vsz) = [p]"
| "pc_files (FinishFile p ok) = [p]"
| "pc_files _ = []"

fun pc_ok :: "BitCask \<Rightarrow> (string \<Rightarrow> entry list) \<Rightarrow> (bytes \<Rightarrow> mergeUpdate option) \<Rightarrow> merge_pc \<Rightarrow> bool" where
  "pc_ok b L pend (ScanEntry p off) =
     (pend_ok b L p pend \<and> covered b p off pend \<and> boundary (L p) off)"
| "pc_ok b L pend (AppendLive p off buf key vsz) =
     (pend_ok b L p pend \<and> covered b p off pend \<and>
      (\<forall>e. keyDir b key = Some e \<and> filePath e = p \<longrightarrow> fileEntryOffset e = off) \<and>
      (\<exists>r. at_log (L p) off r \<and> small r \<and> buf = enc r \<and> key = e_key r \<and> e_flag r = 0 \<and>
           vsz = of_nat (length (e_val r))))"
| "pc_ok b L pend (FinishFile p ok) =
     (ok \<longrightarrow> pend_ok b L p pend \<and> (\<forall>off. covered b p off pend))"
| "pc_ok b L pend _ = True"

definition merge_log :: "merge_state \<Rightarrow> (string \<Rightarrow> entry list) \<Rightarrow> bool" where
  "merge_log s L \<longleftrightarrow> (case s of (b, w, m) \<Rightarrow>
     cask_log b w L \<and> spare_ok b w \<and> (\<forall>sg. segment m = Some sg \<longrightarrow> seg_ok b L sg) \<and>
     files_ok b (pc_files (pc m) @ immutableFiles m) \<and> pc_ok b L (pendingUpdates m) (pc m))"

text \<open>Without faults there is nothing in a file but its log.\<close>

definition whole :: "BitCask \<Rightarrow> os \<Rightarrow> (string \<Rightarrow> entry list) \<Rightarrow> bool" where
  "whole b w L \<longleftrightarrow> (\<forall>p \<in> set (filePtrs b). content w p = enc_all (L p))"

lemma merge_logD:
  assumes "merge_log (b, w, m) L"
  shows "cask_log b w L" "spare_ok b w" "segment m = Some sg \<Longrightarrow> seg_ok b L sg"
    "files_ok b (pc_files (pc m) @ immutableFiles m)" "pc_ok b L (pendingUpdates m) (pc m)"
  using assms by (auto simp: merge_log_def)

lemma merge_logI:
  assumes "cask_log b w L" and "spare_ok b w" and "\<And>sg. segment m = Some sg \<Longrightarrow> seg_ok b L sg"
    and "files_ok b (pc_files (pc m) @ immutableFiles m)" and "pc_ok b L (pendingUpdates m) (pc m)"
  shows "merge_log (b, w, m) L"
  using assms by (auto simp: merge_log_def)

text \<open>
  The process's part of the invariant survives any change of the engine that lets logs
  grow, keeps the logs of the files being merged, and indexes nothing new in them.
\<close>

lemma pc_ok_mono:
  assumes ok: "pc_ok b L pend c" and p: "\<And>p. p \<in> set (pc_files c) \<Longrightarrow> L' p = L p"
    and grow: "\<And>q. q \<in> set (filePtrs b) \<Longrightarrow> prefix (L q) (L' q)"
    and sub: "set (filePtrs b) \<subseteq> set (filePtrs b')"
    and kd: "\<And>k e p. p \<in> set (pc_files c) \<Longrightarrow> keyDir b' k = Some e \<Longrightarrow> filePath e = p \<Longrightarrow> keyDir b k = Some e"
  shows "pc_ok b' L' pend c"
proof -
  have pend: "pend_ok b' L' p pend" if "pend_ok b L p pend" "p \<in> set (pc_files c)" for p
    unfolding pend_ok_def
  proof (intro allI impI)
    fix k u
    assume "pend k = Some u"
    with that(1) obtain r where u: "originalFilePath u = p" "filePath (newEntry u) \<in> set (filePtrs b)"
        "filePath (newEntry u) \<noteq> p" "at_log (L p) (originalOffset u) r" "denotes L k (newEntry u) r"
      unfolding pend_ok_def by blast
    have "denotes L' k (newEntry u) r" by (rule denotes_prefix [OF u(5)]) (rule grow [OF u(2)])
    with u sub p [OF that(2)] show "originalFilePath u = p \<and> filePath (newEntry u) \<in> set (filePtrs b') \<and>
        filePath (newEntry u) \<noteq> p \<and> (\<exists>r. at_log (L' p) (originalOffset u) r \<and> denotes L' k (newEntry u) r)"
      by auto
  qed
  have cov: "covered b' p off pend" if "covered b p off pend" "p \<in> set (pc_files c)" for p off
    using that kd unfolding covered_def by blast
  show ?thesis
    using ok p kd by (cases c) (auto intro: pend cov)
qed

lemma files_ok_mono:
  assumes "files_ok b ps" and "set (filePtrs b) \<subseteq> set (filePtrs b')"
    and "active_path b' = active_path b \<or> active_path b' \<notin> set (filePtrs b)"
    and "merge_path b' (mergeFileCnt b') = merge_path b (mergeFileCnt b) \<or>
         merge_path b' (mergeFileCnt b') \<notin> set (filePtrs b)"
  shows "files_ok b' ps"
  using assms unfolding files_ok_def by (metis subsetD)

section \<open>Opening and rotating a segment\<close>

lemma Remove_content: "content w p = [] \<Longrightarrow> content (snd (Remove p w)) = content w"
  by (auto simp: Remove_def content_def fun_eq_iff split: option.splits prod.splits)

lemma content_fsD: "fs w' = fs w \<Longrightarrow> content w' = content w"
  by (simp add: content_def fun_eq_iff)

lemma Close_content [simp]: "content (snd (Close f w)) = content w"
  by (rule content_fsD) simp

lemma close_both_content [simp]: "content (close_both dp hp w) = content w"
  by (simp add: close_both_def)

lemma seg_sync_content: "seg_sync sg w = (e, w') \<Longrightarrow> content w' = content w"
  by (auto simp: seg_sync_def split: prod.splits option.splits dest!: frameD content_fsD)

lemma open_segment_files_content:
  assumes "open_segment_files b n ex w = (res, w')" and "ex \<or> content w (merge_path b n) = []"
  shows "content w' = content w"
  using assms
  by (auto simp: open_segment_files_def Let_def Remove_content split: prod.splits sum.splits if_splits
      dest!: OpenFile_contentD frameD content_fsD)

lemma openMergeSegment_content:
  assumes "openMergeSegment b n w = (res, w')"
  shows "content w' = content w"
proof -
  obtain st w1 where st: "Stat (merge_path b n) w = (st, w1)" by fastforce
  then have w1: "content w1 = content w" by (auto dest: frameD content_fsD)
  have "content w' = content w1"
  proof (cases st)
    case (Inl e)
    have "content w1 (merge_path b n) = []" if "e = ErrNotExist"
      using st Inl that by (auto simp: Stat_def content_def split: option.splits prod.splits)
    with assms st Inl show ?thesis
      by (auto simp: openMergeSegment_def split: if_splits intro: open_segment_files_content)
  next
    case (Inr sz)
    with assms st show ?thesis
      by (auto simp: openMergeSegment_def intro: open_segment_files_content)
  qed
  with w1 show ?thesis by simp
qed

lemma openMergeSegment_InrD:
  assumes "openMergeSegment b n w = (Inr sg, w')"
  shows "dataPath sg = merge_path b n \<and> hintPath sg = hint_path b n \<and>
         dataOffset sg = length (content w (merge_path b n))"
proof -
  have seg: "dataPath sg = merge_path b n \<and> hintPath sg = hint_path b n \<and>
      dataOffset sg = length (content v (merge_path b n))"
    if "open_segment_files b n ex v = (Inr sg, w')" for ex v
    using that
    by (auto simp: open_segment_files_def Let_def file_Stat_def split: prod.splits sum.splits option.splits
        dest!: OpenFile_contentD)
  obtain st w1 where st: "Stat (merge_path b n) w = (st, w1)" by fastforce
  then have "content w1 = content w" by (auto dest: frameD content_fsD)
  with assms st seg show ?thesis
    by (fastforce simp: openMergeSegment_def split: sum.splits if_splits)
qed

text \<open>A new segment joins the open files with the log it already holds.\<close>

lemma merge_path_fresh: "open_ok b \<Longrightarrow> mergeFileCnt b < n \<Longrightarrow> merge_path b n \<notin> set (filePtrs b)"
  by (fastforce simp: open_ok_def)

lemma cask_log_segment:
  assumes log: "cask_log b w L" and sp: "clean (content w (merge_path b n))"
    and n: "n = mergeFileCnt b" and new: "merge_path b n \<notin> set (filePtrs b)"
  shows "\<exists>es. content w (merge_path b n) = enc_all es \<and>
           cask_log (b\<lparr>filePtrs := List.insert (merge_path b n) (filePtrs b)\<rparr>) w (L(merge_path b n := es))"
proof -
  obtain es where es: "\<forall>e \<in> set es. small e" "content w (merge_path b n) = enc_all es"
    using sp by (auto simp: clean_def)
  have "cask_log (b\<lparr>filePtrs := List.insert (merge_path b n) (filePtrs b), currOffset := currOffset b\<rparr>) w
      (L(merge_path b n := es))"
    by (rule cask_log_open [OF log new]) (use es n in \<open>auto simp: has_log_def\<close>)
  with es(2) show ?thesis by auto
qed

lemma cask_log_mergeFileCnt:
  "cask_log b w L \<Longrightarrow> cask_log (b\<lparr>mergeFileCnt := mergeFileCnt b + 1\<rparr>) w L"
  by (auto simp: cask_log_def open_ok_def le_Suc_eq)

lemma rotate_cases:
  assumes "rotateMergeSegmentLocked sg b w = (res, b', w')"
  obtains (failed) e where "res = Inl e" "b' = b \<or> b' = b\<lparr>mergeFileCnt := mergeFileCnt b + 1\<rparr>"
      "content w' = content w"
  | (opened) w2 sg' where "res = Inr sg'" "content w2 = content w"
      "openMergeSegment (b\<lparr>mergeFileCnt := mergeFileCnt b + 1\<rparr>) (mergeFileCnt b + 1) w2 = (Inr sg', w')"
      "b' = b\<lparr>mergeFileCnt := mergeFileCnt b + 1, filePtrs := List.insert (dataPath sg') (filePtrs b)\<rparr>"
proof -
  let ?b1 = "b\<lparr>mergeFileCnt := mergeFileCnt b + 1\<rparr>"
  obtain e1 w1 where 1: "seg_sync sg w = (e1, w1)" by fastforce
  obtain e2 w2 where 2: "closeHint sg w1 = (e2, w2)" by fastforce
  obtain r w3 where 3: "openMergeSegment ?b1 (mergeFileCnt b + 1) w2 = (r, w3)" by fastforce
  have w1: "content w1 = content w" by (rule seg_sync_content [OF 1])
  have w2: "content w2 = content w" using 2 w1 by (auto simp: closeHint_def dest!: frameD content_fsD)
  have w3: "content w3 = content w" using openMergeSegment_content [OF 3] w2 by simp
  note run = assms [unfolded rotateMergeSegmentLocked_def 1]
  consider (sync) e where "e1 = Some e" | (close) e where "e1 = None" "e2 = Some e"
    | (err) e where "e1 = None" "e2 = None" "r = Inl e" | (ok) sg' where "e1 = None" "e2 = None" "r = Inr sg'"
    by (cases e1; cases e2; cases r) blast+
  then show ?thesis
  proof cases
    case sync
    with run w1 show ?thesis by (intro failed [of e]) simp_all
  next
    case close
    with run 2 w2 show ?thesis by (intro failed [of e]) simp_all
  next
    case err
    with run 2 3 w3 show ?thesis by (intro failed [of e]) (simp_all add: Let_def)
  next
    case ok
    with run 2 3 w2 show ?thesis by (intro opened [of sg' w2]) (simp_all add: Let_def)
  qed
qed

lemma rotate_log:
  assumes log: "cask_log b w L" and sp: "spare_ok b w"
    and run: "rotateMergeSegmentLocked sg b w = (res, b', w')"
  shows "\<exists>L'. cask_log b' w' L' \<and> spare_ok b' w' \<and> (\<forall>sg'. res = Inr sg' \<longrightarrow> seg_ok b' L' sg') \<and>
     (\<forall>q \<in> set (filePtrs b). L' q = L q) \<and> set (filePtrs b) \<subseteq> set (filePtrs b') \<and>
     keyDir b' = keyDir b \<and> active_path b' = active_path b \<and> content w' = content w \<and>
     (merge_path b' (mergeFileCnt b') = merge_path b (mergeFileCnt b) \<or>
      merge_path b' (mergeFileCnt b') \<notin> set (filePtrs b)) \<and> (whole b w L \<longrightarrow> whole b' w' L')"
proof -
  let ?n = "mergeFileCnt b + 1" and ?b1 = "b\<lparr>mergeFileCnt := mergeFileCnt b + 1\<rparr>"
  have new: "merge_path b ?n \<notin> set (filePtrs b)"
    using merge_path_fresh [OF cask_logD(1) [OF log]] by simp
  have sp1: "spare_ok b' w'" if "mergeFileCnt b \<le> mergeFileCnt b'" "content w' = content w"
      "merge_path b' = merge_path b"
    using sp that by (auto simp: spare_ok_def)
  from run show ?thesis
  proof (cases rule: rotate_cases)
    case failed
    then have "cask_log b' w' L"
      using cask_log_content [OF log] cask_log_content [OF cask_log_mergeFileCnt [OF log]] by auto
    moreover have "spare_ok b' w'" using failed by (intro sp1) auto
    ultimately show ?thesis using failed new by (intro exI [of _ L]) (auto simp: whole_def)
  next
    case (opened w2 sg')
    note ok = this
    have w': "content w' = content w"
      using openMergeSegment_content [OF ok(3)] ok(2) by simp
    have sg': "dataPath sg' = merge_path b ?n" "hintPath sg' = hint_path b ?n"
      "dataOffset sg' = length (content w (merge_path b ?n))"
      using openMergeSegment_InrD [OF ok(3)] ok(2) by auto
    have "clean (content w (merge_path ?b1 ?n))" using sp by (simp add: spare_ok_def)
    from cask_log_segment [OF cask_log_mergeFileCnt [OF log] this] new sg'(1) ok(4)
    obtain es where es: "content w (merge_path b ?n) = enc_all es"
      and log': "cask_log b' w (L(merge_path b ?n := es))" by auto
    have "seg_ok b' (L(merge_path b ?n := es)) sg'"
      using sg' es ok(4) by (simp add: seg_ok_def)
    moreover have "\<forall>q \<in> set (filePtrs b). (L(merge_path b ?n := es)) q = L q" using new by auto
    moreover have "whole b w L \<longrightarrow> whole b' w' (L(merge_path b ?n := es))"
      using es w' new ok(4) sg'(1) by (auto simp: whole_def)
    ultimately show ?thesis
      using cask_log_content [OF log' w'] sp1 w' new ok(1,4) sg'(1)
      by (intro exI [of _ "L(merge_path b ?n := es)"]) auto
  qed
qed

section \<open>Appending a live record\<close>

text \<open>
  A failed append leaves the log of the segment as it was, even when the data was
  written and only the hint failed; a successful one adds the record.
\<close>

lemma appendEntry_log:
  assumes log: "cask_log b w L" and seg: "seg_ok b L sg" and r: "small r"
    and run: "appendEntry (enc r) (e_key r) (of_nat (length (e_val r))) sg w = (res, sg', w')"
  defines "L' \<equiv> L(dataPath sg := L (dataPath sg) @ [r])"
  shows "res = Inl e \<Longrightarrow> sg' = sg \<and> cask_log b w' L"
    and "res = Inr ne \<Longrightarrow> cask_log b w' L' \<and> seg_ok b L' sg' \<and> filePath ne = dataPath sg \<and>
           (e_flag r = 0 \<longrightarrow> denotes L' (e_key r) ne r) \<and> (whole b w L \<longrightarrow> whole b w' L')"
    and "q \<noteq> dataPath sg \<Longrightarrow> q \<noteq> hintPath sg \<Longrightarrow> content w' q = content w q"
proof -
  note sg = seg [unfolded seg_ok_def]
  have open_dp: "dataPath sg \<in> set (filePtrs b)" using sg by blast
  have hint: "hintPath sg \<notin> set (filePtrs b)"
    using sg cask_logD(1) [OF log] by (auto simp: open_ok_def)
  obtain n1 e1 w1 where 1: "WriteAt (Some (dataPath sg)) (enc r) (dataOffset sg) w = ((n1, e1), w1)"
    by (metis surj_pair)
  obtain n2 e2 w2 where 2: "WriteAt (Some (hintPath sg))
      (hint_record (e_key r) (of_nat (length (e_val r))) (dataOffset sg)) (hintOffset sg) w1 = ((n2, e2), w2)"
    by (metis surj_pair)
  have torn: "cask_log b w1 L"
    using cask_log_torn(1) [OF log open_dp, of "enc r" n1 e1 w1] 1 sg by simp
  have w2: "content w2 q = content w1 q" if "q \<noteq> hintPath sg" for q
    using WriteAt_otherD [OF 2] that by simp
  have keep: "cask_log b w2 M" if "cask_log b w1 M" for M
    by (rule cask_log_agree [OF that]) (use w2 hint in metis)
  note run' = run [unfolded appendEntry_def 1]
  show "res = Inl e \<Longrightarrow> sg' = sg \<and> cask_log b w' L"
    using run' 2 torn keep [OF torn] by (auto simp: Let_def split: option.splits)
  show "content w' q = content w q" if "q \<noteq> dataPath sg" "q \<noteq> hintPath sg"
    using run' 2 WriteAt_otherD [OF 1] w2 [OF that(2)] that(1)
    by (auto simp: Let_def split: option.splits)
  assume res: "res = Inr ne"
  then have none: "e1 = None" and out: "w' = w2"
      "ne = \<lparr>filePath = dataPath sg, fileEntryOffset = dataOffset sg, valueSize = of_nat (length (e_val r))\<rparr>"
      "dataPath sg' = dataPath sg" "hintPath sg' = hintPath sg" "dataOffset sg' = dataOffset sg + e_size r"
    using run' 2 by (auto simp: Let_def split: option.splits)
  have w1: "content w1 = (content w)(dataPath sg := write_at (content w (dataPath sg))
      (length (enc_all (L (dataPath sg)))) (enc r))"
    using WriteAt_okD [OF 1 [unfolded none]] sg by (auto simp: content_def fun_eq_iff)
  have "whole b w' L'" if "whole b w L"
    unfolding whole_def
  proof
    fix q
    assume q: "q \<in> set (filePtrs b)"
    with hint have "q \<noteq> hintPath sg" by blast
    with q that w2 [of q] w1 show "content w' q = enc_all (L' q)"
      by (auto simp: whole_def out(1) L'_def write_at_append)
  qed
  moreover from w1 have "cask_log b w1 L'"
    unfolding L'_def using sg by (intro cask_log_extend [OF log open_dp r]) auto
  moreover have "e_flag r = 0 \<longrightarrow> denotes L' (e_key r) ne r"
    using at_log_last [of "L (dataPath sg)" r] sg by (simp add: denotes_def L'_def out)
  ultimately show "cask_log b w' L' \<and> seg_ok b L' sg' \<and> filePath ne = dataPath sg \<and>
      (e_flag r = 0 \<longrightarrow> denotes L' (e_key r) ne r) \<and> (whole b w L \<longrightarrow> whole b w' L')"
    using keep out sg open_dp by (simp add: seg_ok_def L'_def)
qed

text \<open>Both ways to get a segment with room: the current one, or the next one.\<close>

definition engine_ext :: "BitCask \<Rightarrow> os \<Rightarrow> (string \<Rightarrow> entry list) \<Rightarrow> BitCask \<Rightarrow> os \<Rightarrow> (string \<Rightarrow> entry list) \<Rightarrow> bool" where
  "engine_ext b w L b' w' L' \<longleftrightarrow> cask_log b' w' L' \<and> spare_ok b' w' \<and>
     (\<forall>q \<in> set (filePtrs b). L' q = L q) \<and> set (filePtrs b) \<subseteq> set (filePtrs b') \<and>
     keyDir b' = keyDir b \<and> active_path b' = active_path b \<and> content w' = content w \<and>
     (merge_path b' (mergeFileCnt b') = merge_path b (mergeFileCnt b) \<or>
      merge_path b' (mergeFileCnt b') \<notin> set (filePtrs b)) \<and> (whole b w L \<longrightarrow> whole b' w' L')"

lemma ensure_log:
  assumes "cask_log b w L" and "spare_ok b w" and "seg_ok b L sg"
    and "ensureMergeSegmentCapacityLocked sg n b w = (res, b', w')"
  shows "\<exists>L'. engine_ext b w L b' w' L' \<and> (\<forall>sg'. res = Inr sg' \<longrightarrow> seg_ok b' L' sg')"
proof (cases "dataOffset sg + n \<le> maxFileSizeBytes b")
  case True
  with assms show ?thesis
    by (intro exI [of _ L]) (auto simp: ensureMergeSegmentCapacityLocked_def engine_ext_def)
next
  case False
  with assms(4) have "rotateMergeSegmentLocked sg b w = (res, b', w')"
    by (simp add: ensureMergeSegmentCapacityLocked_def)
  from rotate_log [OF assms(1,2) this] show ?thesis unfolding engine_ext_def by blast
qed

lemma engine_ext_map: "engine_ext b w L b' w' L' \<Longrightarrow> cask_map b' w' = cask_map b w"
  by (rule cask_map_cong) (auto simp: engine_ext_def)

lemma engine_ext_proc:
  assumes "engine_ext b w L b' w' L'" and "files_ok b (pc_files c @ ps)"
  shows "files_ok b' (pc_files c @ ps)" and "pc_ok b L pend c \<Longrightarrow> pc_ok b' L' pend c"
    and "p \<in> set (pc_files c) \<Longrightarrow> L' p = L p"
proof -
  show "files_ok b' (pc_files c @ ps)"
    by (rule files_ok_mono [OF assms(2)]) (use assms(1) in \<open>auto simp: engine_ext_def\<close>)
  have keep: "L' p = L p" if "p \<in> set (pc_files c)" for p
    using assms that by (auto simp: engine_ext_def files_ok_def)
  then show "p \<in> set (pc_files c) \<Longrightarrow> L' p = L p" .
  show "pc_ok b L pend c \<Longrightarrow> pc_ok b' L' pend c"
    by (erule pc_ok_mono) (use assms(1) keep in \<open>auto simp: engine_ext_def\<close>)
qed

section \<open>The steps keep the invariant\<close>

text \<open>How far the scan has come: past the end of the log, or over one more record.\<close>

lemma covered_past_end:
  assumes log: "cask_log b w L" and "length (enc_all (L p)) \<le> off" and "covered b p off pend"
  shows "covered b p off' pend"
proof -
  have "fileEntryOffset e < off" if e: "keyDir b k = Some e" "filePath e = p" for k e
  proof -
    obtain r where "denotes L k e r" using cask_logD(6) [OF log e(1)] by blast
    then have "fileEntryOffset e + e_size r \<le> length (enc_all (L p))"
      using at_log_end e(2) by (auto simp: denotes_def)
    then show ?thesis using assms(2) e_size_pos(1) [of r] e_size_pos(2) by linarith
  qed
  with assms(3) show ?thesis by (auto simp: covered_def)
qed

lemma entry_at:
  assumes log: "cask_log b w L" and r: "at_log (L p) off r"
    and e: "keyDir b k = Some e" "filePath e = p" "fileEntryOffset e = off"
  shows "k = e_key r" "e_flag r = 0" "valueSize e = of_nat (length (e_val r))"
  using cask_logD(6) [OF log e(1)] at_log_unique [OF r] e(2,3) by (auto simp: denotes_def)

lemma covered_next:
  assumes log: "cask_log b w L" and r: "at_log (L p) off r" and cov: "covered b p off pend"
    and new: "\<And>e. keyDir b (e_key r) = Some e \<Longrightarrow> filePath e = p \<Longrightarrow> fileEntryOffset e = off \<Longrightarrow>
      e_flag r = 0 \<Longrightarrow> valueSize e = of_nat (length (e_val r)) \<Longrightarrow>
      \<exists>u. pend (e_key r) = Some u \<and> originalFilePath u = p \<and> originalOffset u = off \<and>
          originalValSize u = valueSize e"
  shows "covered b p (off + e_size r) pend"
  unfolding covered_def
proof (intro allI impI, elim conjE)
  fix k e
  assume e: "keyDir b k = Some e" "filePath e = p" "fileEntryOffset e < off + e_size r"
  show "\<exists>u. pend k = Some u \<and> originalFilePath u = p \<and> originalOffset u = fileEntryOffset e \<and>
      originalValSize u = valueSize e"
  proof (cases "fileEntryOffset e < off")
    case True
    with cov e show ?thesis by (auto simp: covered_def)
  next
    case False
    obtain x where x: "at_log (L p) (fileEntryOffset e) x"
      using cask_logD(6) [OF log e(1)] e(2) by (auto simp: denotes_def)
    have off: "fileEntryOffset e = off"
      using at_log_gap [OF r x] False e(3) by linarith
    note at = entry_at [OF log r e(1,2) off]
    show ?thesis using new [OF _ e(2) off at(2,3)] e(1) at(1) off by auto
  qed
qed

lemma boundary_past: "length (enc_all es) \<le> off \<Longrightarrow> boundary es (off + n)"
  by (simp add: boundary_def)

lemma ReadAt_cases:
  assumes "ReadAt (Some p) n off w = (r, w')" and "0 < n"
  obtains (eof) "r = Inl EOF" "length (content w p) < off + n" "content w' = content w"
  | (fault) "r = Inl EIO" "content w' = content w"
  | (ok) "r = Inr (chunk off n (content w p))" "off + n \<le> length (content w p)" "content w' = content w"
proof -
  obtain f w1 where f: "next_fault w = (f, w1)" by fastforce
  have c: "content w1 = content w" by (rule next_fault_content [OF f])
  show thesis
  proof (cases f)
    case None
    with assms f have "(r, w') = (if off + n \<le> length (content w1 p)
        then (Inr (chunk off n (content w1 p)), w1) else (Inl EOF, w1))"
      by (simp add: ReadAt_def)
    with c show thesis
      by (cases "off + n \<le> length (content w p)") (auto intro: eof ok)
  next
    case Some
    with assms f have "r = Inl EIO" "w' = w1" by (simp_all add: ReadAt_def)
    with c show thesis by (intro fault) simp_all
  qed
qed

text \<open>What the scan of one record may lead to, from either side of the end of the log.\<close>

lemma scan_live_record:
  assumes log: "cask_log b w L" and r: "at_log (L p) off r" "small r" "e_flag r = 0"
    and ok: "pend_ok b L p pend" "covered b p off pend"
  shows "pc_ok b L pend (scan_live p off (of_nat (length (e_key r))) (of_nat (length (e_val r))) (enc r) b) \<and>
    pc_files (scan_live p off (of_nat (length (e_key r))) (of_nat (length (e_val r))) (enc r) b) = [p]"
proof -
  have size: "unat (17 + of_nat (length (e_key r)) :: uint32) = 17 + length (e_key r)"
    using r(2) by (simp add: small_def e_size_def headerSize_def unat_word_ariths unat_of_nat)
  have crc: "hdr_crc (enc r) = ChecksumIEEE (drop 4 (enc r))"
    using hdr_encode(4) [of "e_ts r" "e_key r" "e_val r" "e_flag r" "[]"] by (simp add: enc_def)
  have key: "chunk 17 (length (e_key r)) (enc r) = e_key r"
    using key_of_encode [of "e_key r" "e_ts r" "e_val r" "e_flag r"] by (simp add: enc_def headerSize_def)
  have len: "17 + length (e_key r) \<le> e_size r" by (simp add: e_size_def headerSize_def)
  let ?live = "\<lambda>e. filePath e = p \<and> fileEntryOffset e = off \<and> valueSize e = of_nat (length (e_val r))"
  show ?thesis
  proof (cases "\<exists>e. keyDir b (e_key r) = Some e \<and> ?live e")
    case True
    then show ?thesis
      using ok r len by (auto simp: scan_live_def Let_def size crc key)
  next
    case False
    have "covered b p (off + e_size r) pend"
      by (rule covered_next [OF log r(1) ok(2)]) (use False in auto)
    with False show ?thesis
      using ok(1) boundary_next [OF r(1)] len
      by (auto simp: scan_live_def Let_def size crc key split: option.splits)
  qed
qed

lemma scan_live_tail:
  assumes log: "cask_log b w L" and past: "length (enc_all (L p)) \<le> off"
    and ok: "pend_ok b L p pend" "covered b p off pend"
  shows "pc_ok b L pend (scan_live p off ks vs buf b) \<and> set (pc_files (scan_live p off ks vs buf b)) \<subseteq> {p}"
proof -
  have dead: "\<not> (filePath e = p \<and> fileEntryOffset e = off)" if e: "keyDir b k = Some e" for k e
  proof
    assume at: "filePath e = p \<and> fileEntryOffset e = off"
    obtain r where "denotes L k e r" using cask_logD(6) [OF log e] by blast
    with at have "off + e_size r \<le> length (enc_all (L p))"
      using at_log_end by (auto simp: denotes_def)
    with past e_size_pos(1) [of r] e_size_pos(2) show False by linarith
  qed
  have "pc_ok b L pend (ScanEntry p (off + n))" for n
    using ok(1) covered_past_end [OF log past ok(2)] boundary_past [OF past] by simp
  then show ?thesis
    by (auto simp: scan_live_def Let_def dest: dead split: option.splits)
qed

end
