(* ===== verification/Bitcask_Concurrent.thy ===== *)
theory Bitcask_Concurrent
  imports Bitcask_Merge
begin

text \<open>
  A merge of src/bitcask/main.go that runs while other goroutines put, delete and get.
  Each atomic section of \<open>Merge\<close> keeps the invariant and the stored map under every
  script of I/O faults; so does every interleaving of one merge at a time with the other
  operations, as long as no merge starts on a segment that holds torn bytes. What such a
  merge does is the subject of the theory on damaged segments.
\<close>

section \<open>The sections of Merge\<close>

definition store_of :: "merge_state \<Rightarrow> bytes \<Rightarrow> bytes option" where
  "store_of s = (case s of (b, w, m) \<Rightarrow> cask_map b w)"

text \<open>A step that changes neither the engine nor a file's bytes.\<close>

lemma merge_log_quiet:
  assumes "merge_log (b, w, m) L" and "content w' = content w"
    and "segment m' = segment m"
    and "files_ok b (pc_files (pc m') @ immutableFiles m')"
    and "pc_ok b L (pendingUpdates m') (pc m')"
  shows "merge_log (b, w', m') L" and "store_of (b, w', m') = store_of (b, w, m)"
proof -
  note old = merge_logD [OF assms(1)]
  have "spare_ok b w'" using old(2) assms(2) by (simp add: spare_ok_def)
  then show "merge_log (b, w', m') L"
    using cask_log_content [OF old(1) assms(2)] old(3) assms(3-5) by (simp add: merge_log_def)
  show "store_of (b, w', m') = store_of (b, w, m)"
    using cask_map_cong [of b b w' w] assms(2) by (simp add: store_of_def)
qed

lemma files_ok_tail: "files_ok b (ps @ qs) \<Longrightarrow> files_ok b qs"
  by (simp add: files_ok_def)

lemma files_ok_subset:
  "files_ok b ([p] @ qs) \<Longrightarrow> ps = [p] \<or> ps = [] \<Longrightarrow> files_ok b (ps @ qs)"
  by (elim disjE) (simp_all add: files_ok_def)

lemma merge_next_log:
  assumes "merge_log s L" and "pc (snd (snd s)) = NextFile"
  shows "merge_log (merge_next s) L \<and> store_of (merge_next s) = store_of s"
proof -
  obtain b w m where s: "s = (b, w, m)" by (cases s)
  have files: "files_ok b (immutableFiles m)"
    using merge_logD(4) [OF assms(1) [unfolded s]] by (rule files_ok_tail)
  note quiet = merge_log_quiet [OF assms(1) [unfolded s] refl]
  show ?thesis
  proof (cases "immutableFiles m")
    case Nil
    then have "merge_next s = (b, w, m\<lparr>pc := Closing\<rparr>)" by (simp add: s merge_next_def)
    with quiet [of "m\<lparr>pc := Closing\<rparr>"] files s show ?thesis by simp
  next
    case (Cons p ps)
    let ?m = "m\<lparr>pc := ScanEntry p 0, immutableFiles := ps, pendingUpdates := Map.empty\<rparr>"
    from Cons files have "p \<in> set (filePtrs b)" by (simp add: files_ok_def)
    with Cons have "merge_next s = (b, w, ?m)" by (simp add: s merge_next_def)
    moreover have "pc_ok b L Map.empty (ScanEntry p 0)"
      by (simp add: pend_ok_def covered_def boundary_0)
    ultimately show ?thesis using quiet [of ?m] files Cons s by simp
  qed
qed

text \<open>The record at a boundary, as the scan reads it.\<close>

lemma scan_reads:
  assumes log: "cask_log b w L" and p: "p \<in> set (filePtrs b)" and r: "at_log (L p) off r"
  shows "small r" and "off + e_size r \<le> length (content w p)"
    and "chunk off (e_size r) (content w p) = enc r"
    and "hdr_ksz (chunk off 17 (content w p)) = of_nat (length (e_key r))"
    and "hdr_vsz (chunk off 17 (content w p)) = of_nat (length (e_val r))"
    and "hdr_flag (chunk off 17 (content w p)) = e_flag r"
proof -
  note at = has_log_at [OF cask_logD(2) [OF log p] r]
  show "small r" "off + e_size r \<le> length (content w p)" "chunk off (e_size r) (content w p) = enc r"
    by (rule at)+
  have "chunk off 17 (content w p) = take headerSize (enc r)"
    using take_chunk [OF e_size_pos(1) [of r], of off "content w p"] at(3) by (simp add: headerSize_def)
  then show "hdr_ksz (chunk off 17 (content w p)) = of_nat (length (e_key r))"
    "hdr_vsz (chunk off 17 (content w p)) = of_nat (length (e_val r))"
    "hdr_flag (chunk off 17 (content w p)) = e_flag r"
    using hdr_encode(1-3) [of "e_ts r" "e_key r" "e_val r" "e_flag r" "[]"] hdr_take [of "enc r"]
      e_size_pos(1) [of r]
    by (simp_all add: enc_def e_size_def)
qed

text \<open>Where a scan goes next is a place the invariant allows.\<close>

lemma scan_goto:
  assumes log: "cask_log b w L" and p: "p \<in> set (filePtrs b)"
    and ok: "pc_ok b L pend (ScanEntry p off)"
    and run: "merge_scan p off (b, w, m) = (b', w', m')" and pend: "pend = pendingUpdates m"
  shows "b' = b \<and> content w' = content w \<and> m' = m\<lparr>pc := pc m'\<rparr> \<and> pc_ok b L pend (pc m') \<and>
     (pc_files (pc m') = [p] \<or> pc_files (pc m') = [])"
proof -
  from ok have ok': "pend_ok b L p pend" "covered b p off pend" "boundary (L p) off" by auto
  obtain x w1 where 1: "ReadAt (Some p) 17 off w = (x, w1)" by fastforce
  note run1 = run [unfolded merge_scan_def prod.case 1]
  have "(0::nat) < 17" by simp
  from 1 this show ?thesis
  proof (cases rule: ReadAt_cases)
    case eof
    have "\<not> at_log (L p) off r" for r
      using scan_reads(2) [OF log p, of off r] eof(2) e_size_pos(1) [of r] by (auto simp: headerSize_def)
    with ok'(3) have "length (enc_all (L p)) \<le> off" by (auto simp: boundary_def)
    with covered_past_end [OF log _ ok'(2)] ok'(1) eof run1 show ?thesis by auto
  next
    case fault
    with run1 show ?thesis by auto
  next
    case head: ok
    let ?buf = "chunk off 17 (content w p)"
    let ?n = "unat (17 + hdr_ksz ?buf + hdr_vsz ?buf)"
    obtain y w2 where 2: "ReadAt (Some p) ?n off w1 = (y, w2)" by fastforce
    have w2: "content w2 = content w"
      using 2 head(3) frameD(1) content_fsD by metis
    have y: "y = Inr (chunk off ?n (content w p))" if "y = Inr d" for d
      using ReadAt_InrD [of "Some p" ?n off w1 d w2] 2 that head(3) by auto
    have deleted: "b' = b \<and> w' = w1 \<and> m' = m\<lparr>pc := ScanEntry p (off + ?n)\<rparr>" if "hdr_flag ?buf \<noteq> 0"
      using run1 head(1) that by (simp add: Let_def)
    have live: "b' = b \<and> w' = w2 \<and> m' = m\<lparr>pc := (case y of Inl _ \<Rightarrow> FinishFile p False
        | Inr d \<Rightarrow> scan_live p off (hdr_ksz ?buf) (hdr_vsz ?buf) d b)\<rparr>" if "hdr_flag ?buf = 0"
      using run1 head(1) that 2 by (cases y) (auto simp: Let_def)
    from ok'(3) consider (rec) r where "at_log (L p) off r" | (tail) "length (enc_all (L p)) \<le> off"
      by (auto simp: boundary_def)
    then show ?thesis
    proof cases
      case rec
      note rd = scan_reads [OF log p rec]
      have n: "?n = e_size r" using small_sizes(3) [OF rd(1)] rd(4,5) by simp
      show ?thesis
      proof (cases "e_flag r = 0")
        case True
        note goal = scan_live_record [OF log rec rd(1) True ok'(1,2)]
        show ?thesis
          using live True rd w2 goal y n by (cases y) auto
      next
        case False
        have "covered b p (off + e_size r) pend"
          by (rule covered_next [OF log rec ok'(2)]) (use False in simp)
        with deleted False rd(6) n head(3) ok'(1) boundary_next [OF rec] show ?thesis by auto
      qed
    next
      case tail
      let ?c = "case y of Inl _ \<Rightarrow> FinishFile p False
        | Inr d \<Rightarrow> scan_live p off (hdr_ksz ?buf) (hdr_vsz ?buf) d b"
      show ?thesis
      proof (cases "hdr_flag ?buf = 0")
        case True
        have "pc_ok b L pend ?c"
          using scan_live_tail [OF log tail ok'(1,2)] by (cases y) auto
        moreover have "pc_files ?c = [p] \<or> pc_files ?c = []"
          by (auto simp: scan_live_def Let_def split: option.splits sum.splits)
        ultimately show ?thesis using live [OF True] w2 by simp
      next
        case False
        then show ?thesis
          using deleted head(3) boundary_past [OF tail] covered_past_end [OF log tail ok'(2)] ok'(1) by auto
      qed
    qed
  qed
qed

lemma merge_scan_log:
  assumes "merge_log s L" and "pc (snd (snd s)) = ScanEntry p off"
  shows "merge_log (merge_scan p off s) L \<and> store_of (merge_scan p off s) = store_of s"
proof -
  obtain b w m where s: "s = (b, w, m)" by (cases s)
  obtain b' w' m' where run: "merge_scan p off s = (b', w', m')" by (cases "merge_scan p off s")
  note old = merge_logD [OF assms(1) [unfolded s]]
  have pc: "pc m = ScanEntry p off" using assms(2) by (simp add: s)
  have p: "p \<in> set (filePtrs b)" using old(4) pc by (simp add: files_ok_def)
  from scan_goto [OF old(1) p old(5) [unfolded pc] run [unfolded s] refl] obtain c where
    c: "b' = b" "content w' = content w" "m' = m\<lparr>pc := c\<rparr>" "pc_ok b L (pendingUpdates m) c"
      "pc_files c = [p] \<or> pc_files c = []" by metis
  have "files_ok b (pc_files c @ immutableFiles m)"
    using files_ok_subset [of b p "immutableFiles m" "pc_files c"] old(4) pc c(5) by simp
  then show ?thesis
    using merge_log_quiet [OF assms(1) [unfolded s] c(2), of "m\<lparr>pc := c\<rparr>"] c(4)
    unfolding s run [unfolded s c(1,3)] by simp
qed

text \<open>Appending a live record adds its update and moves the scan past it.\<close>

lemma pend_ok_add:
  assumes "pend_ok b L p pend" and "at_log (L p) off r" and "denotes L k ne r"
    and "filePath ne \<in> set (filePtrs b)" and "filePath ne \<noteq> p"
  shows "pend_ok b L p (pend(k \<mapsto> \<lparr>originalFilePath = p, originalOffset = off,
            originalValSize = vsz, newEntry = ne\<rparr>))"
  using assms unfolding pend_ok_def by auto

lemma covered_add:
  assumes log: "cask_log b w L" and r: "at_log (L p) off r" and cov: "covered b p off pend"
    and own: "\<forall>e. keyDir b (e_key r) = Some e \<and> filePath e = p \<longrightarrow> fileEntryOffset e = off"
  shows "covered b p (off + e_size r) (pend(e_key r \<mapsto> \<lparr>originalFilePath = p, originalOffset = off,
            originalValSize = of_nat (length (e_val r)), newEntry = ne\<rparr>))"
proof (rule covered_next [OF log r])
  show "covered b p off (pend(e_key r \<mapsto> \<lparr>originalFilePath = p, originalOffset = off,
            originalValSize = of_nat (length (e_val r)), newEntry = ne\<rparr>))"
    using cov own unfolding covered_def by auto
qed auto

lemma merge_append_cases:
  assumes "merge_append p off buf key vsz (b, w, m) = (b', w', m')" and "segment m = Some sg"
  obtains (rotate) e where "ensureMergeSegmentCapacityLocked sg (length buf) b w = (Inl e, b', w')"
      "m' = m\<lparr>pc := FinishFile p False, segment := None\<rparr>"
  | (failed) sg1 b1 w1 e sg2 where "ensureMergeSegmentCapacityLocked sg (length buf) b w = (Inr sg1, b1, w1)"
      "appendEntry buf key vsz sg1 w1 = (Inl e, sg2, w')"
      "b' = b1\<lparr>mergeFileOffset := dataOffset sg2, mergeHintFileOffset := hintOffset sg2\<rparr>"
      "m' = m\<lparr>pc := FinishFile p False, segment := Some sg2\<rparr>"
  | (appended) sg1 b1 w1 ne sg2 where "ensureMergeSegmentCapacityLocked sg (length buf) b w = (Inr sg1, b1, w1)"
      "appendEntry buf key vsz sg1 w1 = (Inr ne, sg2, w')"
      "b' = b1\<lparr>mergeFileOffset := dataOffset sg2, mergeHintFileOffset := hintOffset sg2\<rparr>"
      "m' = m\<lparr>pc := ScanEntry p (off + length buf), segment := Some sg2,
         pendingUpdates := (pendingUpdates m)(key \<mapsto> \<lparr>originalFilePath = p, originalOffset = off,
           originalValSize = vsz, newEntry = ne\<rparr>)\<rparr>"
proof -
  obtain x b1 w1 where 1: "ensureMergeSegmentCapacityLocked sg (length buf) b w = (x, b1, w1)"
    by (metis surj_pair)
  show thesis
  proof (cases x)
    case (Inl e)
    with assms 1 rotate show thesis by (simp add: merge_append_def)
  next
    case (Inr sg1)
    obtain y sg2 w2 where 2: "appendEntry buf key vsz sg1 w1 = (y, sg2, w2)" by (metis surj_pair)
    note run = assms(1) [unfolded merge_append_def prod.case assms(2) option.case 1 Inr sum.case 2 Let_def]
    show thesis
    proof (cases y)
      case (Inl e)
      with run have "w' = w2" by simp
      with run Inl 1 \<open>x = Inr sg1\<close> 2 show thesis by (intro failed [of sg1 b1 w1 e sg2]) simp_all
    next
      case (Inr ne)
      with run have "w' = w2" by simp
      with run Inr 1 \<open>x = Inr sg1\<close> 2 show thesis by (intro appended [of sg1 b1 w1 ne sg2]) simp_all
    qed
  qed
qed

text \<open>The offsets that a merge records in the engine play no part in the invariant.\<close>

lemma offsets_irrelevant [simp]:
  "cask_log (b\<lparr>mergeFileOffset := x, mergeHintFileOffset := y\<rparr>) w L = cask_log b w L"
  "spare_ok (b\<lparr>mergeFileOffset := x, mergeHintFileOffset := y\<rparr>) w = spare_ok b w"
  "seg_ok (b\<lparr>mergeFileOffset := x, mergeHintFileOffset := y\<rparr>) L sg = seg_ok b L sg"
  "files_ok (b\<lparr>mergeFileOffset := x, mergeHintFileOffset := y\<rparr>) ps = files_ok b ps"
  "pend_ok (b\<lparr>mergeFileOffset := x, mergeHintFileOffset := y\<rparr>) L p pend = pend_ok b L p pend"
  "covered (b\<lparr>mergeFileOffset := x, mergeHintFileOffset := y\<rparr>) p off pend = covered b p off pend"
  "cask_map (b\<lparr>mergeFileOffset := x, mergeHintFileOffset := y\<rparr>) w = cask_map b w"
  by (simp_all add: cask_log_def spare_ok_def seg_ok_def files_ok_def pend_ok_def covered_def
      open_ok_def cask_map_def fun_eq_iff)

lemma spare_ok_agree:
  assumes "spare_ok b w" and "\<And>q. q \<noteq> merge_path b (mergeFileCnt b) \<Longrightarrow> q \<noteq> hint_path b (mergeFileCnt b) \<Longrightarrow>
    content w' q = content w q"
  shows "spare_ok b w'"
  using assms by (simp add: spare_ok_def)

text \<open>The log after a record was added at the end of a file that nothing being merged is in.\<close>

lemma cask_map_append:
  assumes "cask_log b w L" and "cask_log b w' (L(p := L p @ [r]))"
  shows "cask_map b w' = cask_map b w"
  by (rule HOL.ext, rule cask_map_eqI [OF assms]) (auto intro: denotes_snoc)

lemma append_step:
  assumes log: "cask_log b w L" and sp: "spare_ok b w" and seg: "seg_ok b L sg"
    and files: "files_ok b (p # ps)" and ok: "pc_ok b L pend (AppendLive p off (enc r) (e_key r) (of_nat (length (e_val r))))"
    and r: "at_log (L p) off r" "small r" "e_flag r = 0"
    and run: "appendEntry (enc r) (e_key r) (of_nat (length (e_val r))) sg w = (Inr ne, sg', w')"
  shows "\<exists>L'. cask_log b w' L' \<and> spare_ok b w' \<and> seg_ok b L' sg' \<and> cask_map b w' = cask_map b w \<and>
    (whole b w L \<longrightarrow> whole b w' L') \<and>
    pc_ok b L' (pend(e_key r \<mapsto> \<lparr>originalFilePath = p, originalOffset = off,
            originalValSize = of_nat (length (e_val r)), newEntry = ne\<rparr>)) (ScanEntry p (off + e_size r))"
proof -
  let ?L = "L(dataPath sg := L (dataPath sg) @ [r])"
  note app = appendEntry_log(2) [OF log seg r(2) run refl]
  have sg: "dataPath sg = merge_path b (mergeFileCnt b)" "hintPath sg = hint_path b (mergeFileCnt b)"
    "dataPath sg \<in> set (filePtrs b)"
    using seg unfolding seg_ok_def by blast+
  have p: "p \<noteq> dataPath sg" using files sg(1) by (simp add: files_ok_def)
  have log': "cask_log b w' ?L" and seg': "seg_ok b ?L sg'" and ne: "denotes ?L (e_key r) ne r"
      "filePath ne = dataPath sg"
    using app r(3) by auto
  have "spare_ok b w'"
    by (rule spare_ok_agree [OF sp]) (use appendEntry_log(3) [OF log seg r(2) run] sg in simp)
  moreover have "cask_map b w' = cask_map b w" by (rule cask_map_append [OF log log'])
  moreover have "pc_ok b ?L pend (AppendLive p off (enc r) (e_key r) (of_nat (length (e_val r))))"
    by (rule pc_ok_mono [OF ok]) (use p in auto)
  then have live: "pend_ok b ?L p pend" "covered b p off pend"
      "\<forall>e. keyDir b (e_key r) = Some e \<and> filePath e = p \<longrightarrow> fileEntryOffset e = off" by auto
  have at: "at_log (?L p) off r" using r(1) p by simp
  ultimately show ?thesis
    using log' seg' app pend_ok_add [OF live(1) at ne(1)] covered_add [OF log' at live(2,3)]
      boundary_next [OF at] ne(2) sg(3) p
    by (intro exI [of _ ?L]) simp
qed

lemma merge_append_log:
  assumes "merge_log s L" and "pc (snd (snd s)) = AppendLive p off buf key vsz"
  shows "\<exists>L'. merge_log (merge_append p off buf key vsz s) L' \<and>
     store_of (merge_append p off buf key vsz s) = store_of s"
proof -
  obtain b w m where s: "s = (b, w, m)" by (cases s)
  obtain b' w' m' where run: "merge_append p off buf key vsz s = (b', w', m')"
    by (cases "merge_append p off buf key vsz s")
  note old = merge_logD [OF assms(1) [unfolded s]]
  have pc: "pc m = AppendLive p off buf key vsz" using assms(2) by (simp add: s)
  have files: "files_ok b (pc_files (pc m) @ immutableFiles m)" by (rule old(4))
  have rest: "files_ok b (immutableFiles m)" by (rule files_ok_tail [OF files])
  show ?thesis
  proof (cases "segment m")
    case None
    then have "merge_append p off buf key vsz s = (b, w, m\<lparr>pc := MergePanic\<rparr>)"
      by (simp add: s merge_append_def)
    with merge_log_quiet [OF assms(1) [unfolded s] refl, of "m\<lparr>pc := MergePanic\<rparr>"] rest s
    show ?thesis by auto
  next
    case (Some sg)
    obtain r where r: "at_log (L p) off r" "small r" "e_flag r = 0"
        "buf = enc r" "key = e_key r" "vsz = of_nat (length (e_val r))"
      using old(5) pc by auto
    obtain x b1 w1 where 1: "ensureMergeSegmentCapacityLocked sg (length buf) b w = (x, b1, w1)"
      by (metis surj_pair)
    obtain L1 where e: "engine_ext b w L b1 w1 L1" and seg1: "\<And>sg'. x = Inr sg' \<Longrightarrow> seg_ok b1 L1 sg'"
      using ensure_log [OF old(1,2) old(3) [OF Some] 1] by blast
    have log1: "cask_log b1 w1 L1" "spare_ok b1 w1" using e by (auto simp: engine_ext_def)
    have map1: "cask_map b1 w1 = cask_map b w" by (rule engine_ext_map [OF e])
    note proc1 = engine_ext_proc [OF e files]
    have files1: "files_ok b1 (p # immutableFiles m)" using proc1(1) pc by simp
    note ok1 = proc1(2) [OF old(5), unfolded pc r(4-6)]
    have at1: "at_log (L1 p) off r" using proc1(3) [of p] pc r(1) by simp
    from run [unfolded s] Some show ?thesis
    proof (cases rule: merge_append_cases)
      case rotate
      with 1 log1 map1 files1 run show ?thesis
        by (intro exI [of _ L1]) (simp add: merge_log_def store_of_def s)
    next
      case (failed sg1 b2 w2 e sg2)
      with 1 have sg1: "seg_ok b1 L1 sg1" and ap: "appendEntry buf key vsz sg1 w1 = (Inl e, sg2, w')"
        and b': "b' = b1\<lparr>mergeFileOffset := dataOffset sg2, mergeHintFileOffset := hintOffset sg2\<rparr>"
        using seg1 by auto
      note a = appendEntry_log [OF log1(1) sg1 r(2) ap [unfolded r(4-6)]]
      have "sg2 = sg1" "cask_log b1 w' L1" using a(1) [OF refl] by auto
      moreover have "spare_ok b1 w'"
        by (rule spare_ok_agree [OF log1(2)]) (use a(3) sg1 in \<open>auto simp: seg_ok_def\<close>)
      moreover have "cask_map b1 w' = cask_map b1 w1"
        by (rule HOL.ext, rule cask_map_eqI [OF log1(1) \<open>cask_log b1 w' L1\<close>]) auto
      ultimately show ?thesis
        using failed(4) b' sg1 files1 map1 run
        by (intro exI [of _ L1]) (simp add: merge_log_def store_of_def s)
    next
      case (appended sg1 b2 w2 ne sg2)
      with 1 have sg1: "seg_ok b1 L1 sg1" and ap: "appendEntry buf key vsz sg1 w1 = (Inr ne, sg2, w')"
        and b': "b' = b1\<lparr>mergeFileOffset := dataOffset sg2, mergeHintFileOffset := hintOffset sg2\<rparr>"
        using seg1 by auto
      from append_step [OF log1 sg1 files1 ok1 at1 r(2,3) ap [unfolded r(4-6)]] obtain L2 where
        "cask_log b1 w' L2" "spare_ok b1 w'" "seg_ok b1 L2 sg2" "cask_map b1 w' = cask_map b1 w1"
        "pc_ok b1 L2 (pendingUpdates m') (ScanEntry p (off + length buf))"
        unfolding appended(4) r(4-6) by auto
      then show ?thesis
        using appended(4) b' files1 map1 run
        by (intro exI [of _ L2]) (simp add: merge_log_def store_of_def s)
    qed
  qed
qed

text \<open>
  Finishing a file: every key that pointed into it points at the copy, so the file can
  go. The hint file that goes with it is never an open data file.
\<close>

lemma apply_pending_cases:
  assumes log: "cask_log b w L" and pend: "pend_ok b L p pend" and cov: "\<And>off. covered b p off pend"
    and e: "apply_pending pend (keyDir b) k = Some e"
  obtains (same) "keyDir b k = Some e" "filePath e \<noteq> p"
  | (moved) cur r where "keyDir b k = Some cur" "denotes L k cur r" "denotes L k e r"
      "filePath e \<in> set (filePtrs b)" "filePath e \<noteq> p"
proof -
  from e obtain cur where cur: "keyDir b k = Some cur"
    by (auto simp: apply_pending_def split: option.splits)
  obtain r where r: "denotes L k cur r" using cask_logD(6) [OF log cur] by blast
  show thesis
  proof (cases "filePath cur = p")
    case True
    obtain u where u: "pend k = Some u" "originalFilePath u = p"
        "originalOffset u = fileEntryOffset cur" "originalValSize u = valueSize cur"
      using cov [of "Suc (fileEntryOffset cur)"] cur True by (auto simp: covered_def)
    obtain r' where r': "at_log (L p) (originalOffset u) r'" "denotes L k (newEntry u) r'"
        "filePath (newEntry u) \<in> set (filePtrs b)" "filePath (newEntry u) \<noteq> p"
      using pend u(1) unfolding pend_ok_def by blast
    have "r' = r" using at_log_unique r r'(1) True u(3) by (auto simp: denotes_def)
    moreover have "e = newEntry u" using e cur u True by (simp add: apply_pending_def)
    ultimately show thesis using moved cur r r' by simp
  next
    case False
    have "e = cur"
      using e cur pend False by (auto simp: apply_pending_def pend_ok_def split: option.splits if_splits)
    with same cur False show thesis by simp
  qed
qed

lemma apply_pending_None: "apply_pending pend kd k = None \<longleftrightarrow> kd k = None"
  by (auto simp: apply_pending_def split: option.splits)

lemma drop_file_log:
  assumes log: "cask_log b w L" and pend: "pend_ok b L p pend" and cov: "\<And>off. covered b p off pend"
    and other: "p \<noteq> active_path b" "q \<in> set (filePtrs b)" "q \<noteq> p"
    and b': "b' = b\<lparr>keyDir := apply_pending pend (keyDir b), filePtrs := removeAll p (filePtrs b)\<rparr>"
    and w': "\<And>q. q \<in> set (filePtrs b) \<Longrightarrow> q \<noteq> p \<Longrightarrow> content w' q = content w q"
  shows "cask_log b' w' L" and "cask_map b' w' = cask_map b w"
proof -
  note old = cask_logD [OF log] and cases' = apply_pending_cases [OF log pend cov]
  show new: "cask_log b' w' L"
  proof (rule cask_logI)
    show "open_ok b'" using old(1) by (auto simp: open_ok_def b')
    show "has_log (content w' f) (L f)" if "f \<in> set (filePtrs b')" for f
      using old(2) [of f] w' [of f] that by (simp add: b')
    show "filePtrs b' = [] \<Longrightarrow> currOffset b' = 0"
      using other(2,3) by (auto simp: b' removeAll_filter_not_eq filter_empty_conv)
    show "length (enc_all (L (active_path b'))) = currOffset b'" if "active_path b' \<in> set (filePtrs b')"
      using old(3) that by (simp add: b')
    fix k e
    assume "keyDir b' k = Some e"
    then have e: "apply_pending pend (keyDir b) k = Some e" by (simp add: b')
    show "filePath e \<in> set (filePtrs b')"
      by (rule cases' [OF e]) (use old(5) in \<open>auto simp: b'\<close>)
    show "\<exists>r. denotes L k e r"
      by (rule cases' [OF e]) (use old(6) in auto)
  qed
  show "cask_map b' w' = cask_map b w"
  proof (rule HOL.ext)
    fix k
    show "cask_map b' w' k = cask_map b w k"
    proof (cases "keyDir b' k")
      case None
      then have "keyDir b k = None" by (simp add: b' apply_pending_None)
      with None show ?thesis by (simp add: cask_map_def)
    next
      case (Some e)
      then have "apply_pending pend (keyDir b) k = Some e" by (simp add: b')
      with log pend cov show ?thesis
      proof (cases rule: apply_pending_cases)
        case same
        with cask_map_eqI [OF log new, of k] Some show ?thesis by simp
      next
        case (moved cur r)
        with cask_map_denotes [OF log, of k cur r] cask_map_denotes [OF new Some, of r] show ?thesis by simp
      qed
    qed
  qed
qed

lemma Remove_contentD: "q \<noteq> p \<Longrightarrow> content (snd (Remove p w)) q = content w q"
  by (rule content_eqI) simp

lemma data_file_last:
  assumes "open_ok b" and "q \<in> set (filePtrs b)"
  shows "q \<noteq> h @ ''.hint''"
proof -
  have "last q = CHR ''a''"
    using assms by (auto simp: open_ok_def data_path_def merge_path_def)
  then show ?thesis by auto
qed

lemma merge_path_last: "merge_path b n \<noteq> h @ ''.hint''"
proof -
  have "last (merge_path b n) = CHR ''a''" by (simp add: merge_path_def)
  then show ?thesis by auto
qed

lemma merge_finish_cases:
  assumes run: "merge_finish p ok (b, w, m) = (b', w', m')" and sg: "segment m = Some sg"
  obtains (kept) "b' = b" "content w' = content w" "m' = m\<lparr>pc := NextFile\<rparr>"
  | (dropped) "ok" "m' = m\<lparr>pc := NextFile\<rparr>"
      "b' = b\<lparr>keyDir := apply_pending (pendingUpdates m) (keyDir b), filePtrs := removeAll p (filePtrs b),
             mergeFileOffset := dataOffset sg, mergeHintFileOffset := hintOffset sg\<rparr>"
      "\<And>q. q \<noteq> p \<Longrightarrow> (\<And>h. q \<noteq> h @ ''.hint'') \<Longrightarrow> content w' q = content w q"
proof -
  obtain x w1 where 1: "seg_sync sg w = (x, w1)" by fastforce
  have w1: "content w1 = content w" by (rule seg_sync_content [OF 1])
  note run' = run [unfolded merge_finish_def prod.case sg option.case 1]
  show thesis
  proof (cases "x = None \<and> ok")
    case False
    then have "b' = b" "w' = w1" "m' = m\<lparr>pc := NextFile\<rparr>"
      using run' by (auto split: option.splits)
    with w1 show thesis by (intro kept) simp_all
  next
    case True
    define w3 where "w3 = snd (Remove p (snd (Close (Some p) w1)))"
    define w4 where "w4 = (if Contains p ''merge'' then snd (Remove (TrimSuffix p ''.data'' @ ''.hint'') w3) else w3)"
    have c3: "content w3 q = content w q" if "q \<noteq> p" for q
      using Remove_contentD [OF that] w1 by (simp add: w3_def)
    have c4: "content w4 q = content w q" if "q \<noteq> p" "\<And>h. q \<noteq> h @ ''.hint''" for q
      using c3 [OF that(1)] Remove_contentD [OF that(2)] by (simp add: w4_def)
    have "w' = w4" "m' = m\<lparr>pc := NextFile\<rparr>"
      "b' = b\<lparr>keyDir := apply_pending (pendingUpdates m) (keyDir b), filePtrs := removeAll p (filePtrs b),
             mergeFileOffset := dataOffset sg, mergeHintFileOffset := hintOffset sg\<rparr>"
      using run' True unfolding w4_def w3_def Let_def by auto
    then show thesis using True c4 by (intro dropped) simp_all
  qed
qed

lemma merge_finish_log:
  assumes "merge_log s L" and "pc (snd (snd s)) = FinishFile p ok"
  shows "merge_log (merge_finish p ok s) L \<and> store_of (merge_finish p ok s) = store_of s"
proof -
  obtain b w m where s: "s = (b, w, m)" by (cases s)
  obtain b' w' m' where run: "merge_finish p ok s = (b', w', m')" by (cases "merge_finish p ok s")
  note old = merge_logD [OF assms(1) [unfolded s]] and quiet = merge_log_quiet [OF assms(1) [unfolded s]]
  have pc: "pc m = FinishFile p ok" using assms(2) by (simp add: s)
  have files: "files_ok b (p # immutableFiles m)" using old(4) pc by simp
  show ?thesis
  proof (cases "segment m")
    case None
    then have "merge_finish p ok s = (b, w, m\<lparr>pc := MergePanic\<rparr>)" by (simp add: s merge_finish_def)
    with quiet [OF refl, of "m\<lparr>pc := MergePanic\<rparr>"] files s show ?thesis by (simp add: files_ok_def)
  next
    case (Some sg)
    note seg = old(3) [OF Some, unfolded seg_ok_def]
    from run [unfolded s] Some show ?thesis
    proof (cases rule: merge_finish_cases)
      case kept
      with quiet [of w' "m\<lparr>pc := NextFile\<rparr>"] files run s show ?thesis by (simp add: files_ok_def)
    next
      case dropped
      let ?b = "b\<lparr>keyDir := apply_pending (pendingUpdates m) (keyDir b), filePtrs := removeAll p (filePtrs b)\<rparr>"
      have pend: "pend_ok b L p (pendingUpdates m)" "\<And>off. covered b p off (pendingUpdates m)"
        using old(5) pc dropped(1) by auto
      have p: "p \<in> set (filePtrs b)" "p \<noteq> active_path b" "p \<noteq> dataPath sg"
        using files seg by (auto simp: files_ok_def)
      have dp: "dataPath sg \<in> set (filePtrs b)" using seg by blast
      have keep: "content w' q = content w q" if "q \<in> set (filePtrs b)" "q \<noteq> p" for q
        by (rule dropped(4) [OF that(2)]) (rule data_file_last [OF cask_logD(1) [OF old(1)] that(1)])
      have "content w' (merge_path b n) = content w (merge_path b n)" if "mergeFileCnt b < n" for n
        using merge_path_fresh [OF cask_logD(1) [OF old(1)] that] p(1)
        by (intro dropped(4) merge_path_last) auto
      with old(2) have "spare_ok ?b w'" by (simp add: spare_ok_def)
      moreover have "seg_ok ?b L sg" using seg p(3) by (auto simp: seg_ok_def)
      moreover have "files_ok ?b (immutableFiles m)" using files by (auto simp: files_ok_def)
      moreover note drop_file_log [OF old(1) pend p(2) dp p(3) [symmetric] refl keep]
      ultimately show ?thesis
        using dropped(2,3) run Some by (simp add: merge_log_def store_of_def s)
    qed
  qed
qed

lemma merge_close_log:
  assumes "merge_log s L"
  shows "merge_log (merge_close s) L \<and> store_of (merge_close s) = store_of s"
proof -
  obtain b w m where s: "s = (b, w, m)" by (cases s)
  have files: "files_ok b (immutableFiles m)"
    using merge_logD(4) [OF assms [unfolded s]] by (rule files_ok_tail)
  note quiet = merge_log_quiet [OF assms [unfolded s]]
  show ?thesis
  proof (cases "segment m")
    case None
    then have "merge_close s = (b, w, m\<lparr>pc := MergePanic\<rparr>)" by (simp add: s merge_close_def)
    with quiet [OF refl, of "m\<lparr>pc := MergePanic\<rparr>"] files s show ?thesis by simp
  next
    case (Some sg)
    then have "merge_close s = (b, snd (closeHint sg w), m\<lparr>pc := MergeDone\<rparr>)"
      by (simp add: s merge_close_def)
    with quiet [of "snd (closeHint sg w)" "m\<lparr>pc := MergeDone\<rparr>"] files s show ?thesis
      by (simp add: closeHint_def)
  qed
qed

lemma merge_step_log:
  assumes "merge_log s L"
  shows "\<exists>L'. merge_log (merge_step s) L' \<and> store_of (merge_step s) = store_of s"
  using merge_next_log [OF assms] merge_scan_log [OF assms] merge_append_log [OF assms]
    merge_finish_log [OF assms] merge_close_log [OF assms] assms
  by (cases "pc (snd (snd s))") (auto simp: merge_step_def)

section \<open>Writes beside a merge\<close>

lemma put_step_log:
  assumes inv: "merge_log (b, w, m) L"
    and small: "small \<lparr>e_ts = now, e_key = k, e_val = v, e_flag = fl\<rparr>"
    and run: "put now k v fl b w = (err, b', w')"
  shows "\<exists>L'. merge_log (b', w', m) L' \<and>
     (cask_map b' w' = upd_spec k v fl (cask_map b w) \<or> err \<noteq> None \<and> cask_map b' w' = cask_map b w)"
proof -
  note old = merge_logD [OF inv]
  from put_log [OF old(1) small run] obtain L' where log: "cask_log b' w' L'" and ext: "log_ext b L L'"
    and map: "cask_map b' w' = upd_spec k v fl (cask_map b w) \<or> err \<noteq> None \<and> cask_map b' w' = cask_map b w"
    by blast
  note fr = put_frame [OF cask_logD(1) [OF old(1)] run, unfolded put_frame_def]
  have paths: "merge_path b' = merge_path b" "hint_path b' = hint_path b"
    using fr by (simp_all add: merge_path_def hint_path_def fun_eq_iff)
  have files: "files_ok b' (pc_files (pc m) @ immutableFiles m)"
    by (rule files_ok_mono [OF old(4)]) (use fr paths in auto)
  have own: "p \<in> set (filePtrs b)" "p \<noteq> active_path b" if "p \<in> set (pc_files (pc m))" for p
    using old(4) that by (auto simp: files_ok_def)
  have pc: "pc_ok b' L' (pendingUpdates m) (pc m)"
  proof (rule pc_ok_mono [OF old(5)])
    show "L' p = L p" if "p \<in> set (pc_files (pc m))" for p
      using ext own [OF that] by (simp add: log_ext_def)
    show "keyDir b k = Some e" if "p \<in> set (pc_files (pc m))" "keyDir b' k = Some e" "filePath e = p" for k e p
      using fr own [OF that(1)] that by auto
  qed (use ext fr in \<open>auto simp: log_ext_def\<close>)
  have "seg_ok b' L' sg" if "segment m = Some sg" for sg
  proof -
    note sg = old(3) [OF that, unfolded seg_ok_def]
    then have "dataPath sg \<in> set (filePtrs b)" "dataPath sg \<noteq> active_path b" by auto
    moreover from this have "L' (dataPath sg) = L (dataPath sg)" using ext by (simp add: log_ext_def)
    ultimately show ?thesis using sg fr paths unfolding seg_ok_def by auto
  qed
  moreover have "spare_ok b' w'" using old(2) fr paths by (simp add: spare_ok_def)
  ultimately show ?thesis using log files pc map by (intro exI [of _ L'] conjI merge_logI)
qed

section \<open>Starting a merge\<close>

text \<open>A log is determined by its bytes, and so is every log that they begin with.\<close>

lemma enc_cancel:
  assumes "small x" and "small y" and "enc x @ a = enc y @ c"
  shows "x = y \<and> a = c"
proof -
  have sizes: "length (e_key x) = length (e_key y)" "length (e_val x) = length (e_val y)"
    using small_sizes [OF assms(1)] small_sizes [OF assms(2)] assms(3)
      hdr_encode(1,2) [of "e_ts x" "e_key x" "e_val x" "e_flag x" a]
      hdr_encode(1,2) [of "e_ts y" "e_key y" "e_val y" "e_flag y" c]
    unfolding enc_def by metis+
  then have "length (enc x) = length (enc y)" by (simp add: e_size_def)
  with assms(3) have "enc x = enc y" and ac: "a = c" by simp_all
  then have "PutUint32 (e_ts x) @ drop 8 (enc x) = PutUint32 (e_ts y) @ drop 8 (enc y)"
    "drop 16 (enc x) = drop 16 (enc y)"
    by (auto simp: enc_def encode_entry_def Let_def)
  then have "PutUint32 (e_ts x) = PutUint32 (e_ts y)" "e_flag x = e_flag y"
    "e_key x @ e_val x = e_key y @ e_val y"
    by (simp_all add: enc_def encode_entry_def Let_def)
  then have "x = y" using sizes by (metis Uint32_PutUint32 append_eq_append_conv entry.equality old.unit.exhaust)
  with ac show ?thesis by simp
qed

lemma enc_all_prefix:
  assumes "\<forall>e \<in> set xs. small e" and "\<forall>e \<in> set ys. small e" and "prefix (enc_all xs) (enc_all ys)"
  shows "prefix xs ys"
  using assms
proof (induction xs arbitrary: ys)
  case (Cons x xs)
  have "enc x \<noteq> []" using e_size_pos(1) [of x] e_size_pos(2) length_enc [of x] by force
  with Cons.prems(3) have "ys \<noteq> []" by (auto simp: prefix_def)
  then obtain y ys' where ys: "ys = y # ys'" by (cases ys) auto
  with Cons.prems(3) obtain t where "enc x @ (enc_all xs @ t) = enc y @ enc_all ys'"
    by (auto simp: prefix_def)
  with enc_cancel [of x y] Cons.prems ys have "x = y" "prefix (enc_all xs) (enc_all ys')"
    by (auto simp: prefix_def)
  with Cons ys show ?case by simp
qed simp

lemma cask_log_grow:
  assumes log: "cask_log b w L" and p: "p \<in> set (filePtrs b)" "p \<noteq> active_path b"
    and es: "\<forall>e \<in> set es. small e" "content w p = enc_all es"
  shows "cask_log b w (L(p := es))"
proof -
  have "prefix (L p) es"
    using cask_logD(2) [OF log p(1)] es by (auto simp: has_log_def intro: enc_all_prefix)
  then have grow: "denotes L k e r \<Longrightarrow> denotes (L(p := es)) k e r" for k e r
    by (rule_tac denotes_prefix) auto
  show ?thesis
    using cask_logD [OF log] p es grow by (intro cask_logI) (auto simp: has_log_def; blast)+
qed

text \<open>The iteration order of a Go map: every key once.\<close>

definition map_order :: "('a list \<Rightarrow> 'a list) \<Rightarrow> bool" where
  "map_order ord \<longleftrightarrow> (\<forall>xs. distinct (ord xs) \<and> set (ord xs) = set xs)"

lemma merge_begin_log:
  assumes log: "cask_log b w L" and sp: "spare_ok b w" and cur: "clean (content w (merge_path b (mergeFileCnt b)))"
    and ord: "map_order ord"
  shows "\<exists>L'. merge_log (merge_begin ord b w) L' \<and> store_of (merge_begin ord b w) = cask_map b w \<and>
     (whole b w L \<longrightarrow> whole (fst (merge_begin ord b w)) (fst (snd (merge_begin ord b w))) L')"
proof -
  let ?p = "merge_path b (mergeFileCnt b)"
  obtain x w1 where 1: "openMergeSegment b (mergeFileCnt b) w = (x, w1)" by fastforce
  note w1 = openMergeSegment_content [OF 1]
  have sp1: "spare_ok b w1" using sp w1 by (simp add: spare_ok_def)
  show ?thesis
  proof (cases x)
    case (Inl e)
    then show ?thesis
      using cask_log_content [OF log w1] sp1 cask_map_cong [OF refl w1] 1
      by (intro exI [of _ L]) (simp add: merge_begin_def merge_log_def store_of_def idle_proc_def files_ok_def w1 whole_def)
  next
    case (Inr sg)
    let ?b = "b\<lparr>filePtrs := List.insert ?p (filePtrs b)\<rparr>"
    note sg = openMergeSegment_InrD [OF 1 [unfolded Inr]]
    obtain es where es: "\<forall>e \<in> set es. small e" "content w ?p = enc_all es"
      using cur by (auto simp: clean_def)
    have "\<exists>L'. cask_log ?b w L' \<and> content w ?p = enc_all (L' ?p) \<and> (\<forall>q. q \<noteq> ?p \<longrightarrow> L' q = L q)"
    proof (cases "?p \<in> set (filePtrs b)")
      case True
      then show ?thesis
        using cask_log_grow [OF log True _ es] es by (intro exI [of _ "L(?p := es)"]) simp
    next
      case False
      with cask_log_segment [OF log cur refl] es(2) show ?thesis by auto
    qed
    then obtain L' where L': "cask_log ?b w L'" "content w ?p = enc_all (L' ?p)"
      and rest: "\<forall>q. q \<noteq> ?p \<longrightarrow> L' q = L q" by blast
    have wh: "whole ?b w1 L'" if "whole b w L"
      using that L'(2) rest w1 by (auto simp: whole_def; metis)
    let ?m = "\<lparr>pc = NextFile, segment = Some sg,
      immutableFiles = filter (\<lambda>p. p \<noteq> active_path b \<and> p \<noteq> dataPath sg) (ord (filePtrs ?b)),
      pendingUpdates = Map.empty\<rparr>"
    have "merge_begin ord b w = (?b, w1, ?m)" using 1 Inr sg by (simp add: merge_begin_def Let_def)
    moreover have "merge_log (?b, w1, ?m) L'"
    proof (rule merge_logI)
      show "cask_log ?b w1 L'" by (rule cask_log_content [OF L'(1) w1])
      show "spare_ok ?b w1" using sp1 by (simp add: spare_ok_def)
      show "seg_ok ?b L' s" if "segment ?m = Some s" for s
        using that sg L'(2) by (simp add: seg_ok_def)
      show "files_ok ?b (pc_files (pc ?m) @ immutableFiles ?m)"
        using ord sg by (auto simp: files_ok_def map_order_def)
    qed simp
    moreover have "cask_map ?b w1 = cask_map b w" by (rule cask_map_cong) (simp_all add: w1)
    ultimately show ?thesis using wh by (auto simp: store_of_def)
  qed
qed

section \<open>The concurrent engine\<close>

text \<open>
  What an observer of the engine sees: the calls with their arguments and results, the
  sections of a merge, and the start of a merge together with the condition of the
  segment that it is going to append to: \<open>Merge\<close> takes the size of that file for the
  end of a log and does not look at its bytes. The second relation is the specification:
  a map, on which a call that returns no error has happened, a failed write has happened
  or not, and a merge is invisible. The state holds one merge, so the next one starts
  when it has ended.
\<close>

definition segment_whole :: "merge_state \<Rightarrow> bool" where
  "segment_whole s \<longleftrightarrow> (case s of (b, w, m) \<Rightarrow> clean (content w (merge_path b (mergeFileCnt b))))"

datatype cask_event =
    EvStart bool
  | EvMerge
  | EvPut bytes bytes "go_error option"
  | EvDelete bytes "go_error option"
  | EvGet bytes "bytes result"

inductive cask_step :: "merge_state \<Rightarrow> cask_event \<Rightarrow> merge_state \<Rightarrow> bool" where
  step_merge: "merge_running s \<Longrightarrow> cask_step s EvMerge (merge_step s)"
| step_start: "pc m = MergeDone \<Longrightarrow> map_order ord \<Longrightarrow>
    cask_step (b, w, m) (EvStart (segment_whole (b, w, m))) (merge_begin ord b w)"
| step_put: "pc m \<noteq> MergePanic \<Longrightarrow> fits k v \<Longrightarrow> Put now k v b w = (err, b', w') \<Longrightarrow>
    cask_step (b, w, m) (EvPut k v err) (b', w', m)"
| step_delete: "pc m \<noteq> MergePanic \<Longrightarrow> fits k [] \<Longrightarrow> Delete now k b w = (err, b', w') \<Longrightarrow>
    cask_step (b, w, m) (EvDelete k err) (b', w', m)"
| step_get: "pc m \<noteq> MergePanic \<Longrightarrow> Get k b w = (r, w') \<Longrightarrow> cask_step (b, w, m) (EvGet k r) (b, w', m)"

fun map_step :: "(bytes \<Rightarrow> bytes option) \<Rightarrow> cask_event \<Rightarrow> (bytes \<Rightarrow> bytes option) \<Rightarrow> bool" where
  "map_step M (EvStart ok) M' = (M' = M)"
| "map_step M EvMerge M' = (M' = M)"
| "map_step M (EvPut k v err) M' = (M' = M(k \<mapsto> v) \<or> err \<noteq> None \<and> M' = M)"
| "map_step M (EvDelete k err) M' = (M' = M(k := None) \<or> err \<noteq> None \<and> M' = M)"
| "map_step M (EvGet k r) M' = (M' = M \<and> (r = get_spec M k \<or> r = Inl EIO))"

definition cask_init :: "merge_state \<Rightarrow> bool" where
  "cask_init s \<longleftrightarrow> (case s of (b, w, m) \<Rightarrow> b = New \<and> m = idle_proc MergeDone \<and>
     (\<forall>n > 1. clean (content w (merge_path New n))))"

definition merge_inv :: "merge_state \<Rightarrow> bool" where
  "merge_inv s \<longleftrightarrow> (\<exists>L. merge_log s L)"

text \<open>A step other than the start of a merge on a damaged segment.\<close>

definition sound_step :: "merge_state \<Rightarrow> cask_event \<Rightarrow> merge_state \<Rightarrow> bool" where
  "sound_step s ev t \<longleftrightarrow> cask_step s ev t \<and> ev \<noteq> EvStart False"

lemma run_sound:
  assumes "run cask_step s events t" and "EvStart False \<notin> set events"
  shows "run sound_step s events t"
  using assms by (induction rule: run.induct) (auto simp: sound_step_def intro: run.intros)

lemma cask_step_sound:
  assumes "cask_step s ev t" and "ev \<noteq> EvStart False" and "merge_inv s"
  shows "merge_inv t \<and> map_step (store_of s) ev (store_of t)"
  using assms(1)
proof (cases rule: cask_step.cases)
  case step_merge
  from assms(3) obtain L where "merge_log s L" by (auto simp: merge_inv_def)
  from merge_step_log [OF this] show ?thesis unfolding step_merge merge_inv_def by auto
next
  case (step_start m ord b w)
  from assms(3) obtain L where "cask_log b w L" "spare_ok b w"
    by (auto simp: step_start merge_inv_def merge_log_def)
  moreover have "clean (content w (merge_path b (mergeFileCnt b)))"
    using assms(2) by (simp add: step_start segment_whole_def)
  ultimately show ?thesis
    using merge_begin_log [of b w L ord] step_start(5) by (auto simp: step_start merge_inv_def store_of_def)
next
  case (step_put m k v now b w err b' w')
  from assms(3) obtain L where L: "merge_log (b, w, m) L" by (auto simp: step_put merge_inv_def)
  from put_step_log [OF L fits_small [OF step_put(5)] step_put(6) [unfolded Put_def]] show ?thesis
    by (auto simp: step_put merge_inv_def store_of_def upd_spec_def)
next
  case (step_delete m k now b w err b' w')
  from assms(3) obtain L where L: "merge_log (b, w, m) L" by (auto simp: step_delete merge_inv_def)
  from put_step_log [OF L fits_small [OF step_delete(5)] step_delete(6) [unfolded Delete_def]] show ?thesis
    by (auto simp: step_delete merge_inv_def store_of_def upd_spec_def)
next
  case (step_get m k b w r w')
  from assms(3) obtain L where L: "merge_log (b, w, m) L" by (auto simp: step_get merge_inv_def)
  have w': "content w' = content w" using Get_fs [of k b w] step_get(5) by (intro content_fsD) simp
  have "merge_log (b, w', m) L" "cask_map b w' = cask_map b w"
    using merge_log_quiet [OF L w' refl merge_logD(4,5) [OF L]] by (auto simp: store_of_def)
  moreover have "r = get_spec (cask_map b w) k \<or> r = Inl EIO"
    using Get_result [OF merge_logD(1) [OF L], of k] step_get(5) by auto
  ultimately show ?thesis
    unfolding step_get(1-3) by (auto simp: merge_inv_def store_of_def)
qed

lemma cask_init_inv:
  assumes "cask_init s"
  shows "merge_inv s"
proof -
  obtain w where s: "s = (New, w, idle_proc MergeDone)" and sp: "\<forall>n > 1. clean (content w (merge_path New n))"
    using assms by (auto simp: cask_init_def split: prod.splits)
  from sp have "merge_log s (\<lambda>_. [])"
    using New_inv [of w] by (simp add: s merge_log_def idle_proc_def spare_ok_def files_ok_def)
  then show ?thesis unfolding merge_inv_def by blast
qed

interpretation cask_sys: refinement cask_init sound_step merge_inv store_of map_step
  by unfold_locales (use cask_init_inv cask_step_sound in \<open>auto simp: sound_step_def\<close>)

section \<open>Properties\<close>

lemma store_of_init: "cask_init s \<Longrightarrow> store_of s = Map.empty"
  by (auto simp: cask_init_def store_of_def split: prod.splits)

text \<open>
  C1. The engine with a merge running beside it refines a map. Start a new engine in a
  directory whose later merge files are whole logs, let any number of goroutines call
  \<open>Put\<close>, \<open>Delete\<close> and \<open>Get\<close> between any two atomic sections of any number of
  merges, one after the other, and let any of their system calls fail. As long as every
  merge starts on a segment that is a whole log, what the calls return is what a map
  returns on which every call that reported success took effect, a failed write took
  effect or not, and merging did nothing. A failed write to a merge segment can break the
  condition, and the engine can then lose a key (theory \<open>Bitcask_Damage\<close>).
\<close>

theorem cask_refines_map:
  assumes "cask_init s" and "run cask_step s events t" and "EvStart False \<notin> set events"
  shows "run map_step Map.empty events (store_of t)"
  using cask_sys.init_refines [OF assms(1) run_sound [OF assms(2,3)]] store_of_init [OF assms(1)] by simp

theorem cask_refines_map_witness:
  "\<exists>t. run cask_step (New, empty_os, idle_proc MergeDone)
         [EvPut [107] [118] None, EvGet [107] (Inr [118]), EvStart True] t \<and>
       run map_step Map.empty [EvPut [107] [118] None, EvGet [107] (Inr [118]), EvStart True] (store_of t)"
proof -
  let ?m = "idle_proc MergeDone" and ?k = "[107] :: bytes" and ?v = "[118] :: bytes"
  have pc: "pc ?m = MergeDone" by (simp add: idle_proc_def)
  have init: "cask_init (New, empty_os, ?m)" by (simp add: cask_init_def clean_Nil)
  obtain b w where put: "Put 0 ?k ?v New empty_os = (None, b, w)" and f: "faults w = []"
    using put_ok [of empty_os New 0 ?k ?v 0] by (auto simp: Put_def writable_def)
  have s1: "cask_step (New, empty_os, ?m) (EvPut ?k ?v None) (b, w, ?m)"
    by (rule step_put [OF _ _ put]) (simp_all add: pc fits_def headerSize_def)
  obtain L where L: "merge_log (b, w, ?m) L" and map: "cask_map b w ?k = Some ?v"
    using cask_step_sound [OF s1 _ cask_init_inv [OF init]] store_of_init [OF init]
    by (auto simp: merge_inv_def store_of_def)
  obtain w' where get: "Get ?k b w = (Inr ?v, w')"
    using Get_result [OF merge_logD(1) [OF L], of ?k] f map
    by (cases "Get ?k b w") (auto simp: get_spec_def)
  have s2: "cask_step (b, w, ?m) (EvGet ?k (Inr ?v)) (b, w', ?m)"
    by (rule step_get [OF _ get]) (simp add: pc)
  have "content w' = content w" using Get_fs [of ?k b w] get by (intro content_fsD) simp
  then have "segment_whole (b, w', ?m)"
    using put_frame [of New 0 ?k ?v 0 empty_os None b w] put cask_logD(1) [OF New_inv]
    by (auto simp: Put_def put_frame_def merge_path_def clean_Nil segment_whole_def)
  then have s3: "cask_step (b, w', ?m) (EvStart True) (merge_begin remdups b w')"
    using step_start [of ?m remdups b w'] pc by (simp add: map_order_def)
  have "run cask_step (New, empty_os, ?m) [EvPut ?k ?v None, EvGet ?k (Inr ?v), EvStart True] (merge_begin remdups b w')"
    by (rule run_Cons, rule s1, rule run_Cons, rule s2, rule run_Cons, rule s3, rule run_Nil)
  moreover from cask_refines_map [OF init this]
  have "run map_step Map.empty [EvPut ?k ?v None, EvGet ?k (Inr ?v), EvStart True] (store_of (merge_begin remdups b w'))"
    by simp
  ultimately show ?thesis by blast
qed

end
