(* ===== verification/Bitcask_Compact.thy ===== *)
theory Bitcask_Compact
  imports Bitcask_Concurrent
begin

text \<open>
  A merge of src/bitcask/main.go that runs alone and without I/O faults: it ends, it
  copies every file it set out to merge and removes it, and the engine goes on as a
  key-value store. The offset grows with every record of a whole log, which bounds the
  scanning loop.
\<close>

section \<open>Without faults\<close>

lemma content_upd_same [simp]: "content (w\<lparr>fs := (fs w)(p \<mapsto> content w p)\<rparr>) = content w"
  by (auto simp: content_def fun_eq_iff)

lemma seg_sync_ok: "faults w = [] \<Longrightarrow> seg_sync sg w = (None, w)"
  by (simp add: seg_sync_def go_simps)

lemma open_segment_files_ok:
  "faults w = [] \<Longrightarrow> \<exists>sg w'. open_segment_files b n ex w = (Inr sg, w') \<and> faults w' = []"
  by (simp add: open_segment_files_def Let_def go_simps)

lemma openMergeSegment_ok:
  assumes "faults w = []"
  shows "\<exists>sg w'. openMergeSegment b n w = (Inr sg, w') \<and> faults w' = []"
proof -
  have "Stat p w = (case fs w p of None \<Rightarrow> (Inl ErrNotExist, w) | Some c \<Rightarrow> (Inr (length c), w))" for p
    using assms by (simp add: Stat_def)
  then show ?thesis
    using open_segment_files_ok [OF assms, of b n]
    by (auto simp: openMergeSegment_def split: option.splits)
qed

lemma ensure_ok:
  assumes "faults w = []"
  shows "\<exists>sg' b' w'. ensureMergeSegmentCapacityLocked sg n b w = (Inr sg', b', w') \<and> faults w' = []"
proof -
  obtain sg' w' where "openMergeSegment (b\<lparr>mergeFileCnt := mergeFileCnt b + 1\<rparr>) (mergeFileCnt b + 1) w =
      (Inr sg', w')" "faults w' = []"
    using openMergeSegment_ok [OF assms] by blast
  with assms show ?thesis
    by (auto simp: ensureMergeSegmentCapacityLocked_def rotateMergeSegmentLocked_def seg_sync_ok
        closeHint_def go_simps Let_def)
qed

lemma appendEntry_ok:
  "faults w = [] \<Longrightarrow> \<exists>ne sg' w'. appendEntry buf k vsz sg w = (Inr ne, sg', w') \<and> faults w' = []"
  by (simp add: appendEntry_def Let_def go_simps)

lemma Remove_faults: "faults w = [] \<Longrightarrow> faults (snd (Remove p w)) = []"
  by (simp add: Remove_def)

section \<open>Progress\<close>

text \<open>What a merge without faults keeps, beside the invariant of the merge.\<close>

definition tidy :: "BitCask \<Rightarrow> os \<Rightarrow> bool" where
  "tidy b w \<longleftrightarrow> (\<forall>n > fileCnt b. content w (data_path b n) = [])"

definition seq_log :: "merge_state \<Rightarrow> (string \<Rightarrow> entry list) \<Rightarrow> bool" where
  "seq_log s L \<longleftrightarrow> merge_log s L \<and> (case s of (b, w, m) \<Rightarrow>
     whole b w L \<and> tidy b w \<and> faults w = [] \<and> segment m \<noteq> None \<and> pc m \<noteq> MergePanic \<and>
     (\<forall>p. pc m \<noteq> FinishFile p False) \<and>
     (pc m = Closing \<or> pc m = MergeDone \<longrightarrow> immutableFiles m = []))"

text \<open>The work left: the bytes of the files to come, and the unread part of this one.\<close>

fun pc_rank :: "os \<Rightarrow> merge_pc \<Rightarrow> nat" where
  "pc_rank w NextFile = 2"
| "pc_rank w (ScanEntry p off) = 2 * (length (content w p) - off) + 5"
| "pc_rank w (AppendLive p off buf key vsz) = 2 * (length (content w p) - off) + 4"
| "pc_rank w (FinishFile p ok) = 3"
| "pc_rank w Closing = 1"
| "pc_rank w _ = 0"

definition merge_rank :: "merge_state \<Rightarrow> nat" where
  "merge_rank s = (case s of (b, w, m) \<Rightarrow>
     pc_rank w (pc m) + (\<Sum>p \<leftarrow> immutableFiles m. 2 * length (content w p) + 4))"

text \<open>The files that may be open: the active one, segments from \<open>n0\<close> on, and those left to merge.\<close>

definition remaining :: "nat \<Rightarrow> merge_state \<Rightarrow> bool" where
  "remaining n0 s \<longleftrightarrow> (case s of (b, w, m) \<Rightarrow> n0 \<le> mergeFileCnt b \<and>
     (\<forall>p \<in> set (filePtrs b). p = active_path b \<or> (\<exists>n \<ge> n0. p = merge_path b n) \<or>
        p \<in> set (pc_files (pc m) @ immutableFiles m)) \<and> active_path b \<in> set (filePtrs b))"

definition seq_ok :: "nat \<Rightarrow> (bytes \<Rightarrow> bytes option) \<Rightarrow> string \<Rightarrow> merge_state \<Rightarrow> bool" where
  "seq_ok n0 M act s \<longleftrightarrow> (\<exists>L. seq_log s L) \<and> store_of s = M \<and> remaining n0 s \<and> active_path (fst s) = act"

lemma remaining_proc:
  assumes "remaining n0 (b, w, m)"
    and "set (pc_files (pc m') @ immutableFiles m') = set (pc_files (pc m) @ immutableFiles m)"
  shows "remaining n0 (b, w', m')"
  using assms(1) unfolding remaining_def prod.case assms(2) .

text \<open>The rank depends only on the bytes of the files that are left to merge.\<close>

lemma rank_files_cong:
  assumes "\<And>p. p \<in> set (immutableFiles m) \<Longrightarrow> content w' p = content w p"
  shows "(\<Sum>p \<leftarrow> immutableFiles m. 2 * length (content w' p) + 4) =
         (\<Sum>p \<leftarrow> immutableFiles m. 2 * length (content w p) + (4::nat))"
  using assms by (intro arg_cong [where f = sum_list] map_cong) simp_all

lemma seq_next:
  assumes "seq_ok n0 M act s" and "pc (snd (snd s)) = NextFile"
  shows "seq_ok n0 M act (merge_next s) \<and> merge_rank (merge_next s) < merge_rank s"
proof -
  obtain b w m where s: "s = (b, w, m)" by (cases s)
  obtain L where L: "seq_log s L" using assms(1) by (auto simp: seq_ok_def)
  then have log: "merge_log s L" by (simp add: seq_log_def)
  have files: "files_ok b (immutableFiles m)"
    using merge_logD(4) [OF log [unfolded s]] by (rule files_ok_tail)
  obtain m' where run: "merge_next s = (b, w, m')" and m': "segment m' = segment m"
      "set (pc_files (pc m') @ immutableFiles m') = set (immutableFiles m)" "pc m' \<noteq> MergePanic"
      "\<And>p. pc m' \<noteq> FinishFile p False" "merge_rank (b, w, m') < merge_rank s"
      "pc m' = Closing \<or> pc m' = MergeDone \<longrightarrow> immutableFiles m' = []"
  proof (cases "immutableFiles m")
    case Nil
    then show ?thesis
      using that [of "m\<lparr>pc := Closing\<rparr>"] assms(2) by (simp add: s merge_next_def merge_rank_def)
  next
    case (Cons p ps)
    with files have "p \<in> set (filePtrs b)" by (simp add: files_ok_def)
    with Cons show ?thesis
      using that [of "m\<lparr>pc := ScanEntry p 0, immutableFiles := ps, pendingUpdates := Map.empty\<rparr>"] assms(2)
      by (simp add: s merge_next_def merge_rank_def)
  qed
  have "seq_log (b, w, m') L"
    using L merge_next_log [OF log assms(2)] m' run by (simp add: seq_log_def s)
  moreover have "remaining n0 (b, w, m')"
    by (rule remaining_proc [of _ b w m]) (use assms m'(2) in \<open>simp_all add: seq_ok_def s\<close>)
  ultimately show ?thesis
    using assms(1) merge_next_log [OF log assms(2)] run m'(5) by (auto simp: seq_ok_def s)
qed

text \<open>One turn of the scanning loop on a whole log.\<close>

lemma scan_live_pc:
  "(scan_live p off ks vs buf b = MergePanic) \<or> (\<exists>k. scan_live p off ks vs buf b = AppendLive p off buf k vs) \<or>
   scan_live p off ks vs buf b = ScanEntry p (off + length buf)"
  by (auto simp: scan_live_def Let_def split: option.splits)

lemma scan_step:
  assumes log: "cask_log b w L" and wh: "whole b w L" and f: "faults w = []" and p: "p \<in> set (filePtrs b)"
    and ok: "pc_ok b L (pendingUpdates m) (ScanEntry p off)"
  shows "\<exists>c. merge_scan p off (b, w, m) = (b, w, m\<lparr>pc := c\<rparr>) \<and> pc_files c = [p] \<and>
     c \<noteq> FinishFile p False \<and> pc_rank w c < pc_rank w (ScanEntry p off)"
proof -
  from ok have ok': "pend_ok b L p (pendingUpdates m)" "covered b p off (pendingUpdates m)" "boundary (L p) off" by auto
  from ok'(3) consider (rec) r where "at_log (L p) off r" | (tail) "length (content w p) \<le> off"
    using wh p by (auto simp: boundary_def whole_def)
  then show ?thesis
  proof cases
    case rec
    note rd = scan_reads [OF log p rec]
    have n: "unat (17 + hdr_ksz (chunk off 17 (content w p)) + hdr_vsz (chunk off 17 (content w p))) = e_size r"
      using small_sizes(3) [OF rd(1)] rd(4,5) by simp
    have pos: "0 < e_size r" and hd: "off + 17 \<le> length (content w p)"
      using e_size_pos(1) [of r] rd(2) by (simp_all add: headerSize_def)
    let ?c = "if e_flag r = 0 then scan_live p off (of_nat (length (e_key r))) (of_nat (length (e_val r))) (enc r) b
      else ScanEntry p (off + e_size r)"
    have run: "merge_scan p off (b, w, m) = (b, w, m\<lparr>pc := ?c\<rparr>)"
      using rd hd pos n f by (simp add: merge_scan_def go_simps Let_def)
    have files: "pc_files ?c = [p]"
      using scan_live_record [OF log rec rd(1) _ ok'(1,2)] by simp
    have "?c = ScanEntry p (off + e_size r) \<or> (\<exists>k v. ?c = AppendLive p off (enc r) k v)"
      using files scan_live_pc [of p off "of_nat (length (e_key r))" "of_nat (length (e_val r))" "enc r" b]
      by (cases "e_flag r = 0") auto
    then have "?c \<noteq> FinishFile p False" "pc_rank w ?c < pc_rank w (ScanEntry p off)"
      using pos rd(2) by auto
    with run files show ?thesis by blast
  next
    case tail
    then have "merge_scan p off (b, w, m) = (b, w, m\<lparr>pc := FinishFile p True\<rparr>)"
      using f by (simp add: merge_scan_def go_simps)
    then show ?thesis by (intro exI [of _ "FinishFile p True"]) simp
  qed
qed

lemma seq_scan:
  assumes "seq_ok n0 M act s" and pc': "pc (snd (snd s)) = ScanEntry p off"
  shows "seq_ok n0 M act (merge_scan p off s) \<and> merge_rank (merge_scan p off s) < merge_rank s"
proof -
  obtain b w m where s: "s = (b, w, m)" by (cases s)
  obtain L where L: "seq_log s L" using assms(1) by (auto simp: seq_ok_def)
  then have log: "merge_log s L" and wh: "whole b w L" "faults w = []" by (simp_all add: seq_log_def s)
  have pc: "pc m = ScanEntry p off" using pc' by (simp add: s)
  note old = merge_logD [OF log [unfolded s]]
  have p: "p \<in> set (filePtrs b)" using old(4) pc by (simp add: files_ok_def)
  from scan_step [OF old(1) wh p old(5) [unfolded pc]] obtain c where
    c: "merge_scan p off (b, w, m) = (b, w, m\<lparr>pc := c\<rparr>)" "pc_files c = [p]" "c \<noteq> FinishFile p False"
      "pc_rank w c < pc_rank w (ScanEntry p off)" by blast
  have c': "c \<noteq> MergePanic" "c \<noteq> FinishFile q False" "c \<noteq> Closing" "c \<noteq> MergeDone" for q
    using c(2,3) by (cases c; auto)+
  have "seq_log (b, w, m\<lparr>pc := c\<rparr>) L"
    using L merge_scan_log [OF log pc'] c(1) c' by (simp add: seq_log_def s)
  moreover have "remaining n0 (b, w, m\<lparr>pc := c\<rparr>)"
    by (rule remaining_proc [of _ b w m]) (use assms(1) c(2) pc in \<open>simp_all add: seq_ok_def s\<close>)
  moreover have "merge_rank (b, w, m\<lparr>pc := c\<rparr>) < merge_rank s"
    using c(4) pc by (simp add: merge_rank_def s)
  ultimately show ?thesis
    using assms(1) merge_scan_log [OF log pc'] c(1) by (auto simp: seq_ok_def s)
qed

text \<open>Appending without faults: the record is copied and the scan moves on.\<close>

lemma append_frame:
  assumes "engine_ext b w L b1 w1 L1" and "seg_ok b1 L1 sg1" and "cask_log b1 w1 L1" and "small r"
    and "appendEntry (enc r) (e_key r) (of_nat (length (e_val r))) sg1 w1 = (res, sg2, w2)"
    and "q \<noteq> merge_path b1 (mergeFileCnt b1)" and "q \<noteq> hint_path b1 (mergeFileCnt b1)"
  shows "content w2 q = content w q"
  using appendEntry_log(3) [OF assms(3,2,4,5), of q] assms(1,2,6,7)
  by (simp add: seg_ok_def engine_ext_def)

lemma ensure_frame:
  assumes "ensureMergeSegmentCapacityLocked sg n b w = (res, b', w')"
  shows "fileBasePath b' = fileBasePath b \<and> fileCnt b' = fileCnt b \<and> mergeFileCnt b \<le> mergeFileCnt b' \<and>
     (\<forall>p \<in> set (filePtrs b'). p \<in> set (filePtrs b) \<or> p = merge_path b' (mergeFileCnt b'))"
proof (cases "dataOffset sg + n \<le> maxFileSizeBytes b")
  case True
  with assms show ?thesis by (auto simp: ensureMergeSegmentCapacityLocked_def)
next
  case False
  with assms have "rotateMergeSegmentLocked sg b w = (res, b', w')"
    by (simp add: ensureMergeSegmentCapacityLocked_def)
  then show ?thesis
  proof (cases rule: rotate_cases)
    case (opened w2 sg')
    with openMergeSegment_InrD [OF opened(3)] show ?thesis by auto
  qed auto
qed

lemma seq_append:
  assumes "seq_ok n0 M act s" and pc': "pc (snd (snd s)) = AppendLive p off buf key vsz"
  shows "seq_ok n0 M act (merge_append p off buf key vsz s) \<and>
         merge_rank (merge_append p off buf key vsz s) < merge_rank s"
proof -
  obtain b w m where s: "s = (b, w, m)" by (cases s)
  obtain L where L: "seq_log s L" using assms(1) by (auto simp: seq_ok_def)
  then obtain sg where log: "merge_log s L" and wh: "whole b w L" "tidy b w" "faults w = []"
    and Some: "segment m = Some sg" by (auto simp: seq_log_def s)
  have pc: "pc m = AppendLive p off buf key vsz" using pc' by (simp add: s)
  note old = merge_logD [OF log [unfolded s]]
  obtain r where r: "at_log (L p) off r" "small r" "e_flag r = 0"
      "buf = enc r" "key = e_key r" "vsz = of_nat (length (e_val r))"
    using old(5) pc by auto
  obtain sg1 b1 w1 where 1: "ensureMergeSegmentCapacityLocked sg (length buf) b w = (Inr sg1, b1, w1)"
    and f1: "faults w1 = []" using ensure_ok [OF wh(3)] by blast
  obtain ne sg2 w2 where 2: "appendEntry buf key vsz sg1 w1 = (Inr ne, sg2, w2)" and f2: "faults w2 = []"
    using appendEntry_ok [OF f1] by blast
  let ?b = "b1\<lparr>mergeFileOffset := dataOffset sg2, mergeHintFileOffset := hintOffset sg2\<rparr>"
  let ?m = "m\<lparr>pc := ScanEntry p (off + length buf), segment := Some sg2,
    pendingUpdates := (pendingUpdates m)(key \<mapsto> \<lparr>originalFilePath = p, originalOffset = off,
      originalValSize = vsz, newEntry = ne\<rparr>)\<rparr>"
  have run: "merge_append p off buf key vsz s = (?b, w2, ?m)"
    using 1 2 Some by (simp add: s merge_append_def Let_def)
  obtain L1 where e: "engine_ext b w L b1 w1 L1" and seg1: "seg_ok b1 L1 sg1"
    using ensure_log [OF old(1,2) old(3) [OF Some] 1] by blast
  have log1: "cask_log b1 w1 L1" "spare_ok b1 w1" "whole b1 w1 L1"
    using e wh(1) by (auto simp: engine_ext_def)
  note proc1 = engine_ext_proc [OF e old(4)]
  have files1: "files_ok b1 (p # immutableFiles m)" using proc1(1) pc by simp
  have at1: "at_log (L1 p) off r" using proc1(3) [of p] pc r(1) by simp
  from append_step [OF log1(1,2) seg1 files1 proc1(2) [OF old(5), unfolded pc r(4-6)] at1 r(2,3) 2 [unfolded r(4-6)]]
  obtain L2 where L2: "cask_log b1 w2 L2" "spare_ok b1 w2" "seg_ok b1 L2 sg2" "cask_map b1 w2 = cask_map b1 w1"
      "whole b1 w2 L2" "pc_ok b1 L2 (pendingUpdates ?m) (ScanEntry p (off + length buf))"
    using log1(3) unfolding r(4-6) by auto
  note frame = append_frame [OF e seg1 log1(1) r(2) 2 [unfolded r(4-6)]] and ef = ensure_frame [OF 1]
  have paths: "data_path b1 = data_path b" "merge_path b1 = merge_path b" "hint_path b1 = hint_path b"
    using ef by (simp_all add: data_path_def merge_path_def hint_path_def fun_eq_iff)
  have same: "content w2 q = content w q" if "q \<in> set (p # immutableFiles m)" for q
  proof (rule frame)
    have q: "q \<in> set (filePtrs b1)" "q \<noteq> merge_path b1 (mergeFileCnt b1)"
      using files1 that unfolding files_ok_def by blast+
    then show "q \<noteq> merge_path b1 (mergeFileCnt b1)" "q \<noteq> hint_path b1 (mergeFileCnt b1)"
      using cask_logD(1) [OF log1(1)] by (auto simp: open_ok_def)
  qed
  have tidy2: "tidy ?b w2"
    using wh(2) frame ef by (simp add: tidy_def paths)
  have "merge_log (?b, w2, ?m) L2"
    using L2 files1 by (simp add: merge_log_def)
  then have "seq_log (?b, w2, ?m) L2"
    using tidy2 L2(5) f2 by (simp add: seq_log_def whole_def)
  moreover have "remaining n0 (?b, w2, ?m)"
    using assms(1) ef e pc unfolding seq_ok_def s remaining_def prod.case engine_ext_def
    by (auto simp: paths)
  moreover have "store_of (?b, w2, ?m) = M"
    using assms(1) L2(4) engine_ext_map [OF e] by (simp add: seq_ok_def s store_of_def)
  moreover have "merge_rank (?b, w2, ?m) < merge_rank s"
    using rank_files_cong [of m w2 w] same at_log_end [OF r(1)] wh(1) e_size_pos(1) [of r] files1 r(4)
      scan_reads(2) [OF old(1) _ r(1)] old(4) pc
    by (simp add: merge_rank_def s files_ok_def headerSize_def)
  ultimately show ?thesis
    using assms(1) run ef by (auto simp: seq_ok_def s paths)
qed

text \<open>Finishing a file removes it and nothing else.\<close>

lemma finish_run:
  assumes "faults w = []" and "segment m = Some sg"
  shows "\<exists>b' w'. merge_finish p True (b, w, m) = (b', w', m\<lparr>pc := NextFile\<rparr>) \<and> faults w' = [] \<and>
     b' = b\<lparr>keyDir := apply_pending (pendingUpdates m) (keyDir b), filePtrs := removeAll p (filePtrs b),
             mergeFileOffset := dataOffset sg, mergeHintFileOffset := hintOffset sg\<rparr> \<and>
     (\<forall>q. q \<noteq> p \<and> (\<forall>h. q \<noteq> h @ ''.hint'') \<longrightarrow> content w' q = content w q)"
proof -
  obtain b' w' m' where run: "merge_finish p True (b, w, m) = (b', w', m')"
    by (cases "merge_finish p True (b, w, m)")
  have "faults w' = []"
    using run assms by (auto simp: merge_finish_def seg_sync_ok Remove_faults go_simps Let_def)
  moreover have "filePtrs b' = removeAll p (filePtrs b)" "keyDir b' = apply_pending (pendingUpdates m) (keyDir b)"
    using run assms by (auto simp: merge_finish_def seg_sync_ok Let_def)
  ultimately show ?thesis
    using run assms(2) [THEN merge_finish_cases [OF run], of ?thesis]
    by (auto simp: merge_finish_def seg_sync_ok assms Let_def)
qed

lemma seq_finish:
  assumes "seq_ok n0 M act s" and pc': "pc (snd (snd s)) = FinishFile p ok"
  shows "seq_ok n0 M act (merge_finish p ok s) \<and> merge_rank (merge_finish p ok s) < merge_rank s"
proof -
  obtain b w m where s: "s = (b, w, m)" by (cases s)
  obtain L where L: "seq_log s L" using assms(1) by (auto simp: seq_ok_def)
  have pc: "pc m = FinishFile p ok" using pc' by (simp add: s)
  with L obtain sg where log: "merge_log s L" and wh: "whole b w L" "tidy b w" "faults w = []"
    and Some: "segment m = Some sg" and ok: "ok = True" by (auto simp: seq_log_def s)
  note old = merge_logD [OF log [unfolded s]]
  have files: "files_ok b (p # immutableFiles m)" using old(4) pc by simp
  have open_p: "p \<in> set (filePtrs b)" using files by (simp add: files_ok_def)
  obtain b' w' where run: "merge_finish p ok s = (b', w', m\<lparr>pc := NextFile\<rparr>)" and f: "faults w' = []"
    and b': "b' = b\<lparr>keyDir := apply_pending (pendingUpdates m) (keyDir b), filePtrs := removeAll p (filePtrs b),
             mergeFileOffset := dataOffset sg, mergeHintFileOffset := hintOffset sg\<rparr>"
    and keep: "\<And>q. q \<noteq> p \<Longrightarrow> (\<And>h. q \<noteq> h @ ''.hint'') \<Longrightarrow> content w' q = content w q"
    using finish_run [OF wh(3) Some, of p b] unfolding s ok by blast
  note log' = merge_finish_log [OF log pc']
  have same: "content w' q = content w q" if "q \<in> set (filePtrs b)" "q \<noteq> p" for q
    by (rule keep [OF that(2)]) (rule data_file_last [OF cask_logD(1) [OF old(1)] that(1)])
  have "whole b' w' L" using wh(1) same by (simp add: whole_def b')
  moreover have "tidy b' w'"
    unfolding tidy_def
  proof (intro allI impI)
    fix n
    assume "fileCnt b' < n"
    then have n: "fileCnt b < n" and "data_path b n \<noteq> p"
      using open_p cask_logD(1) [OF old(1)] by (auto simp: b' open_ok_def)
    moreover have "last (data_path b n) = CHR ''a''" by (simp add: data_path_def)
    then have "data_path b n \<noteq> h @ ''.hint''" for h by auto
    ultimately show "content w' (data_path b' n) = []"
      using wh(2) keep by (simp add: tidy_def b')
  qed
  ultimately have "seq_log (b', w', m\<lparr>pc := NextFile\<rparr>) L"
    using log' run f Some by (simp add: seq_log_def)
  moreover have "remaining n0 (b', w', m\<lparr>pc := NextFile\<rparr>)"
    using assms(1) files pc unfolding seq_ok_def s remaining_def prod.case b' files_ok_def by auto
  moreover have "merge_rank (b', w', m\<lparr>pc := NextFile\<rparr>) < merge_rank s"
  proof -
    have "content w' q = content w q" if "q \<in> set (immutableFiles m)" for q
      by (rule same) (use files that in \<open>auto simp: files_ok_def\<close>)
    from rank_files_cong [of m, OF this] show ?thesis using pc by (simp add: merge_rank_def s)
  qed
  ultimately show ?thesis
    using assms(1) run log' by (auto simp: seq_ok_def s b')
qed

lemma seq_close:
  assumes "seq_ok n0 M act s" and pc': "pc (snd (snd s)) = Closing"
  shows "seq_ok n0 M act (merge_close s) \<and> merge_rank (merge_close s) < merge_rank s"
proof -
  obtain b w m where s: "s = (b, w, m)" by (cases s)
  obtain L sg where L: "seq_log s L" and sg: "segment m = Some sg" and f: "faults w = []"
    using assms(1) by (auto simp: seq_ok_def seq_log_def s)
  then have run: "merge_close s = (b, w, m\<lparr>pc := MergeDone\<rparr>)"
    by (simp add: s merge_close_def closeHint_def go_simps)
  note log = merge_close_log [of s L]
  have "seq_log (b, w, m\<lparr>pc := MergeDone\<rparr>) L"
    using L log run pc' by (simp add: seq_log_def s)
  moreover have "remaining n0 (b, w, m\<lparr>pc := MergeDone\<rparr>)"
    by (rule remaining_proc [of _ b w m]) (use assms in \<open>simp_all add: seq_ok_def s\<close>)
  ultimately show ?thesis
    using assms run by (auto simp: seq_ok_def s merge_rank_def store_of_def)
qed

lemma seq_step:
  assumes "seq_ok n0 M act s" and "merge_running s"
  shows "seq_ok n0 M act (merge_step s) \<and> merge_rank (merge_step s) < merge_rank s"
  using assms seq_next [OF assms(1)] seq_scan [OF assms(1)] seq_append [OF assms(1)]
    seq_finish [OF assms(1)] seq_close [OF assms(1)]
  by (cases "pc (snd (snd s))") (auto simp: merge_step_def merge_running_def)

lemma Merge_ends:
  assumes "seq_ok n0 M act (merge_begin ord b w)"
  shows "\<exists>t. Merge ord b w = Some t \<and> seq_ok n0 M act t \<and> pc (snd (snd t)) = MergeDone"
proof -
  obtain t where t: "Merge ord b w = Some t"
    using measure_while_option_Some [of "seq_ok n0 M act" merge_running merge_step merge_rank, OF _ assms]
      seq_step unfolding Merge_def by blast
  have ok: "seq_ok n0 M act t"
    using while_option_rule [of "seq_ok n0 M act", OF _ t [unfolded Merge_def] assms] seq_step by blast
  moreover have "\<not> merge_running t" by (rule while_option_stop [OF t [unfolded Merge_def]])
  moreover have "pc (snd (snd t)) \<noteq> MergePanic"
    using ok by (auto simp: seq_ok_def seq_log_def)
  ultimately show ?thesis using t by (auto simp: merge_running_def)
qed

section \<open>The engine with compaction\<close>

text \<open>
  An engine in a directory of its own, with its active file open, on which no call has
  failed: every file is a log to its last byte, and the file numbers to come are unused.
\<close>

definition exact :: "BitCask \<times> os \<Rightarrow> bool" where
  "exact s \<longleftrightarrow> (case s of (b, w) \<Rightarrow> cask_inv b w \<and> faults w = [] \<and> active_path b \<in> set (filePtrs b) \<and>
     length (content w (active_path b)) = currOffset b \<and> (\<forall>p \<in> set (filePtrs b). clean (content w p)) \<and>
     tidy b w \<and> (\<forall>n \<ge> mergeFileCnt b. clean (content w (merge_path b n))))"

definition cask_merge :: "(string list \<Rightarrow> string list) \<Rightarrow> BitCask \<times> os \<Rightarrow> BitCask \<times> os" where
  "cask_merge ord s = (case s of (b, w) \<Rightarrow>
     (case Merge ord b w of None \<Rightarrow> (b, w) | Some (b', w', m) \<Rightarrow> (b', w')))"

lemma exact_whole:
  assumes "exact (b, w)"
  shows "\<exists>L. cask_log b w L \<and> whole b w L"
proof -
  obtain L where log: "cask_log b w L" using assms by (auto simp: exact_def cask_inv_def)
  obtain es where es: "\<And>p. p \<in> set (filePtrs b) \<Longrightarrow> (\<forall>e \<in> set (es p). small e) \<and> content w p = enc_all (es p)"
    using assms unfolding exact_def clean_def by (auto dest!: bchoice)
  have pre: "prefix (L p) (es p)" if "p \<in> set (filePtrs b)" for p
    using cask_logD(2) [OF log that] es [OF that] by (auto simp: has_log_def intro: enc_all_prefix)
  have "cask_log b w es"
  proof (rule cask_logI)
    show "\<exists>r. denotes es k e r" if "keyDir b k = Some e" for k e
      using cask_logD(6) [OF log that] denotes_prefix [where L' = es] pre [OF cask_logD(5) [OF log that]] by blast
    show "length (enc_all (es (active_path b))) = currOffset b" if "active_path b \<in> set (filePtrs b)"
      using assms es [OF that] by (simp add: exact_def)
  qed (use cask_logD [OF log] es in \<open>auto simp: has_log_def\<close>)
  with es show ?thesis unfolding whole_def by blast
qed

lemma begin_seq_ok:
  assumes "exact (b, w)" and "map_order ord"
  shows "seq_ok (mergeFileCnt b) (cask_map b w) (active_path b) (merge_begin ord b w)"
proof -
  let ?p = "merge_path b (mergeFileCnt b)"
  obtain L where log: "cask_log b w L" "whole b w L" using exact_whole [OF assms(1)] by blast
  have ex: "spare_ok b w" "clean (content w ?p)" "tidy b w" "faults w = []" "active_path b \<in> set (filePtrs b)"
    using assms(1) by (auto simp: exact_def spare_ok_def)
  obtain sg w1 where 1: "openMergeSegment b (mergeFileCnt b) w = (Inr sg, w1)" and f: "faults w1 = []"
    using openMergeSegment_ok [OF ex(4)] by blast
  note sg = openMergeSegment_InrD [OF 1] and w1 = openMergeSegment_content [OF 1]
  let ?b = "b\<lparr>filePtrs := List.insert ?p (filePtrs b)\<rparr>"
  let ?m = "\<lparr>pc = NextFile, segment = Some sg,
      immutableFiles = filter (\<lambda>p. p \<noteq> active_path b \<and> p \<noteq> ?p) (ord (filePtrs ?b)),
      pendingUpdates = Map.empty\<rparr>"
  have run: "merge_begin ord b w = (?b, w1, ?m)" using 1 sg by (simp add: merge_begin_def Let_def)
  from merge_begin_log [OF log(1) ex(1,2) assms(2)] log(2) run obtain L' where
    "merge_log (?b, w1, ?m) L'" "whole ?b w1 L'" and st: "store_of (?b, w1, ?m) = cask_map b w" by auto
  moreover have "tidy ?b w1" using ex(3) w1 by (simp add: tidy_def)
  ultimately have "seq_log (?b, w1, ?m) L'" using f by (simp add: seq_log_def)
  moreover have "remaining (mergeFileCnt b) (?b, w1, ?m)"
    using assms(2) ex(5) by (auto simp: remaining_def map_order_def)
  ultimately show ?thesis using run st by (auto simp: seq_ok_def)
qed

lemma seq_ok_exact:
  assumes "seq_ok n0 M act (b, w, m)"
  shows "exact (b, w)"
proof -
  obtain L sg where log: "merge_log (b, w, m) L" and wh: "whole b w L" "tidy b w" "faults w = []"
    and sg: "segment m = Some sg"
    using assms by (auto simp: seq_ok_def seq_log_def)
  have act: "active_path b \<in> set (filePtrs b)" using assms by (auto simp: seq_ok_def remaining_def)
  note old = merge_logD [OF log]
  have clean: "clean (content w p)" if "p \<in> set (filePtrs b)" for p
    using wh(1) cask_logD(2) [OF old(1) that] that unfolding clean_def whole_def has_log_def by blast
  have "merge_path b (mergeFileCnt b) \<in> set (filePtrs b)"
    using old(3) [OF sg] unfolding seg_ok_def by metis
  then have "clean (content w (merge_path b n))" if "mergeFileCnt b \<le> n" for n
    using clean old(2) that by (cases "n = mergeFileCnt b") (auto simp: spare_ok_def)
  moreover have "length (content w (active_path b)) = currOffset b"
    using wh(1) act cask_logD(3) [OF old(1) act] by (simp add: whole_def)
  ultimately show ?thesis
    using old(1) wh act clean unfolding exact_def cask_inv_def by auto
qed

text \<open>
  A merge alone, without faults: it ends normally, keeps the map, and leaves open only
  the active file and segments from the current number on.
\<close>

lemma Merge_exact:
  assumes "exact (b, w)" and "map_order ord"
  shows "\<exists>b' w' m'. Merge ord b w = Some (b', w', m') \<and> pc m' = MergeDone \<and> exact (b', w') \<and>
     cask_map b' w' = cask_map b w \<and> active_path b' = active_path b \<and> mergeFileCnt b \<le> mergeFileCnt b' \<and>
     (\<forall>p \<in> set (filePtrs b'). p = active_path b \<or> (\<exists>n \<ge> mergeFileCnt b. p = merge_path b' n))"
proof -
  obtain b' w' m' where t: "Merge ord b w = Some (b', w', m')" "pc m' = MergeDone"
      "seq_ok (mergeFileCnt b) (cask_map b w) (active_path b) (b', w', m')"
    using Merge_ends [OF begin_seq_ok [OF assms]] by auto
  then have "immutableFiles m' = []" by (auto simp: seq_ok_def seq_log_def)
  then show ?thesis
    using t seq_ok_exact [OF t(3)] by (auto simp: seq_ok_def store_of_def remaining_def)
qed

text \<open>A write without faults appends one record, and opens an empty file when this one is full.\<close>

lemma clean_append: "clean c \<Longrightarrow> small r \<Longrightarrow> clean (c @ enc r)"
  unfolding clean_def by (metis Un_iff enc_all_simps(1,2,3) list.set(1,2) set_append singletonD append_Nil2)

lemma put_exact:
  assumes ex: "exact (b, w)" and fit: "fits k v"
  shows "exact (snd (put now k v fl b w))"
proof -
  let ?p = "active_path b" and ?r = "\<lparr>e_ts = now, e_key = k, e_val = v, e_flag = fl\<rparr>"
  note e = ex [unfolded exact_def prod.case]
  let ?w = "w\<lparr>fs := (fs w)(?p \<mapsto> content w ?p @ enc ?r)\<rparr>" and ?b = "put_index k v fl b"
  have wr: "WriteAt (filePtr b ?p) (encode_entry now k v fl) (currOffset b) w =
      ((headerSize + length k + length v, None), ?w)"
    using e write_at_append [of "content w ?p"] by (simp add: filePtr_def go_simps enc_def)
  have "filePtrs b \<noteq> []" using e by auto
  then have run: "put now k v fl b w = put_rotate ?b ?w"
    using wr by (simp add: put_def put_open_def Let_def)
  obtain b' w' where put: "put now k v fl b w = (None, b', w')" and f: "faults w' = []"
    using put_ok [of w b now k v fl] e by (auto simp: writable_def)
  have inv: "cask_inv b' w'"
    using put_log [OF _ fits_small [OF fit] put] e unfolding cask_inv_def by blast
  have frame: "data_path ?b = data_path b" "merge_path ?b = merge_path b" "fileCnt ?b = fileCnt b"
    "filePtrs ?b = filePtrs b" "mergeFileCnt ?b = mergeFileCnt b" "maxFileSizeBytes ?b = maxFileSizeBytes b"
    "currOffset ?b = currOffset b + e_size ?r"
    by (simp_all add: put_index_def Let_def e_size_def)
  have cl: "clean (content ?w q)" if "q \<in> set (filePtrs b)" for q
    using e that clean_append [OF _ fits_small [OF fit]] by auto
  have merge: "clean (content ?w (merge_path b n))" if "mergeFileCnt b \<le> n" for n
    using e that by simp
  show ?thesis
  proof (cases "currOffset ?b \<ge> maxFileSizeBytes ?b")
    case False
    with run put have "b' = ?b" "w' = ?w" by (simp_all add: put_rotate_def)
    with inv f cl merge e frame put show ?thesis
      by (simp add: exact_def tidy_def)
  next
    case True
    let ?q = "data_path b (Suc (fileCnt b))"
    have new: "content ?w ?q = []" using e by (simp add: tidy_def)
    have "b' = ?b\<lparr>fileCnt := Suc (fileCnt b), filePtrs := List.insert ?q (filePtrs b), currOffset := 0\<rparr>"
      "content w' = content ?w"
      using run put True new e frame
      by (auto simp: put_rotate_def Let_def go_simps content_def fun_eq_iff)
    with inv f cl merge e frame put new clean_Nil show ?thesis
      by (auto simp: exact_def tidy_def)
  qed
qed

interpretation cask_compact: compacting_store exact "case_prod cask_map" cask_get cask_put cask_del fits
  "\<lambda>k. fits k []" map_order cask_merge
proof
  fix s :: "BitCask \<times> os" and a :: uint32 and k v :: bytes and ord :: "string list \<Rightarrow> string list"
  obtain b w where s: "s = (b, w)" by (cases s)
  assume ex: "exact s"
  then have ok: "cask_ok s" by (auto simp: s exact_def cask_ok_def writable_def)
  show "cask_get k s = case_prod cask_map s k" by (rule cask.get_view [OF ok])
  show "exact (cask_put a k v s)" "case_prod cask_map (cask_put a k v s) = (case_prod cask_map s)(k \<mapsto> v)"
    if "fits k v"
    using put_exact [of b w k v a 0] ex that cask.put_view [OF ok that]
    by (simp_all add: s cask_put_def Put_def)
  show "exact (cask_del a k s)" "case_prod cask_map (cask_del a k s) = (case_prod cask_map s)(k := None)"
    if "fits k []"
    using put_exact [of b w k "[]" a 1] ex that cask.del_view [OF ok that]
    by (simp_all add: s cask_del_def Delete_def)
  show "exact (cask_merge ord s)" "case_prod cask_map (cask_merge ord s) = case_prod cask_map s"
    if "map_order ord"
    using Merge_exact [of b w ord] ex that by (auto simp: s cask_merge_def)
qed

section \<open>Properties\<close>

text \<open>The first record of a new engine in an empty directory makes it exact.\<close>

lemma first_put_exact:
  assumes "faults w = []" and "\<And>p. content w p = []" and "fits k v"
  shows "exact (snd (put now k v fl New w))"
proof -
  let ?b = "New\<lparr>filePtrs := [active_path New]\<rparr>" and ?w = "w\<lparr>fs := (fs w)(active_path New \<mapsto> [])\<rparr>"
  have "put_open New w = (None, ?b, ?w)"
    using assms(1,2) by (simp add: put_open_def go_simps)
  moreover have "put_open ?b ?w = (None, ?b, ?w)" by (simp add: put_open_def)
  ultimately have same: "put now k v fl New w = put now k v fl ?b ?w" by (simp add: put_def)
  have "cask_inv ?b ?w"
    using put_open_log [OF New_inv \<open>put_open New w = _\<close>] unfolding cask_inv_def by blast
  then have "exact (?b, ?w)"
    using assms(1,2) by (simp add: exact_def tidy_def)
  from put_exact [OF this assms(3)] same show ?thesis by simp
qed

text \<open>
  C2. Compaction is invisible. Without I/O faults, writing \<open>xs\<close>, merging, and writing
  \<open>ys\<close> leaves under every key what writing \<open>xs @ ys\<close> to a map leaves, for every order
  in which \<open>Merge\<close> may visit the files.
\<close>

theorem merge_transparent:
  assumes "exact s" and "map_order ord" and "list_all (kv_fits fits (\<lambda>k. fits k [])) (xs @ ys)"
  shows "cask_get k (kv_run cask_put cask_del ys (cask_merge ord (kv_run cask_put cask_del xs s))) =
         fold kv_spec (xs @ ys) (case_prod cask_map s) k"
  by (rule cask_compact.run_compact_run [OF assms])

theorem merge_transparent_witness:
  "cask_get [1] (kv_run cask_put cask_del [KDel 0 [2]] (cask_merge remdups
     (kv_run cask_put cask_del [KPut 0 [2] [9]] (cask_put 0 [1] [7] (New, empty_os))))) = Some [7]"
proof -
  have ex: "exact (cask_put 0 [1] [7] (New, empty_os))"
    using first_put_exact [of empty_os "[1]" "[7]" 0 0]
    by (simp add: cask_put_def Put_def fits_def headerSize_def)
  have "case_prod cask_map (cask_put 0 [1] [7] (New, empty_os)) [1] = Some [7]"
    using cask.put_view [OF cask_ok_New, of empty_os "[1]" "[7]" 0] by (simp add: fits_def headerSize_def)
  moreover have "list_all (kv_fits fits (\<lambda>k. fits k [])) ([KPut 0 [2] [9]] @ [KDel 0 [2]])"
    by (simp add: fits_def headerSize_def)
  ultimately show ?thesis
    using merge_transparent [OF ex, of remdups "[KPut 0 [2] [9]]" "[KDel 0 [2]]" "[1]"]
    by (simp add: map_order_def)
qed

text \<open>
  C3. A merge that runs alone without I/O faults ends: its scanning loop reaches the end
  of every file it set out to merge, no step dereferences a nil segment, and it removes
  every such file. Only the active file and merge segments that are not older than the
  one it started with stay open, and the stored map is the same.
\<close>

theorem merge_terminates:
  assumes "exact (b, w)" and "map_order ord"
  shows "\<exists>b' w' m'. Merge ord b w = Some (b', w', m') \<and> pc m' = MergeDone \<and> exact (b', w') \<and>
     cask_map b' w' = cask_map b w \<and>
     (\<forall>p \<in> set (filePtrs b'). p = active_path b \<or> (\<exists>n \<ge> mergeFileCnt b. p = merge_path b' n))"
  using Merge_exact [OF assms] by blast

theorem merge_terminates_witness:
  "\<exists>b w b' w' m'. (b, w) = cask_put 0 [1] [7] (New, empty_os) \<and> Merge remdups b w = Some (b', w', m') \<and>
     pc m' = MergeDone \<and> cask_map b' w' = cask_map b w"
proof -
  obtain b w where s: "cask_put 0 [1] [7] (New, empty_os) = (b, w)" by (cases "cask_put 0 [1] [7] (New, empty_os)")
  then have "exact (b, w)"
    using first_put_exact [of empty_os "[1]" "[7]" 0 0]
    by (simp add: cask_put_def Put_def fits_def headerSize_def)
  from merge_terminates [OF this, of remdups] s show ?thesis by (auto simp: map_order_def)
qed

text \<open>
  C8. \<open>Merge\<close> on a new engine, in an empty directory and without faults, opens the first
  merge segment and returns; since a file is now open, \<open>put\<close> no longer opens the active
  one, and every later \<open>Put\<close> fails.
\<close>

theorem merge_first_blocks_writes:
  assumes "faults w = []" and "map_order ord"
  shows "\<exists>b' w' m'. Merge ord New w = Some (b', w', m') \<and> pc m' = MergeDone \<and>
     (\<forall>now k v. Put now k v b' w' = (Some ErrInvalid, b', w'))"
proof -
  let ?p = "merge_path New 1" and ?b = "New\<lparr>filePtrs := [merge_path New 1]\<rparr>"
  obtain sg w1 where 1: "openMergeSegment New 1 w = (Inr sg, w1)" and f: "faults w1 = []"
    using openMergeSegment_ok [OF assms(1)] by blast
  let ?m = "\<lparr>pc = NextFile, segment = Some sg, immutableFiles = [], pendingUpdates = Map.empty\<rparr>"
  have sg: "dataPath sg = ?p" using openMergeSegment_InrD [OF 1] by simp
  have "filter (\<lambda>p. p \<noteq> active_path New \<and> p \<noteq> ?p) (ord [?p]) = []"
    using assms(2) by (auto simp: map_order_def filter_empty_conv)
  then have "merge_begin ord New w = (?b, w1, ?m)"
    using 1 sg by (simp add: merge_begin_def Let_def)
  then have run: "Merge ord New w = Some (?b, w1, ?m\<lparr>pc := MergeDone\<rparr>)"
    using f by (simp add: Merge_def while_option_unfold merge_running_def merge_step_def merge_next_def
        merge_close_def closeHint_def go_simps)
  have "Put now k v ?b w1 = (Some ErrInvalid, ?b, w1)" for now k v
    using put_stuck [of ?b] by (simp add: Put_def)
  with run show ?thesis by simp
qed

theorem merge_first_blocks_writes_witness:
  "\<exists>b' w' m'. Merge remdups New empty_os = Some (b', w', m') \<and> Put 0 [1] [2] b' w' = (Some ErrInvalid, b', w')"
  using merge_first_blocks_writes [of empty_os remdups] by (auto simp: map_order_def)

text \<open>
  A merge whose segment is full and cannot be synced, so that no next segment is
  opened, ends in a nil dereference: \<open>rotateMergeSegmentLocked\<close> returns a nil segment,
  the loop over the entries stops, and \<^verbatim>\<open>segment.sync()\<close> is called on nil, with the
  engine's lock held.
\<close>

theorem merge_sync_failure_panics:
  assumes "pc m = AppendLive p off buf key vsz" and "segment m = Some sg"
    and "maxFileSizeBytes b < dataOffset sg + length buf" and "faults w = Some n # rest"
  shows "pc (snd (snd (merge_step (merge_step (b, w, m))))) = MergePanic"
proof -
  have "seg_sync sg w = (Some EIO, w\<lparr>faults := rest\<rparr>)"
    using assms(4) by (simp add: seg_sync_def Sync_def next_fault_def)
  then have "ensureMergeSegmentCapacityLocked sg (length buf) b w = (Inl EIO, b, w\<lparr>faults := rest\<rparr>)"
    using assms(3) by (simp add: ensureMergeSegmentCapacityLocked_def rotateMergeSegmentLocked_def)
  then show ?thesis
    using assms(1,2) by (simp add: merge_step_def merge_append_def merge_finish_def)
qed

theorem merge_sync_failure_panics_witness:
  "pc (snd (snd (merge_step (merge_step (New\<lparr>maxFileSizeBytes := 0\<rparr>, empty_os\<lparr>faults := [Some 0]\<rparr>,
     \<lparr>pc = AppendLive ''1.data'' 0 [1] [] 0, segment = Some \<lparr>seg_id = 1, dataPath = ''m'', hintPath = ''h'',
        dataOffset = 0, hintOffset = 0\<rparr>, immutableFiles = [], pendingUpdates = Map.empty\<rparr>))))) = MergePanic"
  using merge_sync_failure_panics [of "\<lparr>pc = AppendLive ''1.data'' 0 [1] [] 0, segment = Some \<lparr>seg_id = 1,
      dataPath = ''m'', hintPath = ''h'', dataOffset = 0, hintOffset = 0\<rparr>, immutableFiles = [],
      pendingUpdates = Map.empty\<rparr>" "''1.data''" 0 "[1]" "[]" 0 "\<lparr>seg_id = 1, dataPath = ''m'', hintPath = ''h'',
      dataOffset = 0, hintOffset = 0\<rparr>" "New\<lparr>maxFileSizeBytes := 0\<rparr>" "empty_os\<lparr>faults := [Some 0]\<rparr>" 0 "[]"]
  by simp

end
