(* ===== verification/Bitcask_Damage.thy ===== *)
theory Bitcask_Damage
  imports Bitcask_Compact
begin

text \<open>
  A merge of src/bitcask/main.go that starts on a damaged segment. \<^verbatim>\<open>openMergeSegment\<close>
  takes the size of the segment's file for the offset of the next record. After a torn
  append the bytes of the tear stay in front of what later merges append, and the merge
  that one day scans this file takes them for the header of a record: it skips part of
  a live record, reaches the end of the file, and removes it.
\<close>

section \<open>Scanning one record\<close>

lemma scan_live_enc:
  assumes "small r" and "keyDir b (e_key r) = Some \<lparr>filePath = p, fileEntryOffset = off,
    valueSize = of_nat (length (e_val r))\<rparr>"
  shows "scan_live p off (of_nat (length (e_key r))) (of_nat (length (e_val r))) (enc r) b =
    AppendLive p off (enc r) (e_key r) (of_nat (length (e_val r)))"
  using small_sizes(4) [OF assms(1)] enc_fields(4,5) [OF assms(1)] assms(2)
  by (simp add: scan_live_def Let_def headerSize_def e_size_def)

lemma merge_scan_live:
  assumes "small r" and "e_flag r = 0" and "content w p = pre @ enc r @ post" and "length pre = off"
    and "keyDir b (e_key r) = Some \<lparr>filePath = p, fileEntryOffset = off, valueSize = of_nat (length (e_val r))\<rparr>"
    and "next_fault w = (None, w1)" and "next_fault w1 = (None, w2)"
  shows "merge_scan p off (b, w, m) =
    (b, w2, m\<lparr>pc := AppendLive p off (enc r) (e_key r) (of_nat (length (e_val r)))\<rparr>)"
proof -
  have len: "17 \<le> e_size r" using e_size_pos(1) [of r] by (simp add: headerSize_def)
  have "chunk off 17 (content w p) = take headerSize (enc r)"
    using assms(3,4) len by (simp add: chunk_def headerSize_def)
  moreover have "chunk off (e_size r) (content w p) = enc r"
    using assms(3,4) by (simp add: chunk_def)
  moreover have "content w1 = content w" "content w2 = content w"
    using assms(6,7) by simp_all
  moreover have "hdr_ksz (take headerSize (enc r)) = of_nat (length (e_key r))"
      "hdr_vsz (take headerSize (enc r)) = of_nat (length (e_val r))"
    using hdr_take [of "enc r"] hdr_encode [of "e_ts r" "e_key r" "e_val r" "e_flag r" "[]"] e_size_pos(1) [of r]
    by (simp_all add: enc_def e_size_def)
  ultimately show ?thesis
    using scan_live_enc [OF assms(1,5)] small_sizes(3) [OF assms(1)] enc_fields(3) [OF assms(1)] assms len
    by (simp add: merge_scan_def ReadAt_def Let_def)
qed

section \<open>The files of the run\<close>

text \<open>Two records; the second one fills the rest of the first data file.\<close>

definition rec1 :: entry where
  "rec1 = \<lparr>e_ts = 49, e_key = [107], e_val = [118], e_flag = 0\<rparr>"

definition rec2 :: entry where
  "rec2 = \<lparr>e_ts = 0, e_key = [108], e_val = replicate 65499 0, e_flag = 0\<rparr>"

lemma rec1_simps [simp]:
  "e_key rec1 = [107]" "e_val rec1 = [118]" "e_flag rec1 = 0" "e_size rec1 = 19" "small rec1"
  by (simp_all add: rec1_def e_size_def headerSize_def small_def)

lemma rec2_fields [simp]: "e_key rec2 = [108]" "length (e_val rec2) = 65499" "e_flag rec2 = 0"
  by (simp_all only: rec2_def entry.select_convs length_replicate)

lemma rec2_size [simp]: "e_size rec2 = 65517" "small rec2"
  by (simp_all add: e_size_def headerSize_def small_def)

lemma rec1_checksum: "ChecksumIEEE [49, 0, 0, 0, 1, 0, 0, 0, 1, 0, 0, 0, 0, 107, 118] = 0xFA19CBCF"
  by (simp add: ChecksumIEEE_def crc_update_def crc_byte_def crc_bit_def go_simps)

lemma enc_rec1: "enc rec1 = [207, 203, 25, 250, 49, 0, 0, 0, 1, 0, 0, 0, 1, 0, 0, 0, 0, 107, 118]"
  by (simp add: rec1_def enc_def encode_entry_def Let_def PutUint32_def rec1_checksum)

definition full_cask :: BitCask where
  "full_cask = New\<lparr>filePtrs := [data_path New 2, data_path New 1], fileCnt := 2, keyDir :=
     [[107] \<mapsto> \<lparr>filePath = data_path New 1, fileEntryOffset = 0, valueSize = 1\<rparr>,
      [108] \<mapsto> \<lparr>filePath = data_path New 1, fileEntryOffset = 19, valueSize = 65499\<rparr>]\<rparr>"

definition full_os :: "nat option list \<Rightarrow> os" where
  "full_os fl = \<lparr>fs = [data_path New 1 \<mapsto> enc rec1 @ enc rec2, data_path New 2 \<mapsto> []], faults = fl\<rparr>"

lemma New_simps:
  "fileBasePath New = ''./''" "currOffset New = 0" "filePtrs New = []" "keyDir New = Map.empty"
  "fileCnt New = 1" "maxFileSizeBytes New = 65536" "mergeFileCnt New = 1"
  by (simp_all add: New_def)

lemma encode_recs:
  "encode_entry 49 [107] [118] 0 = enc rec1" "encode_entry 0 [108] (e_val rec2) 0 = enc rec2"
proof -
  show "encode_entry 49 [107] [118] 0 = enc rec1" by (simp add: enc_def rec1_def)
  have "e_ts rec2 = 0" by (simp only: rec2_def entry.select_convs)
  then show "encode_entry 0 [108] (e_val rec2) 0 = enc rec2" by (simp add: enc_def)
qed

lemma fill_first_file:
  "\<exists>b w. Put 49 [107] [118] New (empty_os\<lparr>faults := None # None # None # None # fl\<rparr>) = (None, b, w) \<and>
     Put 0 [108] (e_val rec2) b w = (None, full_cask, full_os fl)"
  by (simp add: Put_def put_def put_open_def put_rotate_def put_index_def Let_def encode_recs New_simps
      OpenFile_def WriteAt_def next_fault_def filePtr_def headerSize_def content_def write_at_def
      full_cask_def full_os_def empty_os_def numeral_2_eq_2)

section \<open>Three merges\<close>

abbreviation sections :: "nat \<Rightarrow> merge_state \<Rightarrow> merge_state \<Rightarrow> bool" where
  "sections n s t \<equiv> run cask_step s (replicate n EvMerge) t"

lemma sections_step:
  assumes "pc m \<noteq> MergeDone" and "pc m \<noteq> MergePanic" and "merge_step (b, w, m) = u" and "sections n u t"
  shows "sections (Suc n) (b, w, m) t"
proof -
  have "cask_step (b, w, m) EvMerge u"
    using step_merge [of "(b, w, m)"] assms(1-3) by (simp add: merge_running_def)
  from run_Cons [OF this assms(4)] show ?thesis by simp
qed

text \<open>The end of every merge: no file is left, and the hint file is closed.\<close>

lemma sections_end:
  assumes "faults w = []" and "segment m = Some sg" and "pc m = NextFile" and "immutableFiles m = []"
  shows "sections 2 (b, w, m) (b, w, m\<lparr>pc := MergeDone\<rparr>)"
proof -
  have "merge_step (b, w, m) = (b, w, m\<lparr>pc := Closing\<rparr>)"
    "merge_step (b, w, m\<lparr>pc := Closing\<rparr>) = (b, w, m\<lparr>pc := MergeDone\<rparr>)"
    using assms by (simp_all add: merge_step_def merge_next_def merge_close_def closeHint_def go_simps)
  note steps = this
  have "sections 0 (b, w, m\<lparr>pc := MergeDone\<rparr>) (b, w, m\<lparr>pc := MergeDone\<rparr>)" by simp
  then have "sections 1 (b, w, m\<lparr>pc := Closing\<rparr>) (b, w, m\<lparr>pc := MergeDone\<rparr>)"
    unfolding One_nat_def by (rule sections_step [OF _ _ steps(2), rotated 2]) simp_all
  then show ?thesis
    unfolding numeral_2_eq_2 One_nat_def by (rule sections_step [OF _ _ steps(1), rotated 2]) (simp_all add: assms(3))
qed

text \<open>The first merge tears the copy of the first record after 16 bytes.\<close>

definition torn_cask :: BitCask where
  "torn_cask = full_cask\<lparr>filePtrs := [merge_path New 1, data_path New 2, data_path New 1]\<rparr>"

definition torn_os :: os where
  "torn_os = \<lparr>fs = (fs (full_os []))(hint_path New 1 \<mapsto> [], merge_path New 1 \<mapsto> take 16 (enc rec1)), faults = []\<rparr>"

lemma torn_cask_simps:
  "torn_cask\<lparr>mergeFileOffset := 0, mergeHintFileOffset := 0\<rparr> = torn_cask"
  "maxFileSizeBytes torn_cask = 65536" "filePtrs torn_cask = [merge_path New 1, data_path New 2, data_path New 1]"
  "mergeFileCnt torn_cask = 1" "fileCnt torn_cask = 2"
  "data_path torn_cask = data_path New" "merge_path torn_cask = merge_path New" "hint_path torn_cask = hint_path New"
  by (simp_all add: torn_cask_def full_cask_def New_def data_path_def merge_path_def hint_path_def fun_eq_iff)

lemma merge_tears:
  "\<exists>m. sections 6 (merge_begin remdups full_cask (full_os (replicate 7 None @ [Some 16]))) (torn_cask, torn_os, m) \<and>
     pc m = MergeDone"
proof -
  let ?D = "data_path New 1" and ?M = "merge_path New 1" and ?H = "hint_path New 1"
  let ?w = "\<lambda>fl. \<lparr>fs = (fs (full_os []))(?M \<mapsto> [], ?H \<mapsto> []), faults = fl\<rparr>"
  let ?sg = "\<lparr>seg_id = 1, dataPath = ?M, hintPath = ?H, dataOffset = 0, hintOffset = 0\<rparr>"
  let ?m = "\<lambda>c fls. \<lparr>pc = c, segment = Some ?sg, immutableFiles = fls, pendingUpdates = Map.empty\<rparr>"
  have start: "merge_begin remdups full_cask (full_os (replicate 7 None @ [Some 16])) =
      (torn_cask, ?w [None, None, Some 16], ?m NextFile [?D])"
    by (simp add: merge_begin_def openMergeSegment_def open_segment_files_def Stat_def OpenFile_def file_Stat_def
        next_fault_def Let_def full_cask_def torn_cask_def full_os_def New_simps content_def eval_nat_numeral)
  have next_file: "merge_step (torn_cask, ?w [None, None, Some 16], ?m NextFile [?D]) =
      (torn_cask, ?w [None, None, Some 16], ?m (ScanEntry ?D 0) [])"
    by (simp add: merge_step_def merge_next_def torn_cask_def)
  have scan: "merge_step (torn_cask, ?w [None, None, Some 16], ?m (ScanEntry ?D 0) []) =
      (torn_cask, ?w [Some 16], ?m (AppendLive ?D 0 (enc rec1) [107] 1) [])"
    using merge_scan_live [of rec1 "?w [None, None, Some 16]" ?D "[]" "enc rec2" 0 torn_cask]
    by (simp add: merge_step_def next_fault_def torn_cask_def full_cask_def full_os_def content_def)
  have append: "merge_step (torn_cask, ?w [Some 16], ?m (AppendLive ?D 0 (enc rec1) [107] 1) []) =
      (torn_cask, torn_os, ?m (FinishFile ?D False) [])"
    by (simp add: merge_step_def merge_append_def ensureMergeSegmentCapacityLocked_def appendEntry_def WriteAt_def
        next_fault_def Let_def torn_cask_simps torn_os_def content_def write_at_def)
  have finish: "merge_step (torn_cask, torn_os, ?m (FinishFile ?D False) []) = (torn_cask, torn_os, ?m NextFile [])"
    by (simp add: merge_step_def merge_finish_def seg_sync_ok torn_os_def)
  have "sections 2 (torn_cask, torn_os, ?m NextFile []) (torn_cask, torn_os, (?m NextFile [])\<lparr>pc := MergeDone\<rparr>)"
    by (rule sections_end) (simp_all add: torn_os_def)
  from sections_step [OF _ _ finish this] have "sections 3 (torn_cask, torn_os, ?m (FinishFile ?D False) [])
      (torn_cask, torn_os, ?m MergeDone [])" by simp
  from sections_step [OF _ _ append this]
  have "sections 4 (torn_cask, ?w [Some 16], ?m (AppendLive ?D 0 (enc rec1) [107] 1) [])
      (torn_cask, torn_os, ?m MergeDone [])" by simp
  from sections_step [OF _ _ next_file sections_step [OF _ _ scan this]]
  show ?thesis unfolding start by auto
qed

text \<open>The second merge appends the first record behind the tear and the second one to the next segment.\<close>

definition damaged :: "BitCask \<Rightarrow> os \<Rightarrow> bool" where
  "damaged b w \<longleftrightarrow> fileBasePath b = fileBasePath New \<and> fileCnt b = 2 \<and> mergeFileCnt b = 2 \<and> faults w = [] \<and>
     filePtrs b = [merge_path New 2, merge_path New 1, data_path New 2] \<and>
     keyDir b [107] = Some \<lparr>filePath = merge_path New 1, fileEntryOffset = 16, valueSize = 1\<rparr> \<and>
     content w (merge_path New 1) = take 16 (enc rec1) @ enc rec1"

lemma copy_behind_tear:
  "\<exists>b w m sg. sections 3 (merge_begin remdups torn_cask torn_os) (b, w, m) \<and> faults w = [] \<and>
     b = torn_cask\<lparr>mergeFileOffset := dataOffset sg, mergeHintFileOffset := hintOffset sg\<rparr> \<and>
     segment m = Some sg \<and> dataPath sg = merge_path New 1 \<and> dataOffset sg = 35 \<and>
     pc m = ScanEntry (data_path New 1) 19 \<and> immutableFiles m = [] \<and>
     pendingUpdates m = [[107] \<mapsto> \<lparr>originalFilePath = data_path New 1, originalOffset = 0, originalValSize = 1,
       newEntry = \<lparr>filePath = merge_path New 1, fileEntryOffset = 16, valueSize = 1\<rparr>\<rparr>] \<and>
     content w (merge_path New 1) = take 16 (enc rec1) @ enc rec1 \<and>
     content w (data_path New 1) = enc rec1 @ enc rec2"
proof -
  let ?D = "data_path New 1"
  obtain sg v where 1: "openMergeSegment torn_cask 1 torn_os = (Inr sg, v)" and f: "faults v = []"
    using openMergeSegment_ok [of torn_os torn_cask 1] by (auto simp: torn_os_def)
  have v: "content v = content torn_os" by (rule openMergeSegment_content [OF 1])
  have sg: "dataPath sg = merge_path New 1" "hintPath sg = hint_path New 1" "dataOffset sg = 16"
    using openMergeSegment_InrD [OF 1] by (simp_all add: torn_cask_simps torn_os_def content_def)
  let ?m = "\<lambda>c fls. \<lparr>pc = c, segment = Some sg, immutableFiles = fls, pendingUpdates = Map.empty\<rparr>"
  have start: "merge_begin remdups torn_cask torn_os = (torn_cask, v, ?m NextFile [?D])"
    using 1 sg by (simp add: merge_begin_def Let_def torn_cask_simps)
  have next_file: "merge_step (torn_cask, v, ?m NextFile [?D]) = (torn_cask, v, ?m (ScanEntry ?D 0) [])"
    by (simp add: merge_step_def merge_next_def torn_cask_simps)
  have c: "content v ?D = enc rec1 @ enc rec2" "content v (merge_path New 1) = take 16 (enc rec1)"
    unfolding v by (simp_all add: torn_os_def full_os_def content_def)
  have scan: "merge_step (torn_cask, v, ?m (ScanEntry ?D 0) []) = (torn_cask, v, ?m (AppendLive ?D 0 (enc rec1) [107] 1) [])"
    using merge_scan_live [of rec1 v ?D "[]" "enc rec2" 0 torn_cask] f c
    by (simp add: merge_step_def torn_cask_def full_cask_def)
  obtain b w m where append: "merge_step (torn_cask, v, ?m (AppendLive ?D 0 (enc rec1) [107] 1) []) = (b, w, m)"
    by (metis surj_pair)
  have "sections 0 (b, w, m) (b, w, m)" by simp
  from sections_step [OF _ _ next_file sections_step [OF _ _ scan sections_step [OF _ _ append this]]]
  have "sections 3 (merge_begin remdups torn_cask torn_os) (b, w, m)" unfolding start by (simp add: numeral_3_eq_3)
  moreover have "faults w = [] \<and>
     b = torn_cask\<lparr>mergeFileOffset := dataOffset (the (segment m)), mergeHintFileOffset := hintOffset (the (segment m))\<rparr> \<and>
     segment m = Some (the (segment m)) \<and> dataPath (the (segment m)) = merge_path New 1 \<and>
     dataOffset (the (segment m)) = 35 \<and> pc m = ScanEntry ?D 19 \<and> immutableFiles m = [] \<and>
     pendingUpdates m = [[107] \<mapsto> \<lparr>originalFilePath = ?D, originalOffset = 0, originalValSize = 1,
       newEntry = \<lparr>filePath = merge_path New 1, fileEntryOffset = 16, valueSize = 1\<rparr>\<rparr>] \<and>
     content w (merge_path New 1) = take 16 (enc rec1) @ enc rec1 \<and> content w ?D = enc rec1 @ enc rec2"
    using append f c sg write_at_append [of "take 16 (enc rec1)" "enc rec1"]
    by (auto simp: merge_step_def merge_append_def ensureMergeSegmentCapacityLocked_def appendEntry_def
      torn_cask_simps go_simps Let_def)
  ultimately show ?thesis by blast
qed

lemma copy_to_next_segment:
  assumes "faults w = []" and "segment m = Some sg" and "pc m = ScanEntry (data_path New 1) 19"
    and "immutableFiles m = []" and "dataPath sg = merge_path New 1" and "dataOffset sg = 35"
    and "content w (data_path New 1) = enc rec1 @ enc rec2"
    and "b = torn_cask\<lparr>mergeFileOffset := dataOffset sg, mergeHintFileOffset := hintOffset sg\<rparr>"
  shows "\<exists>w' m' sg'. sections 3 (b, w, m) (b\<lparr>mergeFileCnt := 2, filePtrs := merge_path New 2 # filePtrs b,
         mergeFileOffset := dataOffset sg', mergeHintFileOffset := hintOffset sg'\<rparr>, w', m') \<and> faults w' = [] \<and>
     segment m' = Some sg' \<and> pc m' = FinishFile (data_path New 1) True \<and> immutableFiles m' = [] \<and>
     (\<exists>u. pendingUpdates m' = (pendingUpdates m)([108] \<mapsto> u)) \<and> content w' (merge_path New 1) = content w (merge_path New 1)"
proof -
  let ?D = "data_path New 1" and ?b = "b\<lparr>mergeFileCnt := 2\<rparr>"
  have paths: "merge_path b = merge_path New" "hint_path b = hint_path New"
    "filePtrs b = [merge_path New 1, data_path New 2, data_path New 1]" "mergeFileCnt b = 1" "maxFileSizeBytes b = 65536"
    by (simp_all add: assms(8) torn_cask_simps)
  have scan: "merge_step (b, w, m) = (b, w, m\<lparr>pc := AppendLive ?D 19 (enc rec2) [108] 65499\<rparr>)"
    using merge_scan_live [of rec2 w ?D "enc rec1" "[]" 19 b] assms
    by (simp add: merge_step_def torn_cask_def full_cask_def)
  obtain sg1 v where 1: "openMergeSegment ?b 2 w = (Inr sg1, v)" and f: "faults v = []"
    using openMergeSegment_ok [OF assms(1)] by blast
  note sg1 = openMergeSegment_InrD [OF 1] and v = openMergeSegment_content [OF 1]
  have rotate: "ensureMergeSegmentCapacityLocked sg (length (enc rec2)) b w =
      (Inr sg1, ?b\<lparr>filePtrs := merge_path New 2 # filePtrs b\<rparr>, v)"
    using 1 sg1 assms(1,6) paths
    by (simp add: ensureMergeSegmentCapacityLocked_def rotateMergeSegmentLocked_def seg_sync_ok closeHint_def go_simps Let_def
        flip: numeral_2_eq_2)
  obtain ne sg2 w2 where 2: "appendEntry (enc rec2) [108] 65499 sg1 v = (Inr ne, sg2, w2)" and f2: "faults w2 = []"
    using appendEntry_ok [OF f] by blast
  let ?b2 = "b\<lparr>mergeFileCnt := 2, filePtrs := merge_path New 2 # filePtrs b,
         mergeFileOffset := dataOffset sg2, mergeHintFileOffset := hintOffset sg2\<rparr>"
  let ?u = "\<lparr>originalFilePath = ?D, originalOffset = 19, originalValSize = 65499, newEntry = ne\<rparr>"
  let ?m2 = "\<lambda>c. m\<lparr>pc := c, segment := Some sg2, pendingUpdates := (pendingUpdates m)([108] \<mapsto> ?u)\<rparr>"
  have append: "merge_step (b, w, m\<lparr>pc := AppendLive ?D 19 (enc rec2) [108] 65499\<rparr>) =
      (?b2, w2, ?m2 (ScanEntry ?D 65536))"
    using rotate 2 assms(2) by (simp add: merge_step_def merge_append_def Let_def)
  have other: "content w2 q = content w q" if "q = ?D \<or> q = merge_path New 1" for q
    using 2 f sg1 v that paths by (auto simp: appendEntry_def go_simps Let_def)
  have eof: "merge_step (?b2, w2, ?m2 (ScanEntry ?D 65536)) = (?b2, w2, ?m2 (FinishFile ?D True))"
    using other [of ?D] f2 assms(7) by (simp add: merge_step_def merge_scan_def go_simps)
  have "sections 0 (?b2, w2, ?m2 (FinishFile ?D True)) (?b2, w2, ?m2 (FinishFile ?D True))" by simp
  from sections_step [OF _ _ scan sections_step [OF _ _ append sections_step [OF _ _ eof this]]]
  have "sections 3 (b, w, m) (?b2, w2, ?m2 (FinishFile ?D True))" using assms(3) by (simp add: numeral_3_eq_3)
  then show ?thesis using f2 assms(4) other by (intro exI [of _ w2] exI [of _ "?m2 (FinishFile ?D True)"] exI [of _ sg2]) auto
qed

lemma merge_appends_behind_tear:
  "\<exists>b w m. sections 9 (merge_begin remdups torn_cask torn_os) (b, w, m) \<and> pc m = MergeDone \<and> damaged b w"
proof -
  let ?D = "data_path New 1" and ?M = "merge_path New 1"
  obtain b1 w1 m1 sg1 where 1: "sections 3 (merge_begin remdups torn_cask torn_os) (b1, w1, m1)"
    and s1: "faults w1 = []" "segment m1 = Some sg1" "pc m1 = ScanEntry ?D 19" "immutableFiles m1 = []"
      "dataPath sg1 = ?M" "dataOffset sg1 = 35" "content w1 ?D = enc rec1 @ enc rec2"
      "b1 = torn_cask\<lparr>mergeFileOffset := dataOffset sg1, mergeHintFileOffset := hintOffset sg1\<rparr>"
    and c1: "content w1 ?M = take 16 (enc rec1) @ enc rec1"
    and p1: "pendingUpdates m1 [107] = Some \<lparr>originalFilePath = ?D, originalOffset = 0, originalValSize = 1,
       newEntry = \<lparr>filePath = ?M, fileEntryOffset = 16, valueSize = 1\<rparr>\<rparr>"
    using copy_behind_tear by fastforce
  obtain w2 m2 sg2 where 2: "sections 3 (b1, w1, m1) (b1\<lparr>mergeFileCnt := 2, filePtrs := merge_path New 2 # filePtrs b1,
         mergeFileOffset := dataOffset sg2, mergeHintFileOffset := hintOffset sg2\<rparr>, w2, m2)" (is "sections 3 _ (?b2, _, _)")
    and s2: "faults w2 = []" "segment m2 = Some sg2" "pc m2 = FinishFile ?D True" "immutableFiles m2 = []"
      "pendingUpdates m2 [107] = pendingUpdates m1 [107]" "content w2 ?M = content w1 ?M"
    using copy_to_next_segment [OF s1] by fastforce
  obtain b3 w3 where finish: "merge_step (?b2, w2, m2) = (b3, w3, m2\<lparr>pc := NextFile\<rparr>)" and f3: "faults w3 = []"
    and b3: "b3 = ?b2\<lparr>keyDir := apply_pending (pendingUpdates m2) (keyDir ?b2), filePtrs := removeAll ?D (filePtrs ?b2),
             mergeFileOffset := dataOffset sg2, mergeHintFileOffset := hintOffset sg2\<rparr>"
    and c3: "\<And>q. q \<noteq> ?D \<Longrightarrow> (\<And>h. q \<noteq> h @ ''.hint'') \<Longrightarrow> content w3 q = content w2 q"
    using finish_run [OF s2(1,2), of ?D ?b2] s2(3) by (auto simp: merge_step_def)
  have "?M \<noteq> h @ ''.hint''" for h by (simp add: merge_path_def append_eq_append_conv2)
  then have "damaged b3 w3"
    using f3 b3 s1(8) c3 [of ?M] c1 s2(5,6) p1 unfolding damaged_def
    by (simp add: torn_cask_simps) (simp add: torn_cask_def full_cask_def apply_pending_def New_simps)
  moreover have "sections 2 (b3, w3, m2\<lparr>pc := NextFile\<rparr>) (b3, w3, m2\<lparr>pc := NextFile, pc := MergeDone\<rparr>)"
    by (rule sections_end) (simp_all add: f3 s2)
  from run_trans [OF 1 run_trans [OF 2 sections_step [OF _ _ finish this]]] s2(3)
  have "sections 9 (merge_begin remdups torn_cask torn_os) (b3, w3, m2\<lparr>pc := MergeDone\<rparr>)"
    by (simp flip: replicate_add replicate_Suc)
  ultimately show ?thesis by fastforce
qed

text \<open>The third merge scans the damaged file and removes it.\<close>

lemma merge_removes_live_file:
  assumes "damaged b w"
  shows "\<exists>b' w' m. sections 6 (merge_begin remdups b w) (b', w', m) \<and> pc m = MergeDone \<and>
     Get [107] b' w' = (Inl ErrInvalid, w')"
proof -
  note d = assms [unfolded damaged_def]
  let ?M = "merge_path New 1"
  have paths: "data_path b = data_path New" "merge_path b = merge_path New"
    using d by (simp_all add: data_path_def merge_path_def fun_eq_iff)
  obtain sg w1 where 1: "openMergeSegment b 2 w = (Inr sg, w1)" and f: "faults w1 = []"
    using openMergeSegment_ok d by blast
  have sg: "dataPath sg = merge_path New 2" using openMergeSegment_InrD [OF 1] paths by simp
  have w1: "content w1 ?M = take 16 (enc rec1) @ enc rec1" using openMergeSegment_content [OF 1] d by simp
  let ?m = "\<lambda>c fls. \<lparr>pc = c, segment = Some sg, immutableFiles = fls, pendingUpdates = Map.empty\<rparr>"
  have start: "merge_begin remdups b w = (b, w1, ?m NextFile [?M])"
    using d 1 sg paths by (simp add: merge_begin_def Let_def List.insert_def)
  have next_file: "merge_step (b, w1, ?m NextFile [?M]) = (b, w1, ?m (ScanEntry ?M 0) [])"
    using d by (simp add: merge_step_def merge_next_def)
  have skip: "merge_step (b, w1, ?m (ScanEntry ?M 0) []) = (b, w1, ?m (ScanEntry ?M 19) [])"
    using f w1 by (simp add: merge_step_def merge_scan_def go_simps Let_def enc_rec1 chunk_def hdr_ksz_def hdr_vsz_def
        hdr_flag_def Uint32_def)
  have eof: "merge_step (b, w1, ?m (ScanEntry ?M 19) []) = (b, w1, ?m (FinishFile ?M True) [])"
    using f w1 by (simp add: merge_step_def merge_scan_def go_simps)
  obtain b' w' where finish: "merge_step (b, w1, ?m (FinishFile ?M True) []) = (b', w', ?m NextFile [])"
    and b': "keyDir b' = apply_pending Map.empty (keyDir b)" "filePtrs b' = removeAll ?M (filePtrs b)" "faults w' = []"
    using finish_run [OF f, of "?m (FinishFile ?M True) []" sg ?M b] by (auto simp: merge_step_def)
  have "sections 2 (b', w', ?m NextFile []) (b', w', (?m NextFile [])\<lparr>pc := MergeDone\<rparr>)"
    by (rule sections_end) (simp_all add: b')
  from sections_step [OF _ _ finish this]
  have "sections 3 (b, w1, ?m (FinishFile ?M True) []) (b', w', ?m MergeDone [])" by simp
  from sections_step [OF _ _ eof this] have "sections 4 (b, w1, ?m (ScanEntry ?M 19) []) (b', w', ?m MergeDone [])" by simp
  from sections_step [OF _ _ next_file sections_step [OF _ _ skip this]]
  have "sections 6 (merge_begin remdups b w) (b', w', ?m MergeDone [])" unfolding start by simp
  moreover have "Get [107] b' w' = (Inl ErrInvalid, w')"
    using b' d by (simp add: Get_def apply_pending_def filePtr_def ReadAt_def)
  ultimately show ?thesis by fastforce
qed

section \<open>A key is lost\<close>

lemma run_map_merges: "run map_step M (replicate n EvMerge @ ls) M' \<longleftrightarrow> run map_step M ls M'"
  by (induction n) simp_all

lemma starts:
  assumes "pc m = MergeDone" and "run cask_step (merge_begin remdups b w) ls t"
  shows "run cask_step (b, w, m) (EvStart (segment_whole (b, w, m)) # ls) t"
  using step_start [OF assms(1), of remdups b w] by (rule run_Cons) (simp_all add: assms(2) map_order_def)

text \<open>
  The condition of the refinement theorem is needed. Put two keys that fill the first
  data file, let the write of the first copy of a merge fail after 16 bytes, and merge
  twice more without any fault: the first key was put successfully, was neither
  overwritten nor deleted, and can no longer be read. No map answers like this.
\<close>

theorem torn_append_loses_key:
  "\<exists>x y z t events.
     events = [EvPut [107] [118] None, EvPut [108] (e_val rec2) None, EvStart x] @ replicate 6 EvMerge @
       [EvStart y] @ replicate 9 EvMerge @ [EvStart z] @ replicate 6 EvMerge @ [EvGet [107] (Inl ErrInvalid)] \<and>
     run cask_step (New, empty_os\<lparr>faults := replicate 11 None @ [Some 16]\<rparr>, idle_proc MergeDone) events t \<and>
     (\<forall>M. \<not> run map_step Map.empty events M)"
proof -
  let ?m = "idle_proc MergeDone" and ?w = "empty_os\<lparr>faults := replicate 11 None @ [Some 16]\<rparr>"
  have pc: "pc ?m = MergeDone" by (simp add: idle_proc_def)
  obtain b w where puts: "Put 49 [107] [118] New ?w = (None, b, w)"
      "Put 0 [108] (e_val rec2) b w = (None, full_cask, full_os (replicate 7 None @ [Some 16]))"
    using fill_first_file [of "replicate 7 None @ [Some 16]"] by (auto simp: eval_nat_numeral)
  have put1: "cask_step (New, ?w, ?m) (EvPut [107] [118] None) (b, w, ?m)"
    by (rule step_put [OF _ _ puts(1)]) (simp_all add: pc fits_def headerSize_def)
  have put2: "cask_step (b, w, ?m) (EvPut [108] (e_val rec2) None) (full_cask, full_os (replicate 7 None @ [Some 16]), ?m)"
    by (rule step_put [OF _ _ puts(2)]) (simp_all add: pc fits_def headerSize_def)
  obtain m1 where 1: "sections 6 (merge_begin remdups full_cask (full_os (replicate 7 None @ [Some 16]))) (torn_cask, torn_os, m1)"
    and pc1: "pc m1 = MergeDone" using merge_tears by blast
  obtain b2 w2 m2 where 2: "sections 9 (merge_begin remdups torn_cask torn_os) (b2, w2, m2)"
    and pc2: "pc m2 = MergeDone" and dmg: "damaged b2 w2" using merge_appends_behind_tear by blast
  obtain b3 w3 m3 where 3: "sections 6 (merge_begin remdups b2 w2) (b3, w3, m3)"
    and pc3: "pc m3 = MergeDone" and get: "Get [107] b3 w3 = (Inl ErrInvalid, w3)"
    using merge_removes_live_file [OF dmg] by blast
  have "cask_step (b3, w3, m3) (EvGet [107] (Inl ErrInvalid)) (b3, w3, m3)"
    by (rule step_get [OF _ get]) (simp add: pc3)
  then have "run cask_step (b3, w3, m3) [EvGet [107] (Inl ErrInvalid)] (b3, w3, m3)"
    by (rule run_Cons) (rule run_Nil)
  note all = run_Cons [OF put1 run_Cons [OF put2 starts [OF pc run_trans [OF 1 starts [OF pc1
    run_trans [OF 2 starts [OF pc2 run_trans [OF 3 this]]]]]]]]
  let ?events = "\<lambda>x y z. [EvPut [107] [118] None, EvPut [108] (e_val rec2) None, EvStart x] @ replicate 6 EvMerge @
      [EvStart y] @ replicate 9 EvMerge @ [EvStart z] @ replicate 6 EvMerge @ [EvGet [107] (Inl ErrInvalid)]"
  from all have "\<exists>x y z. run cask_step (New, ?w, ?m) (?events x y z) (b3, w3, m3)"
    unfolding append.simps by blast
  moreover have "\<not> run map_step Map.empty (?events x y z) M" for x y z M
    by (simp add: run_map_merges get_spec_def)
  ultimately show ?thesis by blast
qed

end
