(* ===== verification/Word_Dictionary.thy ===== *)
theory Word_Dictionary
  imports Go_OS "HOL-Library.Sublist"
begin

text \<open>
  The dictionary of src/word-dictionary/main.go: an append-only file of entries with an
  in-memory index, lookups by offset, and \<open>Import\<close>, which merges the file with a change
  log into a temporary file and renames it. The package variable \<^verbatim>\<open>file\<close> is part of the
  state. All system calls may fail.
\<close>

section \<open>State\<close>

record DictionaryEntryMeta =
  offset :: nat
  entrySize :: nat

record WordDictionary =
  wordMetaMap :: "bytes \<Rightarrow> DictionaryEntryMeta option"
  currentOffset :: nat

text \<open>The package variable \<^verbatim>\<open>file\<close>: an open file, a closed one, or nil.\<close>

datatype go_file = FOpen string | FClosed | FNil

definition FilePath :: string where
  "FilePath = ''./word_dictionary''"

definition tempFilePath :: string where
  "tempFilePath = FilePath @ ''_temp''"

text \<open>
  \<^verbatim>\<open>ReadAt\<close> and \<^verbatim>\<open>Write\<close> through such a variable. Reading into an empty buffer
  succeeds on a closed file, because no system call is made.
\<close>

definition file_ReadAt :: "go_file \<Rightarrow> nat \<Rightarrow> nat \<Rightarrow> os \<Rightarrow> bytes result \<times> os" where
  "file_ReadAt f n off w = (case f of
       FOpen p \<Rightarrow> ReadAt (Some p) n off w
     | FClosed \<Rightarrow> (if n = 0 then (Inr [], w) else (Inl ErrClosed, w))
     | FNil \<Rightarrow> (Inl ErrInvalid, w))"

definition file_Write :: "go_file \<Rightarrow> bytes \<Rightarrow> os \<Rightarrow> (nat \<times> go_error option) \<times> os" where
  "file_Write f d w = (case f of
       FOpen p \<Rightarrow> Append (Some p) d w
     | FClosed \<Rightarrow> ((0, Some ErrClosed), w)
     | FNil \<Rightarrow> ((0, Some ErrInvalid), w))"

definition file_Size :: "go_file \<Rightarrow> os \<Rightarrow> nat result \<times> os" where
  "file_Size f w = (case f of
       FOpen p \<Rightarrow> file_Stat (Some p) w
     | FClosed \<Rightarrow> (Inl ErrClosed, w)
     | FNil \<Rightarrow> (Inl ErrInvalid, w))"

section \<open>Operations\<close>

text \<open>
  \<^verbatim>\<open>init\<close> opens the file or ends the process. \<^verbatim>\<open>NewWordDictionary\<close> ignores the error
  of \<^verbatim>\<open>Stat\<close> and then calls a method of the nil it returned.
\<close>

definition dict_init :: "os \<Rightarrow> go_file option \<times> os" where
  "dict_init w = (case OpenFile FilePath w of
       (Inl _, w1) \<Rightarrow> (None, w1)
     | (Inr _, w1) \<Rightarrow> (Some (FOpen FilePath), w1))"

definition NewWordDictionary :: "go_file \<Rightarrow> os \<Rightarrow> WordDictionary outcome \<times> os" where
  "NewWordDictionary f w = (case file_Size f w of
       (Inl _, w1) \<Rightarrow> (Panic, w1)
     | (Inr n, w1) \<Rightarrow> (Return \<lparr>wordMetaMap = Map.empty, currentOffset = n\<rparr>, w1))"

text \<open>The buffer of \<open>Insert\<close>: one byte of word length, three of meaning length, word, meaning.\<close>

definition meaningLenBytes :: "nat \<Rightarrow> bytes" where
  "meaningLenBytes n = [of_nat (drop_bit 16 n), of_nat (drop_bit 8 n), of_nat n]"

definition entry_bytes :: "bytes \<Rightarrow> bytes \<Rightarrow> bytes" where
  "entry_bytes word meaning = [of_nat (length word)] @ meaningLenBytes (length meaning) @ word @ meaning"

definition Insert :: "bytes \<Rightarrow> bytes \<Rightarrow> go_file \<Rightarrow> WordDictionary \<Rightarrow> os
    \<Rightarrow> go_error option \<times> WordDictionary \<times> os" where
  "Insert word meaning f d w =
     (if wordMetaMap d word = None then
        (let totalLen = 4 + length word + length meaning;
             result = entry_bytes word meaning
         in case file_Write f result w of
              ((_, Some err), w1) \<Rightarrow> (Some err, d, w1)
            | ((_, None), w1) \<Rightarrow>
                (None, d\<lparr>wordMetaMap := (wordMetaMap d)(word \<mapsto>
                           \<lparr>offset = currentOffset d, entrySize = totalLen\<rparr>),
                         currentOffset := currentOffset d + totalLen\<rparr>, w1))
      else (None, d, w))"

text \<open>The two lengths at the head of an entry.\<close>

definition wordLen :: "bytes \<Rightarrow> nat" where
  "wordLen b = unat (b ! 0)"

definition meaningLen :: "bytes \<Rightarrow> nat" where
  "meaningLen b = push_bit 16 (unat (b ! 1)) OR push_bit 8 (unat (b ! 2)) OR unat (b ! 3)"

definition GetMeaning :: "bytes \<Rightarrow> go_file \<Rightarrow> WordDictionary \<Rightarrow> os \<Rightarrow> bytes outcome \<times> os" where
  "GetMeaning word f d w = (case wordMetaMap d word of
     None \<Rightarrow> (Return [], w)
   | Some meta \<Rightarrow>
       (case file_ReadAt f (entrySize meta) (offset meta) w of
          (Inl _, w1) \<Rightarrow> (Return [], w1)
        | (Inr byteArr, w1) \<Rightarrow>
            (if length byteArr < 4 \<or> length byteArr < 4 + wordLen byteArr + meaningLen byteArr then (Panic, w1)
             else (Return (chunk (4 + wordLen byteArr) (meaningLen byteArr) byteArr), w1))))"

text \<open>A client that inserts words one after the other, as \<^verbatim>\<open>main\<close> does.\<close>

fun insert_all :: "(bytes \<times> bytes) list \<Rightarrow> go_file \<Rightarrow> WordDictionary \<Rightarrow> os \<Rightarrow> WordDictionary \<times> os" where
  "insert_all [] f d w = (d, w)"
| "insert_all ((k, v) # kvs) f d w = (case Insert k v f d w of (_, d', w') \<Rightarrow> insert_all kvs f d' w')"

subsection \<open>Import\<close>

record import_state =
  tempMetaMap :: "bytes \<Rightarrow> DictionaryEntryMeta option"
  tempFileOffset :: nat
  currentFileOffset :: nat
  changeLogFileOffset :: nat

text \<open>The two reads of an entry in the first loop: its lengths, then word and meaning.\<close>

definition read_split :: "string \<Rightarrow> go_file \<Rightarrow> nat \<Rightarrow> os \<Rightarrow> (bytes \<times> bytes) result \<times> os" where
  "read_split name f off w =
     (case file_ReadAt f 4 off w of
        (Inl _, w1) \<Rightarrow> (Inl (ErrMsg (''reading '' @ name @ '' length bytes'')), w1)
      | (Inr lenBytes, w1) \<Rightarrow>
          (case file_ReadAt f (wordLen lenBytes + meaningLen lenBytes) (off + 4) w1 of
             (Inl _, w2) \<Rightarrow> (Inl (ErrMsg (''reading '' @ name @ '' payload'')), w2)
           | (Inr payload, w2) \<Rightarrow> (Inr (lenBytes, payload), w2)))"

text \<open>Writing an entry to the temporary file and to the new index.\<close>

definition write_temp :: "string \<Rightarrow> string \<Rightarrow> bytes \<Rightarrow> bytes \<Rightarrow> import_state \<Rightarrow> os \<Rightarrow> import_state result \<times> os" where
  "write_temp failed incomplete word buf st w =
     (case Append (Some tempFilePath) buf w of
        ((_, Some _), w1) \<Rightarrow> (Inl (ErrMsg failed), w1)
      | ((n, None), w1) \<Rightarrow>
          (if n \<noteq> length buf then (Inl (ErrMsg incomplete), w1)
           else (Inr (st\<lparr>tempMetaMap := (tempMetaMap st)(word \<mapsto>
                           \<lparr>offset = tempFileOffset st, entrySize = length buf\<rparr>),
                         tempFileOffset := tempFileOffset st + length buf\<rparr>), w1)))"

text \<open>One turn of the first loop, the comparison of the two words included.\<close>

definition merge_once :: "go_file \<Rightarrow> go_file \<Rightarrow> import_state \<Rightarrow> os \<Rightarrow> import_state result \<times> os" where
  "merge_once f ch st w =
     (case read_split ''current file'' f (currentFileOffset st) w of
        (Inl err, w1) \<Rightarrow> (Inl err, w1)
      | (Inr (curLenBytes, curPayload), w1) \<Rightarrow>
          (case read_split ''change log'' ch (changeLogFileOffset st) w1 of
             (Inl err, w2) \<Rightarrow> (Inl err, w2)
           | (Inr (chLenBytes, chPayload), w2) \<Rightarrow>
               (let curEntrySize = 4 + wordLen curLenBytes + meaningLen curLenBytes;
                    chEntrySize = 4 + wordLen chLenBytes + meaningLen chLenBytes;
                    curWord = take (wordLen curLenBytes) curPayload;
                    chWord = take (wordLen chLenBytes) chPayload
                in if curWord = chWord then
                     write_temp ''writing to temp file'' ''incomplete write to temp file'' chWord (chLenBytes @ chPayload)
                       (st\<lparr>currentFileOffset := currentFileOffset st + curEntrySize,
                           changeLogFileOffset := changeLogFileOffset st + chEntrySize\<rparr>) w2
                   else if curWord < chWord then
                     write_temp ''writing to temp file'' ''incomplete write to temp file'' curWord (curLenBytes @ curPayload)
                       (st\<lparr>currentFileOffset := currentFileOffset st + curEntrySize\<rparr>) w2
                   else
                     write_temp ''writing to temp file'' ''incomplete write to temp file'' chWord (chLenBytes @ chPayload)
                       (st\<lparr>changeLogFileOffset := changeLogFileOffset st + chEntrySize\<rparr>) w2)))"

lemma write_temp_InrD:
  "write_temp m1 m2 word buf st w = (Inr st', w') \<Longrightarrow>
   currentFileOffset st' = currentFileOffset st \<and> changeLogFileOffset st' = changeLogFileOffset st \<and>
   tempFileOffset st' = tempFileOffset st + length buf"
  by (auto simp: write_temp_def split: prod.splits option.splits if_splits)

lemma merge_once_progress:
  assumes "merge_once f ch st w = (Inr st', w')"
  shows "currentFileOffset st \<le> currentFileOffset st' \<and> changeLogFileOffset st \<le> changeLogFileOffset st' \<and>
    currentFileOffset st + changeLogFileOffset st < currentFileOffset st' + changeLogFileOffset st'"
  using assms
  by (auto simp: merge_once_def Let_def split: prod.splits sum.splits if_splits dest!: write_temp_InrD)

function merge_loop :: "go_file \<Rightarrow> go_file \<Rightarrow> nat \<Rightarrow> nat \<Rightarrow> import_state \<Rightarrow> os \<Rightarrow> import_state result \<times> os" where
  "merge_loop f ch curEnd chEnd st w =
     (if currentFileOffset st < curEnd \<and> changeLogFileOffset st < chEnd then
        (case merge_once f ch st w of
           (Inl err, w1) \<Rightarrow> (Inl err, w1)
         | (Inr st1, w1) \<Rightarrow> merge_loop f ch curEnd chEnd st1 w1)
      else (Inr st, w))"
  by pat_completeness auto

termination
proof (relation "measure (\<lambda>(f, ch, curEnd, chEnd, st, w).
    (curEnd - currentFileOffset st) + (chEnd - changeLogFileOffset st))", goal_cases)
  case (2 f ch curEnd chEnd st w x w1 st1)
  then have "merge_once f ch st w = (Inr st1, w1)" by simp
  from merge_once_progress [OF this] 2(1) show ?case by auto
qed simp

declare merge_loop.simps [simp del]

text \<open>
  The second and the third loop copy what is left of one of the files. They differ in the
  file and in the offset they advance; the third enters an entry in the index before it
  writes it, which no caller can see, because the index is dropped when the write fails.
\<close>

text \<open>The messages: length prefix, entry, write, incomplete write.\<close>

type_synonym copy_msgs = "string \<times> string \<times> string \<times> string"

definition current_msgs :: copy_msgs where
  "current_msgs = (''reading current file length bytes'', ''reading current file entry bytes'',
     ''writing current file entry to temp file'', ''incomplete write of current file entry'')"

definition change_msgs :: copy_msgs where
  "change_msgs = (''reading length bytes'', ''reading entry bytes'',
     ''writing temp file'', ''incomplete write to temp file'')"

definition copy_once :: "copy_msgs \<Rightarrow> go_file \<Rightarrow> nat \<Rightarrow> import_state \<Rightarrow> os \<Rightarrow> (nat \<times> import_state) result \<times> os" where
  "copy_once msgs src off st w = (case msgs of (lenMsg, entryMsg, writeMsg, incompleteMsg) \<Rightarrow>
     (case file_ReadAt src 4 off w of
        (Inl _, w1) \<Rightarrow> (Inl (ErrMsg lenMsg), w1)
      | (Inr lenBytes, w1) \<Rightarrow>
          (let sz = 4 + wordLen lenBytes + meaningLen lenBytes
           in case file_ReadAt src sz off w1 of
                (Inl _, w2) \<Rightarrow> (Inl (ErrMsg entryMsg), w2)
              | (Inr buf, w2) \<Rightarrow>
                  (case write_temp writeMsg incompleteMsg (chunk 4 (wordLen lenBytes) buf) buf st w2 of
                     (Inl err, w3) \<Rightarrow> (Inl err, w3)
                   | (Inr st1, w3) \<Rightarrow> (Inr (off + sz, st1), w3)))))"

lemma copy_once_progress:
  "copy_once msgs src off st w = (Inr (off', st'), w') \<Longrightarrow> off < off'"
  by (auto simp: copy_once_def Let_def split: prod.splits sum.splits)

function copy_loop :: "copy_msgs \<Rightarrow> go_file \<Rightarrow> nat \<Rightarrow> nat \<Rightarrow> import_state \<Rightarrow> os \<Rightarrow> import_state result \<times> os" where
  "copy_loop msgs src off endOff st w =
     (if off < endOff then
        (case copy_once msgs src off st w of
           (Inl err, w1) \<Rightarrow> (Inl err, w1)
         | (Inr (off1, st1), w1) \<Rightarrow> copy_loop msgs src off1 endOff st1 w1)
      else (Inr st, w))"
  by pat_completeness auto

termination
  by (relation "measure (\<lambda>(msgs, src, off, endOff, st, w). endOff - off)")
     (auto dest!: copy_once_progress [OF sym])

declare copy_loop.simps [simp del]

text \<open>The three loops, from the opened files to the complete temporary file.\<close>

definition import_loops :: "go_file \<Rightarrow> go_file \<Rightarrow> nat \<Rightarrow> nat \<Rightarrow> os \<Rightarrow> import_state result \<times> os" where
  "import_loops f ch curEnd chEnd w =
     (case merge_loop f ch curEnd chEnd
             \<lparr>tempMetaMap = Map.empty, tempFileOffset = 0, currentFileOffset = 0, changeLogFileOffset = 0\<rparr> w of
        (Inl err, w1) \<Rightarrow> (Inl err, w1)
      | (Inr st, w1) \<Rightarrow>
          (case copy_loop current_msgs f (currentFileOffset st) curEnd st w1 of
             (Inl err, w2) \<Rightarrow> (Inl err, w2)
           | (Inr st1, w2) \<Rightarrow> copy_loop change_msgs ch (changeLogFileOffset st) chEnd st1 w2))"

text \<open>
  Replacing the file. \<^verbatim>\<open>file.Close()\<close> comes before the rename, so an error there leaves
  the variable closed; a failed reopen sets it to nil.
\<close>

definition import_swap :: "import_state \<Rightarrow> WordDictionary \<Rightarrow> os
    \<Rightarrow> go_error option \<times> go_file \<times> WordDictionary \<times> os" where
  "import_swap st d w =
     (let w1 = snd (Sync (Some tempFilePath) w);
          w2 = snd (Close (Some tempFilePath) w1);
          w3 = snd (Close (Some FilePath) w2)
      in case Rename tempFilePath FilePath w3 of
           (Inl _, w4) \<Rightarrow> (Some (ErrMsg ''renaming temp file failed''), FClosed, d, w4)
         | (Inr _, w4) \<Rightarrow>
             (case OpenFile FilePath w4 of
                (Inl _, w5) \<Rightarrow> (Some (ErrMsg ''reopening file failed''), FNil, d, w5)
              | (Inr _, w5) \<Rightarrow>
                  (None, FOpen FilePath,
                   d\<lparr>wordMetaMap := tempMetaMap st, currentOffset := tempFileOffset st\<rparr>, w5)))"

text \<open>
  The whole of \<open>Import\<close>. The deferred calls close the change log, and before it the
  temporary file unless it is closed already.
\<close>

definition Import :: "string \<Rightarrow> go_file \<Rightarrow> WordDictionary \<Rightarrow> os
    \<Rightarrow> go_error option \<times> go_file \<times> WordDictionary \<times> os" where
  "Import changeLogFilePath f d w =
     (case OpenRead changeLogFilePath w of
        (Inl _, w1) \<Rightarrow> (Some (ErrMsg ''error opening change log''), f, d, w1)
      | (Inr _, w1) \<Rightarrow>
          (let closeLog = (\<lambda>v. snd (Close (Some changeLogFilePath) v));
               closeTemp = (\<lambda>v. snd (Close (Some tempFilePath) v))
           in case file_Stat (Some changeLogFilePath) w1 of
                (Inl _, w2) \<Rightarrow> (Some (ErrMsg ''error stating change log''), f, d, closeLog w2)
              | (Inr infoSize, w2) \<Rightarrow>
                  (case OpenTrunc tempFilePath w2 of
                     (Inl _, w3) \<Rightarrow> (Some (ErrMsg ''error creating temp file''), f, d, closeLog w3)
                   | (Inr _, w3) \<Rightarrow>
                       (case import_loops f (FOpen changeLogFilePath) (currentOffset d) infoSize w3 of
                          (Inl err, w4) \<Rightarrow> (Some err, f, d, closeLog (closeTemp w4))
                        | (Inr st, w4) \<Rightarrow>
                            (case import_swap st d w4 of
                               (err, f', d', w5) \<Rightarrow> (err, f', d', closeLog w5))))))"

text \<open>
  The program: \<^verbatim>\<open>init\<close>, three inserts and an import whose errors nobody looks at, and the end of the
  file, which \<^verbatim>\<open>Import\<close> may have left closed or nil.
\<close>

definition main_words :: "(bytes \<times> bytes) list" where
  "main_words = [(str_bytes ''Apple'', str_bytes ''A fruit''), (str_bytes ''Ball'', str_bytes ''A Ball''),
     (str_bytes ''Cat'', str_bytes ''A Cat'')]"

definition file_Sync_Close :: "go_file \<Rightarrow> os \<Rightarrow> os" where
  "file_Sync_Close f w = (case f of
       FOpen p \<Rightarrow> snd (Close (Some p) (snd (Sync (Some p) w)))
     | FClosed \<Rightarrow> w
     | FNil \<Rightarrow> w)"

definition dictionary_main :: "os \<Rightarrow> WordDictionary outcome process \<times> os" where
  "dictionary_main w = (case dict_init w of
       (None, w1) \<Rightarrow> (Fatal, w1)
     | (Some f, w1) \<Rightarrow>
         (case NewWordDictionary f w1 of
            (Panic, w2) \<Rightarrow> (Continue Panic, w2)
          | (Return d, w2) \<Rightarrow>
              (case insert_all main_words f d w2 of
                 (d1, w3) \<Rightarrow>
                   (case Import ''./change_log'' f d1 w3 of
                      (_, f', d', w4) \<Rightarrow> (Continue (Return d'), file_Sync_Close f' w4)))))"

section \<open>Entries and logs of entries\<close>

type_synonym dict_entry = "bytes \<times> bytes"

definition ok_entry :: "dict_entry \<Rightarrow> bool" where
  "ok_entry e \<longleftrightarrow> length (fst e) < 2 ^ 8 \<and> length (snd e) < 2 ^ 24"

definition dict_log :: "dict_entry list \<Rightarrow> bytes" where
  "dict_log es = concat (map (\<lambda>(word, meaning). entry_bytes word meaning) es)"

definition d_size :: "dict_entry \<Rightarrow> nat" where
  "d_size e = 4 + length (fst e) + length (snd e)"

lemma dict_log_simps [simp]:
  "dict_log [] = []" "dict_log (e # es) = entry_bytes (fst e) (snd e) @ dict_log es"
  "dict_log (xs @ ys) = dict_log xs @ dict_log ys"
  by (simp_all add: dict_log_def split_beta)

lemma length_entry_bytes [simp]: "length (entry_bytes k v) = 4 + length k + length v"
  by (simp add: entry_bytes_def meaningLenBytes_def)

lemma be24:
  assumes "n < 2 ^ 24"
  shows "push_bit 16 (unat (of_nat (drop_bit 16 n) :: byte)) OR push_bit 8 (unat (of_nat (drop_bit 8 n) :: byte)) OR
         unat (of_nat n :: byte) = n"
proof -
  have high: "\<not> bit n i" if "24 \<le> i" for i
  proof -
    have "n < 2 ^ i" using assms that by (meson less_le_trans one_le_numeral power_increasing)
    then show ?thesis by (simp add: bit_iff_odd)
  qed
  have low: "unat (of_nat x :: byte) = take_bit 8 x" for x
    by (simp add: unat_of_nat take_bit_eq_mod)
  show ?thesis
    unfolding low
  proof (rule bit_eqI)
    fix i
    show "bit (push_bit 16 (take_bit 8 (drop_bit 16 n)) OR push_bit 8 (take_bit 8 (drop_bit 8 n)) OR take_bit 8 n) i =
        bit n i"
      using high [of i] by (cases "i < 8"; cases "i < 16"; cases "i < 24") (auto simp: bit_simps)
  qed
qed

lemma entry_lengths:
  assumes "ok_entry (k, v)"
  shows "wordLen (entry_bytes k v @ r) = length k" and "meaningLen (entry_bytes k v @ r) = length v"
    and "wordLen (take 4 (entry_bytes k v @ r)) = length k" and "meaningLen (take 4 (entry_bytes k v @ r)) = length v"
  using assms be24 [of "length v"]
  by (simp_all add: ok_entry_def wordLen_def meaningLen_def entry_bytes_def meaningLenBytes_def unat_of_nat)

lemma entry_parts:
  "drop 4 (entry_bytes k v) = k @ v" "chunk 4 (length k) (entry_bytes k v) = k"
  "chunk (4 + length k) (length v) (entry_bytes k v) = v"
proof -
  show drop: "drop 4 (entry_bytes k v) = k @ v"
    by (simp add: entry_bytes_def meaningLenBytes_def)
  then show "chunk 4 (length k) (entry_bytes k v) = k" by (simp add: chunk_def)
  have "drop (4 + length k) (entry_bytes k v) = drop (length k) (drop 4 (entry_bytes k v))"
    by (simp add: add.commute)
  then show "chunk (4 + length k) (length v) (entry_bytes k v) = v"
    by (simp only: drop chunk_def) simp
qed

text \<open>An entry inside a log, as the reads at its offset see it.\<close>

lemma log_reads:
  assumes "c = dict_log (xs @ (k, v) # ys)" and "ok_entry (k, v)"
  shows "chunk (length (dict_log xs)) (4 + length k + length v) c = entry_bytes k v"
    and "length (dict_log xs) + 4 + length k + length v \<le> length c"
    and "wordLen (chunk (length (dict_log xs)) 4 c) = length k"
    and "meaningLen (chunk (length (dict_log xs)) 4 c) = length v"
    and "chunk (length (dict_log xs)) 4 c = take 4 (entry_bytes k v)"
    and "chunk (length (dict_log xs) + 4) (length k + length v) c = k @ v"
proof -
  have split: "c = dict_log xs @ entry_bytes k v @ dict_log ys" by (simp add: assms(1))
  show c: "chunk (length (dict_log xs)) (4 + length k + length v) c = entry_bytes k v"
    and "length (dict_log xs) + 4 + length k + length v \<le> length c"
    by (simp_all add: split chunk_def)
  show h: "chunk (length (dict_log xs)) 4 c = take 4 (entry_bytes k v)"
    by (simp add: split chunk_def)
  show "wordLen (chunk (length (dict_log xs)) 4 c) = length k"
    "meaningLen (chunk (length (dict_log xs)) 4 c) = length v"
    using entry_lengths [OF assms(2), of "[]"] by (simp_all add: h)
  have "chunk (length (dict_log xs) + 4) (length k + length v) c =
      drop 4 (chunk (length (dict_log xs)) (4 + length k + length v) c)"
    by (simp add: chunk_def drop_take add.commute add.left_commute)
  then show "chunk (length (dict_log xs) + 4) (length k + length v) c = k @ v"
    by (simp add: c entry_parts)
qed

section \<open>Representation\<close>

text \<open>An index entry that points at the entry of a word with a meaning.\<close>

definition meaning_at :: "dict_entry list \<Rightarrow> bytes \<Rightarrow> DictionaryEntryMeta \<Rightarrow> bytes \<Rightarrow> bool" where
  "meaning_at es k meta v \<longleftrightarrow> (\<exists>xs ys. es = xs @ (k, v) # ys \<and>
     meta = \<lparr>offset = length (dict_log xs), entrySize = d_size (k, v)\<rparr>)"

text \<open>The dictionary holds the map \<open>M\<close>: its file is the log \<open>es\<close>, its index points into it.\<close>

definition dict_rep :: "go_file \<Rightarrow> WordDictionary \<Rightarrow> os \<Rightarrow> dict_entry list \<Rightarrow> (bytes \<Rightarrow> bytes option) \<Rightarrow> bool" where
  "dict_rep f d w es M \<longleftrightarrow> f = FOpen FilePath \<and> (\<forall>e \<in> set es. ok_entry e) \<and>
     content w FilePath = dict_log es \<and> currentOffset d = length (dict_log es) \<and>
     (\<forall>k. case wordMetaMap d k of None \<Rightarrow> M k = None | Some meta \<Rightarrow> \<exists>v. M k = Some v \<and> meaning_at es k meta v)"

lemma meaning_at_append: "meaning_at es k meta v \<Longrightarrow> meaning_at (es @ gs) k meta v"
  unfolding meaning_at_def by (metis append.assoc append_Cons)

lemma meaning_at_last: "meaning_at (es @ [(k, v)]) k \<lparr>offset = length (dict_log es), entrySize = d_size (k, v)\<rparr> v"
  unfolding meaning_at_def by blast

lemma GetMeaning_result:
  assumes rep: "dict_rep f d w es M"
  shows "fst (GetMeaning k f d w) = Return (case M k of None \<Rightarrow> [] | Some v \<Rightarrow> v) \<or>
         fst (GetMeaning k f d w) = Return [] \<and> faults w \<noteq> []"
    and "fs (snd (GetMeaning k f d w)) = fs w"
proof -
  note r = rep [unfolded dict_rep_def]
  show "fs (snd (GetMeaning k f d w)) = fs w"
    using r by (auto simp: GetMeaning_def file_ReadAt_def split: option.splits prod.splits sum.splits dest: frameD)
  show "fst (GetMeaning k f d w) = Return (case M k of None \<Rightarrow> [] | Some v \<Rightarrow> v) \<or>
         fst (GetMeaning k f d w) = Return [] \<and> faults w \<noteq> []"
  proof (cases "wordMetaMap d k")
    case None
    with r show ?thesis by (auto simp: GetMeaning_def split: option.splits dest!: spec [of _ k])
  next
    case (Some meta)
    with r obtain v where M: "M k = Some v" and "meaning_at es k meta v" by (auto dest!: spec [of _ k])
    then obtain xs ys where es: "es = xs @ (k, v) # ys" and
      meta: "meta = \<lparr>offset = length (dict_log xs), entrySize = d_size (k, v)\<rparr>"
      by (auto simp: meaning_at_def)
    have ok: "ok_entry (k, v)" using r es by auto
    note rd = log_reads [OF _ ok, of "content w FilePath" xs ys] and len = entry_lengths [OF ok, of "[]"]
    have log: "content w FilePath = dict_log (xs @ (k, v) # ys)" using r es by simp
    have "fst (GetMeaning k f d w) = Return v \<or> fst (GetMeaning k f d w) = Return [] \<and> faults w \<noteq> []"
      using r Some meta rd(1,2) [OF log] len entry_parts(3) [of k v] next_fault_Nil [of w]
      by (auto simp: GetMeaning_def file_ReadAt_def ReadAt_def d_size_def split: prod.splits option.splits)
    with M show ?thesis by simp
  qed
qed

text \<open>
  Insertion adds a word that is not there and does nothing for one that is. A write that
  fails having written nothing changes nothing.
\<close>

lemma Insert_rep:
  assumes rep: "dict_rep f d w es M" and ok: "ok_entry (k, v)" and nofault: "faults w = []"
  shows "\<exists>d' w'. Insert k v f d w = (None, d', w') \<and> faults w' = [] \<and> (\<forall>p. p \<noteq> FilePath \<longrightarrow> fs w' p = fs w p) \<and>
     dict_rep f d' w' (if M k = None then es @ [(k, v)] else es) (if M k = None then M(k \<mapsto> v) else M)"
proof (cases "wordMetaMap d k")
  case None
  note r = rep [unfolded dict_rep_def]
  let ?w = "w\<lparr>fs := (fs w)(FilePath \<mapsto> content w FilePath @ entry_bytes k v)\<rparr>"
  let ?meta = "\<lparr>offset = currentOffset d, entrySize = d_size (k, v)\<rparr>"
  let ?d = "d\<lparr>wordMetaMap := (wordMetaMap d)(k \<mapsto> ?meta), currentOffset := currentOffset d + d_size (k, v)\<rparr>"
  have M: "M k = None" using r None by (auto dest!: spec [of _ k])
  have "file_Write f (entry_bytes k v) w = ((length (entry_bytes k v), None), ?w)"
    using r nofault by (simp add: file_Write_def Append_def go_simps write_at_append)
  then have run: "Insert k v f d w = (None, ?d, ?w)" using None by (simp add: Insert_def Let_def d_size_def)
  have "case wordMetaMap ?d x of None \<Rightarrow> (M(k \<mapsto> v)) x = None
      | Some meta \<Rightarrow> \<exists>u. (M(k \<mapsto> v)) x = Some u \<and> meaning_at (es @ [(k, v)]) x meta u" for x
  proof (cases "x = k")
    case True
    with r meaning_at_last [of es k v] show ?thesis by simp
  next
    case False
    with r meaning_at_append [of es x _ _ "[(k, v)]"] show ?thesis
      by (fastforce split: option.splits dest!: spec [of _ x])
  qed
  then have "dict_rep f ?d ?w (es @ [(k, v)]) (M(k \<mapsto> v))"
    using r ok by (simp add: dict_rep_def d_size_def)
  with run nofault M show ?thesis by auto
next
  case (Some meta)
  with rep have "M k \<noteq> None" by (auto simp: dict_rep_def dest!: spec [of _ k])
  with Some rep nofault show ?thesis by (auto simp: Insert_def)
qed

section \<open>The merge of two logs\<close>

text \<open>What the first loop computes, as a function on lists of entries.\<close>

fun merge_logs :: "dict_entry list \<Rightarrow> dict_entry list \<Rightarrow> dict_entry list" where
  "merge_logs [] hs = hs"
| "merge_logs es [] = es"
| "merge_logs (e # es) (h # hs) =
     (if fst e = fst h then h # merge_logs es hs
      else if fst e < fst h then e # merge_logs es (h # hs)
      else h # merge_logs (e # es) hs)"

lemma merge_logs_Nil [simp]: "merge_logs es [] = es"
  by (cases es) simp_all

text \<open>A log sorted by word without repetitions.\<close>

definition sorted_log :: "dict_entry list \<Rightarrow> bool" where
  "sorted_log es \<longleftrightarrow> sorted_wrt (<) (map fst es)"

lemma sorted_log_simps [simp]:
  "sorted_log []" "sorted_log (e # es) \<longleftrightarrow> (\<forall>x \<in> set es. fst e < fst x) \<and> sorted_log es"
  by (auto simp: sorted_log_def)

lemma set_merge_logs: "set (merge_logs es hs) \<subseteq> set es \<union> set hs"
  by (induction es hs rule: merge_logs.induct) auto

lemma sorted_merge_logs: "sorted_log es \<Longrightarrow> sorted_log hs \<Longrightarrow> sorted_log (merge_logs es hs)"
proof (induction es hs rule: merge_logs.induct)
  case (3 e es h hs)
  have below: "\<forall>x \<in> set (merge_logs xs ys). a < fst x"
    if "\<forall>x \<in> set xs. a < fst x" "\<forall>x \<in> set ys. a < fst x" for a xs ys
    using that set_merge_logs [of xs ys] by auto
  consider (eq) "fst e = fst h" | (lt) "fst e < fst h" | (gt) "\<not> fst e < fst h" "fst e \<noteq> fst h" by blast
  then show ?case
  proof cases
    case eq
    have "sorted_log (merge_logs es hs)" by (rule "3.IH"(1) [OF eq]) (use "3.prems" in simp_all)
    with eq "3.prems" below [of es "fst h" hs] show ?thesis by simp
  next
    case lt
    have "sorted_log (merge_logs es (h # hs))"
      by (rule "3.IH"(2)) (use lt "3.prems" in simp_all)
    moreover have "\<forall>x \<in> set (h # hs). fst e < fst x" using lt "3.prems"(2) by (auto dest: less_trans)
    ultimately show ?thesis
      using lt less_imp_neq [OF lt] "3.prems"(1) below [of es "fst e" "h # hs"] by simp
  next
    case gt
    then have "fst h < fst e" by simp
    have "sorted_log (merge_logs (e # es) hs)"
      by (rule "3.IH"(3)) (use gt "3.prems" in simp_all)
    moreover have "\<forall>x \<in> set (e # es). fst h < fst x"
      using \<open>fst h < fst e\<close> "3.prems"(1) by (auto dest: less_trans)
    moreover have "\<forall>x \<in> set hs. fst h < fst x" using "3.prems"(2) by simp
    moreover have "merge_logs (e # es) (h # hs) = h # merge_logs (e # es) hs" using gt by simp
    ultimately show ?thesis using below [of "e # es" "fst h" hs] by (metis sorted_log_simps(2))
  qed
qed simp_all

text \<open>On sorted logs the merge is the union in which the change log wins.\<close>

lemma map_of_below: "\<forall>x \<in> set es. a < fst x \<Longrightarrow> map_of es (a :: bytes) = None"
  by (auto simp: map_of_eq_None_iff)

lemma map_of_merge_logs:
  "sorted_log es \<Longrightarrow> sorted_log hs \<Longrightarrow> map_of (merge_logs es hs) = map_of es ++ map_of hs"
proof (induction es hs rule: merge_logs.induct)
  case (3 e es h hs)
  obtain ke ve kh vh where eh: "e = (ke, ve)" "h = (kh, vh)" by (cases e, cases h) auto
  consider (eq) "ke = kh" | (lt) "ke < kh" | (gt) "\<not> ke < kh" "ke \<noteq> kh" by blast
  then show ?case
  proof cases
    case eq
    have "map_of (merge_logs es hs) = map_of es ++ map_of hs"
      by (rule "3.IH"(1)) (use eq eh "3.prems" in simp_all)
    with eq eh show ?thesis by (auto simp: fun_eq_iff map_add_def split: option.splits)
  next
    case lt
    have "map_of (merge_logs es (h # hs)) = map_of es ++ map_of (h # hs)"
      by (rule "3.IH"(2)) (use lt eh "3.prems" in simp_all)
    moreover have "map_of (h # hs) ke = None"
      by (rule map_of_below) (use "3.prems"(2) lt eh in \<open>auto dest: less_trans\<close>)
    ultimately show ?thesis using eh lt by (auto simp: fun_eq_iff map_add_def split: option.splits)
  next
    case gt
    have "map_of (merge_logs (e # es) hs) = map_of (e # es) ++ map_of hs"
      by (rule "3.IH"(3)) (use gt eh "3.prems" in simp_all)
    with eh gt show ?thesis by (auto simp: fun_eq_iff map_add_def split: option.splits)
  qed
qed simp_all

lemma distinct_sorted_log:
  assumes "sorted_log es"
  shows "map_of (rev es) = map_of es"
proof -
  have "distinct (map fst es)" using assms by (simp add: sorted_log_def strict_sorted_iff)
  then show ?thesis by (simp add: map_of_inject_set flip: rev_map)
qed

section \<open>What the loops compute\<close>

text \<open>The index of a log: the last entry of a word wins.\<close>

definition index_add :: "dict_entry list \<Rightarrow> dict_entry \<Rightarrow> (bytes \<Rightarrow> DictionaryEntryMeta option) \<Rightarrow>
    bytes \<Rightarrow> DictionaryEntryMeta option" where
  "index_add xs e m = m(fst e \<mapsto> \<lparr>offset = length (dict_log xs), entrySize = d_size e\<rparr>)"

text \<open>The temporary file and the index built so far hold the log \<open>out\<close>.\<close>

definition temp_rep :: "import_state \<Rightarrow> os \<Rightarrow> dict_entry list \<Rightarrow> bool" where
  "temp_rep st w out \<longleftrightarrow> content w tempFilePath = dict_log out \<and> tempFileOffset st = length (dict_log out) \<and>
     (\<forall>k. case tempMetaMap st k of None \<Rightarrow> map_of (rev out) k = None
        | Some meta \<Rightarrow> \<exists>v. map_of (rev out) k = Some v \<and> meaning_at out k meta v)"

lemma temp_rep_offsets [simp]:
  "temp_rep (st\<lparr>currentFileOffset := a\<rparr>) w out = temp_rep st w out"
  "temp_rep (st\<lparr>changeLogFileOffset := b\<rparr>) w out = temp_rep st w out"
  by (simp_all add: temp_rep_def)

lemma write_temp_ok:
  assumes nf: "faults w = []" and rep: "temp_rep st w out"
  shows "\<exists>st' w'. write_temp m1 m2 k (entry_bytes k v) st w = (Inr st', w') \<and> faults w' = [] \<and>
     temp_rep st' w' (out @ [(k, v)]) \<and> (\<forall>p. p \<noteq> tempFilePath \<longrightarrow> content w' p = content w p) \<and>
     fs w' tempFilePath \<noteq> None \<and>
     currentFileOffset st' = currentFileOffset st \<and> changeLogFileOffset st' = changeLogFileOffset st"
proof -
  note r = rep [unfolded temp_rep_def]
  let ?meta = "\<lparr>offset = length (dict_log out), entrySize = d_size (k, v)\<rparr>"
  let ?st = "st\<lparr>tempMetaMap := (tempMetaMap st)(k \<mapsto> ?meta), tempFileOffset := tempFileOffset st + d_size (k, v)\<rparr>"
  let ?w = "w\<lparr>fs := (fs w)(tempFilePath \<mapsto> dict_log out @ entry_bytes k v)\<rparr>"
  have run: "write_temp m1 m2 k (entry_bytes k v) st w = (Inr ?st, ?w)"
    using r nf by (simp add: write_temp_def Append_def go_simps write_at_append d_size_def)
  have "case (tempMetaMap ?st) x of None \<Rightarrow> map_of (rev (out @ [(k, v)])) x = None
      | Some meta \<Rightarrow> \<exists>u. map_of (rev (out @ [(k, v)])) x = Some u \<and> meaning_at (out @ [(k, v)]) x meta u" for x
  proof (cases "x = k")
    case True
    with meaning_at_last [of out k v] show ?thesis by simp
  next
    case False
    with r meaning_at_append [of out x _ _ "[(k, v)]"] show ?thesis
      by (fastforce split: option.splits dest!: spec [of _ x])
  qed
  then have "temp_rep ?st ?w (out @ [(k, v)])"
    using r by (simp add: temp_rep_def d_size_def)
  with run nf show ?thesis by auto
qed

lemma file_read_ok:
  assumes "faults w = []" and "content w p = dict_log (xs @ (k, v) # ys)" and "ok_entry (k, v)"
  shows "read_split name (FOpen p) (length (dict_log xs)) w = (Inr (take 4 (entry_bytes k v), k @ v), w)"
    and "file_ReadAt (FOpen p) 4 (length (dict_log xs)) w = (Inr (take 4 (entry_bytes k v)), w)"
    and "file_ReadAt (FOpen p) (4 + length k + length v) (length (dict_log xs)) w = (Inr (entry_bytes k v), w)"
proof -
  note rd = log_reads [OF assms(2,3)] and len = entry_lengths [OF assms(3), of "[]"]
  show four: "file_ReadAt (FOpen p) 4 (length (dict_log xs)) w = (Inr (take 4 (entry_bytes k v)), w)"
    using assms(1) rd(2,5) by (simp add: file_ReadAt_def go_simps)
  have pay: "file_ReadAt (FOpen p) (length k + length v) (length (dict_log xs) + 4) w = (Inr (k @ v), w)"
    using assms(1) rd(2,6) by (cases "length k + length v = 0") (simp_all add: file_ReadAt_def ReadAt_def)
  show "read_split name (FOpen p) (length (dict_log xs)) w = (Inr (take 4 (entry_bytes k v), k @ v), w)"
    using four pay len by (simp add: read_split_def)
  show "file_ReadAt (FOpen p) (4 + length k + length v) (length (dict_log xs)) w = (Inr (entry_bytes k v), w)"
    using assms(1) rd(1,2) by (simp add: file_ReadAt_def go_simps)
qed

lemma entry_rejoin: "take 4 (entry_bytes k v) @ k @ v = entry_bytes k v"
  by (metis append_take_drop_id entry_parts(1))

text \<open>
  Where the loops stand: both files are logs, of which the parts \<open>e1\<close> and \<open>h1\<close> are
  consumed and \<open>e2\<close> and \<open>h2\<close> are left.
\<close>

definition import_inv :: "string \<Rightarrow> dict_entry list \<Rightarrow> dict_entry list \<Rightarrow> import_state \<Rightarrow> os \<Rightarrow> dict_entry list \<Rightarrow>
    dict_entry list \<Rightarrow> dict_entry list \<Rightarrow> dict_entry list \<Rightarrow> dict_entry list \<Rightarrow> bool" where
  "import_inv ch es hs st w out e1 e2 h1 h2 \<longleftrightarrow> faults w = [] \<and> temp_rep st w out \<and>
     content w FilePath = dict_log es \<and> content w ch = dict_log hs \<and> fs w tempFilePath \<noteq> None \<and>
     es = e1 @ e2 \<and> hs = h1 @ h2 \<and> (\<forall>e \<in> set es \<union> set hs. ok_entry e) \<and> ch \<noteq> tempFilePath \<and>
     currentFileOffset st = length (dict_log e1) \<and> changeLogFileOffset st = length (dict_log h1)"

lemma FilePath_temp [simp]: "FilePath \<noteq> tempFilePath" "tempFilePath \<noteq> FilePath"
  by (simp_all add: FilePath_def tempFilePath_def)

lemma import_write:
  assumes "faults w = []" and "temp_rep st w out"
    and "content w FilePath = dict_log es" and "content w ch = dict_log hs" and "ch \<noteq> tempFilePath"
    and "es = e1 @ e2" and "hs = h1 @ h2" and "\<forall>e \<in> set es \<union> set hs. ok_entry e"
    and "currentFileOffset st = length (dict_log e1)" and "changeLogFileOffset st = length (dict_log h1)"
  shows "\<exists>st' w'. write_temp m1 m2 k (entry_bytes k v) st w = (Inr st', w') \<and>
     import_inv ch es hs st' w' (out @ [(k, v)]) e1 e2 h1 h2"
proof -
  obtain st' w' where run: "write_temp m1 m2 k (entry_bytes k v) st w = (Inr st', w')"
    and post: "faults w' = []" "temp_rep st' w' (out @ [(k, v)])" "fs w' tempFilePath \<noteq> None"
      "\<And>p. p \<noteq> tempFilePath \<Longrightarrow> content w' p = content w p"
      "currentFileOffset st' = currentFileOffset st" "changeLogFileOffset st' = changeLogFileOffset st"
    using write_temp_ok [OF assms(1,2)] by blast
  have "content w' FilePath = dict_log es" "content w' ch = dict_log hs"
    using post(4) assms(3-5) by simp_all
  then have "import_inv ch es hs st' w' (out @ [(k, v)]) e1 e2 h1 h2"
    unfolding import_inv_def using post(1-3,5,6) assms(5-10) by metis
  with run show ?thesis by blast
qed

text \<open>One turn of the first loop takes the entry that \<open>merge_logs\<close> takes.\<close>

lemma merge_once_ok:
  assumes inv: "import_inv ch es hs st w out e1 (e # e2) h1 (h # h2)"
  shows "\<exists>st' w'. merge_once (FOpen FilePath) (FOpen ch) st w = (Inr st', w') \<and>
     (if fst e = fst h then import_inv ch es hs st' w' (out @ [h]) (e1 @ [e]) e2 (h1 @ [h]) h2
      else if fst e < fst h then import_inv ch es hs st' w' (out @ [e]) (e1 @ [e]) e2 h1 (h # h2)
      else import_inv ch es hs st' w' (out @ [h]) e1 (e # e2) (h1 @ [h]) h2)"
proof -
  note i = inv [unfolded import_inv_def]
  have nf: "faults w = []" and rep: "temp_rep st w out" using i by auto
  obtain ke ve kh vh where eh: "e = (ke, ve)" "h = (kh, vh)" by (cases e, cases h) auto
  have ok: "ok_entry (ke, ve)" "ok_entry (kh, vh)" using i eh by auto
  have "content w FilePath = dict_log (e1 @ (ke, ve) # e2)" "content w ch = dict_log (h1 @ (kh, vh) # h2)"
    using i eh by auto
  note r1 = file_read_ok(1) [OF nf this(1) ok(1)] and r2 = file_read_ok(1) [OF nf this(2) ok(2)]
  note l1 = entry_lengths [OF ok(1), of "[]"] and l2 = entry_lengths [OF ok(2), of "[]"]
  let ?c = "st\<lparr>currentFileOffset := currentFileOffset st + d_size e\<rparr>"
  let ?h = "st\<lparr>changeLogFileOffset := changeLogFileOffset st + d_size h\<rparr>"
  let ?ch = "st\<lparr>currentFileOffset := currentFileOffset st + d_size e,
    changeLogFileOffset := changeLogFileOffset st + d_size h\<rparr>"
  let ?m1 = "''writing to temp file''" and ?m2 = "''incomplete write to temp file''"
  have run: "merge_once (FOpen FilePath) (FOpen ch) st w =
      (if ke = kh then write_temp ?m1 ?m2 kh (entry_bytes kh vh) ?ch w
       else if ke < kh then write_temp ?m1 ?m2 ke (entry_bytes ke ve) ?c w
       else write_temp ?m1 ?m2 kh (entry_bytes kh vh) ?h w)"
    using i r1 r2 l1 l2 by (simp add: merge_once_def eh Let_def entry_rejoin d_size_def)
  have t: "temp_rep ?c w out" "temp_rep ?h w out" "temp_rep ?ch w out" using rep by simp_all
  consider (eq) "ke = kh" | (lt) "ke \<noteq> kh" "ke < kh" | (gt) "ke \<noteq> kh" "\<not> ke < kh" by blast
  then show ?thesis
  proof cases
    case eq
    have "\<exists>st' w'. write_temp ?m1 ?m2 kh (entry_bytes kh vh) ?ch w = (Inr st', w') \<and>
        import_inv ch es hs st' w' (out @ [(kh, vh)]) (e1 @ [e]) e2 (h1 @ [h]) h2"
      by (rule import_write [OF nf t(3)]) (use i eh in \<open>simp_all add: d_size_def\<close>)
    with eq run eh show ?thesis by simp
  next
    case lt
    have "\<exists>st' w'. write_temp ?m1 ?m2 ke (entry_bytes ke ve) ?c w = (Inr st', w') \<and>
        import_inv ch es hs st' w' (out @ [(ke, ve)]) (e1 @ [e]) e2 h1 (h # h2)"
      by (rule import_write [OF nf t(1)]) (use i eh in \<open>simp_all add: d_size_def\<close>)
    with lt run eh show ?thesis by simp
  next
    case gt
    have "\<exists>st' w'. write_temp ?m1 ?m2 kh (entry_bytes kh vh) ?h w = (Inr st', w') \<and>
        import_inv ch es hs st' w' (out @ [(kh, vh)]) e1 (e # e2) (h1 @ [h]) h2"
      by (rule import_write [OF nf t(2)]) (use i eh in \<open>simp_all add: d_size_def\<close>)
    with gt run eh show ?thesis by simp
  qed
qed

lemma merge_loop_ok:
  assumes "import_inv ch es hs st w out e1 e2 h1 h2"
  shows "\<exists>st' w' out' e1' e2' h1' h2'.
     merge_loop (FOpen FilePath) (FOpen ch) (length (dict_log es)) (length (dict_log hs)) st w = (Inr st', w') \<and>
     import_inv ch es hs st' w' out' e1' e2' h1' h2' \<and> (e2' = [] \<or> h2' = []) \<and>
     out' @ e2' @ h2' = out @ merge_logs e2 h2"
  using assms
proof (induction e2 h2 arbitrary: st w out e1 h1 rule: merge_logs.induct)
  case (1 h2)
  then have "\<not> currentFileOffset st < length (dict_log es)" by (auto simp: import_inv_def)
  with 1 show ?case by (subst merge_loop.simps) force
next
  case (2 e e2)
  then have "\<not> changeLogFileOffset st < length (dict_log hs)" by (auto simp: import_inv_def)
  with 2 show ?case by (subst merge_loop.simps) force
next
  case (3 e e2 h h2)
  then have lt: "currentFileOffset st < length (dict_log es) \<and> changeLogFileOffset st < length (dict_log hs)"
    by (auto simp: import_inv_def)
  from merge_once_ok [OF "3.prems"] obtain st1 w1 where
    once: "merge_once (FOpen FilePath) (FOpen ch) st w = (Inr st1, w1)" and
    next': "if fst e = fst h then import_inv ch es hs st1 w1 (out @ [h]) (e1 @ [e]) e2 (h1 @ [h]) h2
      else if fst e < fst h then import_inv ch es hs st1 w1 (out @ [e]) (e1 @ [e]) e2 h1 (h # h2)
      else import_inv ch es hs st1 w1 (out @ [h]) e1 (e # e2) (h1 @ [h]) h2" by blast
  have run: "merge_loop (FOpen FilePath) (FOpen ch) (length (dict_log es)) (length (dict_log hs)) st w =
      merge_loop (FOpen FilePath) (FOpen ch) (length (dict_log es)) (length (dict_log hs)) st1 w1"
    using lt once by (subst merge_loop.simps) simp
  consider (eq) "fst e = fst h" | (lt) "fst e \<noteq> fst h" "fst e < fst h" | (gt) "fst e \<noteq> fst h" "\<not> fst e < fst h"
    by blast
  then show ?case
  proof cases
    case eq
    with next' have "import_inv ch es hs st1 w1 (out @ [h]) (e1 @ [e]) e2 (h1 @ [h]) h2" by simp
    from "3.IH"(1) [OF eq this] eq show ?thesis unfolding run by simp
  next
    case lt
    with next' have "import_inv ch es hs st1 w1 (out @ [e]) (e1 @ [e]) e2 h1 (h # h2)" by simp
    from "3.IH"(2) [OF lt this] lt show ?thesis unfolding run by simp
  next
    case gt
    with next' have "import_inv ch es hs st1 w1 (out @ [h]) e1 (e # e2) (h1 @ [h]) h2" by simp
    from "3.IH"(3) [OF gt this] gt show ?thesis unfolding run by simp
  qed
qed

text \<open>Copying the rest of a log appends it to the output.\<close>

lemma copy_loop_ok:
  assumes "faults w = []" and "temp_rep st w out" and "content w p = dict_log (x1 @ x2)" and "p \<noteq> tempFilePath"
    and "\<forall>e \<in> set x2. ok_entry e" and "fs w tempFilePath \<noteq> None"
  shows "\<exists>st' w'. copy_loop msgs (FOpen p) (length (dict_log x1)) (length (dict_log (x1 @ x2))) st w = (Inr st', w') \<and>
     faults w' = [] \<and> temp_rep st' w' (out @ x2) \<and> (\<forall>q. q \<noteq> tempFilePath \<longrightarrow> content w' q = content w q) \<and>
     fs w' tempFilePath \<noteq> None \<and> changeLogFileOffset st' = changeLogFileOffset st"
  using assms
proof (induction x2 arbitrary: x1 st w out)
  case Nil
  then show ?case by (subst copy_loop.simps) simp
next
  case (Cons e x2)
  obtain k v where e: "e = (k, v)" by (cases e)
  obtain m1 m2 m3 m4 where msgs: "msgs = (m1, m2, m3, m4)" by (cases msgs)
  have ok: "ok_entry (k, v)" using Cons.prems e by simp
  have log: "content w p = dict_log (x1 @ (k, v) # x2)" using Cons.prems e by simp
  note rd = file_read_ok(2,3) [OF Cons.prems(1) log ok] and len = entry_lengths [OF ok, of "[]"]
  obtain st1 w1 where wr: "write_temp m3 m4 k (entry_bytes k v) st w = (Inr st1, w1)"
    and s1: "faults w1 = []" "temp_rep st1 w1 (out @ [(k, v)])" "fs w1 tempFilePath \<noteq> None"
      "\<And>q. q \<noteq> tempFilePath \<Longrightarrow> content w1 q = content w q" "changeLogFileOffset st1 = changeLogFileOffset st"
    using write_temp_ok [OF Cons.prems(1,2)] by blast
  have once: "copy_once msgs (FOpen p) (length (dict_log x1)) st w = (Inr (length (dict_log (x1 @ [e])), st1), w1)"
    using rd len wr by (simp add: copy_once_def msgs Let_def entry_parts e add.assoc)
  have "content w1 p = dict_log ((x1 @ [e]) @ x2)" using log s1(4) Cons.prems(4) e by simp
  from Cons.IH [OF s1(1) s1(2) this Cons.prems(4) _ s1(3)] Cons.prems(5) obtain st' w' where
    run: "copy_loop msgs (FOpen p) (length (dict_log (x1 @ [e]))) (length (dict_log ((x1 @ [e]) @ x2))) st1 w1 = (Inr st', w')"
    and post: "faults w' = []" "temp_rep st' w' ((out @ [(k, v)]) @ x2)" "fs w' tempFilePath \<noteq> None"
      "\<And>q. q \<noteq> tempFilePath \<Longrightarrow> content w' q = content w1 q" "changeLogFileOffset st' = changeLogFileOffset st1"
    by auto
  have "copy_loop msgs (FOpen p) (length (dict_log x1)) (length (dict_log (x1 @ e # x2))) st w = (Inr st', w')"
    using once run by (subst copy_loop.simps) (simp add: e)
  with post s1 e show ?case by auto
qed

section \<open>Import\<close>

lemma import_loops_ok:
  assumes "faults w = []" and "fs w tempFilePath = Some []" and "content w FilePath = dict_log es"
    and "content w ch = dict_log hs" and "ch \<noteq> tempFilePath" and "\<forall>e \<in> set es \<union> set hs. ok_entry e"
  shows "\<exists>st w'. import_loops (FOpen FilePath) (FOpen ch) (length (dict_log es)) (length (dict_log hs)) w = (Inr st, w') \<and>
     faults w' = [] \<and> temp_rep st w' (merge_logs es hs) \<and> fs w' tempFilePath \<noteq> None"
proof -
  let ?st = "\<lparr>tempMetaMap = Map.empty, tempFileOffset = 0, currentFileOffset = 0, changeLogFileOffset = 0\<rparr>"
  have "import_inv ch es hs ?st w [] [] es [] hs"
    using assms by (simp add: import_inv_def temp_rep_def) (simp add: content_def)
  from merge_loop_ok [OF this] obtain st1 w1 out e1 e2 h1 h2 where
    run1: "merge_loop (FOpen FilePath) (FOpen ch) (length (dict_log es)) (length (dict_log hs)) ?st w = (Inr st1, w1)"
    and inv: "import_inv ch es hs st1 w1 out e1 e2 h1 h2" and out: "out @ e2 @ h2 = merge_logs es hs"
    by auto
  note i = inv [unfolded import_inv_def]
  have c1: "content w1 FilePath = dict_log (e1 @ e2)" using i by simp
  obtain st2 w2 where
    run2: "copy_loop current_msgs (FOpen FilePath) (currentFileOffset st1) (length (dict_log es)) st1 w1 = (Inr st2, w2)"
    and p2: "faults w2 = []" "temp_rep st2 w2 (out @ e2)" "fs w2 tempFilePath \<noteq> None"
      "\<And>q. q \<noteq> tempFilePath \<Longrightarrow> content w2 q = content w1 q" "changeLogFileOffset st2 = changeLogFileOffset st1"
    using copy_loop_ok [OF _ _ c1, of st1 out current_msgs] i by auto
  have c2: "content w2 ch = dict_log (h1 @ h2)" using i p2(4) by simp
  obtain st3 w3 where
    run3: "copy_loop change_msgs (FOpen ch) (changeLogFileOffset st1) (length (dict_log hs)) st2 w2 = (Inr st3, w3)"
    and p3: "faults w3 = []" "temp_rep st3 w3 ((out @ e2) @ h2)" "fs w3 tempFilePath \<noteq> None"
    using copy_loop_ok [OF p2(1,2) c2, of change_msgs] i p2(3) by auto
  have "import_loops (FOpen FilePath) (FOpen ch) (length (dict_log es)) (length (dict_log hs)) w = (Inr st3, w3)"
    using run1 run2 run3 by (simp add: import_loops_def)
  with p3 out show ?thesis by auto
qed

lemma Import_rep:
  assumes rep: "dict_rep f d w es M" and nf: "faults w = []" and ch: "fs w ch = Some (dict_log hs)"
    and ne: "ch \<noteq> tempFilePath" and ok: "\<forall>h \<in> set hs. ok_entry h"
  shows "\<exists>d' w'. Import ch f d w = (None, FOpen FilePath, d', w') \<and> faults w' = [] \<and>
     dict_rep (FOpen FilePath) d' w' (merge_logs es hs) (map_of (rev (merge_logs es hs)))"
proof -
  note r = rep [unfolded dict_rep_def]
  have ch': "content w ch = dict_log hs" using ch by (simp add: content_def)
  let ?w = "w\<lparr>fs := (fs w)(tempFilePath \<mapsto> [])\<rparr>"
  obtain st w1 where loops: "import_loops f (FOpen ch) (currentOffset d) (length (dict_log hs)) ?w = (Inr st, w1)"
    and post: "faults w1 = []" "temp_rep st w1 (merge_logs es hs)" "fs w1 tempFilePath \<noteq> None"
  proof -
    have "\<forall>e \<in> set es \<union> set hs. ok_entry e" using r ok by auto
    with import_loops_ok [of ?w es ch hs] r nf ch' ne that show ?thesis by auto
  qed
  have temp: "fs w1 tempFilePath = Some (dict_log (merge_logs es hs))"
    using post(2,3) fs_content by (metis temp_rep_def)
  let ?d = "d\<lparr>wordMetaMap := tempMetaMap st, currentOffset := tempFileOffset st\<rparr>"
  let ?w' = "w1\<lparr>fs := (fs w1)(tempFilePath := None, FilePath \<mapsto> dict_log (merge_logs es hs))\<rparr>"
  have "import_swap st d w1 = (None, FOpen FilePath, ?d, ?w')"
    using post(1) temp by (simp add: import_swap_def Let_def go_simps Rename_def content_def)
  then have run: "Import ch f d w = (None, FOpen FilePath, ?d, ?w')"
    using loops nf ch ch' post(1) by (simp add: Import_def OpenRead_def go_simps Let_def)
  have "\<forall>e \<in> set (merge_logs es hs). ok_entry e" using r ok set_merge_logs [of es hs] by auto
  then have "dict_rep (FOpen FilePath) ?d ?w' (merge_logs es hs) (map_of (rev (merge_logs es hs)))"
    using post(2) by (simp add: dict_rep_def temp_rep_def)
  with run post(1) show ?thesis by auto
qed

text \<open>Whatever fails, only the temporary file is written before the rename.\<close>

definition temp_only :: "os \<Rightarrow> os \<Rightarrow> bool" where
  "temp_only w w' \<longleftrightarrow> (\<forall>p. p \<noteq> tempFilePath \<longrightarrow> content w' p = content w p)"

lemma temp_only_trans: "temp_only w w1 \<Longrightarrow> temp_only w1 w2 \<Longrightarrow> temp_only w w2"
  by (simp add: temp_only_def)

lemma temp_only_fs: "fs w' = fs w \<Longrightarrow> temp_only w w'"
  by (simp add: temp_only_def content_def)

lemma file_ReadAt_fs: "file_ReadAt f n off w = (r, w') \<Longrightarrow> fs w' = fs w"
  by (auto simp: file_ReadAt_def split: go_file.splits if_splits dest: frameD)

lemma read_split_fs: "read_split name f off w = (r, w') \<Longrightarrow> fs w' = fs w"
  by (auto simp: read_split_def split: prod.splits sum.splits dest!: file_ReadAt_fs)

lemma temp_only_fs2: "temp_only w1 w2 \<Longrightarrow> fs w1 = fs w \<Longrightarrow> temp_only w w2"
  by (blast intro: temp_only_trans temp_only_fs)

lemma write_temp_only:
  assumes "write_temp m1 m2 k buf st w = (r, w')"
  shows "temp_only w w'"
proof -
  obtain x w1 where 1: "Append (Some tempFilePath) buf w = (x, w1)" by fastforce
  have "w' = w1" using assms 1 by (auto simp: write_temp_def split: prod.splits option.splits if_splits)
  then show ?thesis
    using WriteAt_otherD [OF 1 [unfolded Append_def option.case]] by (simp add: temp_only_def)
qed

lemma merge_once_temp:
  assumes "merge_once f ch st w = (r, w')"
  shows "temp_only w w'"
proof -
  obtain x w1 where 1: "read_split ''current file'' f (currentFileOffset st) w = (x, w1)" by fastforce
  obtain y w2 where 2: "read_split ''change log'' ch (changeLogFileOffset st) w1 = (y, w2)" by fastforce
  have fs: "fs w1 = fs w" "fs w2 = fs w" using read_split_fs [OF 1] read_split_fs [OF 2] by simp_all
  have "w' = w1 \<or> w' = w2 \<or> temp_only w2 w'"
    using assms 1 2
    by (auto simp: merge_once_def Let_def split: sum.splits prod.splits if_splits dest!: write_temp_only)
  with fs show ?thesis using temp_only_fs temp_only_trans by metis
qed

lemma merge_loop_temp: "merge_loop f ch curEnd chEnd st w = (r, w') \<Longrightarrow> temp_only w w'"
proof (induction f ch curEnd chEnd st w arbitrary: r w' rule: merge_loop.induct)
  case (1 f ch curEnd chEnd st w)
  obtain x w1 where once: "merge_once f ch st w = (x, w1)" by fastforce
  note t = merge_once_temp [OF once]
  show ?case
  proof (cases "currentFileOffset st < curEnd \<and> changeLogFileOffset st < chEnd")
    case True
    with 1(2) once have step: "(case x of Inl err \<Rightarrow> (Inl err, w1) | Inr st1 \<Rightarrow> merge_loop f ch curEnd chEnd st1 w1) = (r, w')"
      by (subst (asm) merge_loop.simps) (auto split: sum.splits)
    with t show ?thesis
      using 1(1) [OF True once [symmetric]] temp_only_trans by (cases x) auto
  next
    case False
    with 1(2) show ?thesis by (subst (asm) merge_loop.simps) (auto intro: temp_only_fs)
  qed
qed

lemma copy_once_temp: "copy_once msgs src off st w = (r, w') \<Longrightarrow> temp_only w w'"
  by (auto simp: copy_once_def Let_def split: prod.splits sum.splits
      dest!: file_ReadAt_fs write_temp_only intro: temp_only_fs temp_only_fs2)

lemma copy_loop_temp: "copy_loop msgs src off endOff st w = (r, w') \<Longrightarrow> temp_only w w'"
proof (induction msgs src off endOff st w arbitrary: r w' rule: copy_loop.induct)
  case (1 msgs src off endOff st w)
  obtain x w1 where once: "copy_once msgs src off st w = (x, w1)" by fastforce
  note t = copy_once_temp [OF once]
  show ?case
  proof (cases "off < endOff")
    case True
    with 1(2) once have step: "(case x of Inl err \<Rightarrow> (Inl err, w1)
        | Inr (off1, st1) \<Rightarrow> copy_loop msgs src off1 endOff st1 w1) = (r, w')"
      by (subst (asm) copy_loop.simps) (auto split: sum.splits)
    show ?thesis
    proof (cases x)
      case (Inr y)
      obtain off1 st1 where y: "y = (off1, st1)" by (cases y)
      have "temp_only w1 w'"
        by (rule 1(1) [OF True once [symmetric] Inr y [symmetric]]) (use step Inr y in simp)
      with t show ?thesis by (rule temp_only_trans)
    qed (use step t in simp)
  next
    case False
    with 1(2) show ?thesis by (subst (asm) copy_loop.simps) (auto intro: temp_only_fs)
  qed
qed

lemma import_loops_temp: "import_loops f ch curEnd chEnd w = (r, w') \<Longrightarrow> temp_only w w'"
  by (auto simp: import_loops_def split: prod.splits sum.splits
      dest!: merge_loop_temp copy_loop_temp intro: temp_only_trans)

lemma import_swap_cases:
  assumes "import_swap st d w = (err, f', d', w')"
  obtains (renamed) "err = None" "f' = FOpen FilePath"
      "d' = d\<lparr>wordMetaMap := tempMetaMap st, currentOffset := tempFileOffset st\<rparr>"
  | (rename) "err = Some (ErrMsg ''renaming temp file failed'')" "f' = FClosed" "d' = d" "temp_only w w'"
  | (reopen) "err = Some (ErrMsg ''reopening file failed'')" "f' = FNil" "d' = d"
proof -
  define w3 where "w3 = snd (Close (Some FilePath) (snd (Close (Some tempFilePath) (snd (Sync (Some tempFilePath) w)))))"
  have w3: "fs w3 = fs w" by (simp add: w3_def)
  obtain x w4 where 4: "Rename tempFilePath FilePath w3 = (x, w4)" by fastforce
  obtain y w5 where 5: "OpenFile FilePath w4 = (y, w5)" by fastforce
  have fail: "fs w4 = fs w3" if "x = Inl e" for e
    using 4 that by (auto simp: Rename_def split: prod.splits option.splits)
  note run = assms [unfolded import_swap_def Let_def w3_def [symmetric] 4]
  show thesis
  proof (cases x)
    case (Inl e)
    with run fail w3 show thesis by (intro rename) (auto intro: temp_only_fs)
  next
    case (Inr u)
    with run 5 show thesis by (cases y) (auto intro: renamed reopen)
  qed
qed

lemma OpenTrunc_only: "OpenTrunc tempFilePath w = (r, w') \<Longrightarrow> temp_only w w'"
  by (auto simp: OpenTrunc_def temp_only_def split: prod.splits option.splits)

lemma OpenRead_fs: "OpenRead p w = (r, w') \<Longrightarrow> fs w' = fs w"
  by (auto simp: OpenRead_def split: prod.splits option.splits)

lemma Import_cases:
  assumes run: "Import ch f d w = (err, f', d', w')"
  obtains (ok) "err = None" "f' = FOpen FilePath"
  | (early) "err \<noteq> None" "f' = f" "d' = d" "temp_only w w'"
  | (norename) "err = Some (ErrMsg ''renaming temp file failed'')" "f' = FClosed" "d' = d" "temp_only w w'"
  | (noreopen) "err = Some (ErrMsg ''reopening file failed'')" "f' = FNil" "d' = d"
proof -
  obtain x1 w1 where 1: "OpenRead ch w = (x1, w1)" by fastforce
  obtain x2 w2 where 2: "file_Stat (Some ch) w1 = (x2, w2)" by fastforce
  obtain x3 w3 where 3: "OpenTrunc tempFilePath w2 = (x3, w3)" by fastforce
  have t2: "temp_only w w1" "temp_only w w2"
    using OpenRead_fs [OF 1] frameD(3) [OF 2] by (auto intro: temp_only_fs)
  have t3: "temp_only w w3" using t2(2) OpenTrunc_only [OF 3] by (rule temp_only_trans)
  have close: "temp_only v (snd (Close h v))" for h v by (rule temp_only_fs) simp
  note run' = run [unfolded Import_def Let_def 1]
  show thesis
  proof (cases "\<exists>e. x1 = Inl e \<or> x2 = Inl e \<or> x3 = Inl e")
    case True
    then have "err \<noteq> None" "f' = f" "d' = d" "w' = w1 \<or> w' = snd (Close (Some ch) w2) \<or> w' = snd (Close (Some ch) w3)"
      using run' 2 3 by (auto split: sum.splits)
    with t2 t3 close show thesis by (intro early) (metis temp_only_trans)+
  next
    case False
    then obtain u1 sz u3 where x: "x1 = Inr u1" "x2 = Inr sz" "x3 = Inr u3"
      by (metis old.sum.exhaust)
    obtain x4 w4 where 4: "import_loops f (FOpen ch) (currentOffset d) sz w3 = (x4, w4)" by fastforce
    have t4: "temp_only w w4" using t3 import_loops_temp [OF 4] by (rule temp_only_trans)
    show thesis
    proof (cases x4)
      case (Inl e)
      then have "err = Some e" "f' = f" "d' = d" "w' = snd (Close (Some ch) (snd (Close (Some tempFilePath) w4)))"
        using run' 2 3 4 x by auto
      with t4 close show thesis by (intro early) (metis option.discI temp_only_trans)+
    next
      case (Inr st)
      obtain w5 where 5: "import_swap st d w4 = (err, f', d', w5)" "w' = snd (Close (Some ch) w5)"
        using run' 2 3 4 x Inr by (auto split: prod.splits)
      from 5(1) show thesis
      proof (cases rule: import_swap_cases)
        case rename
        with t4 close 5(2) show thesis by (intro norename) (auto intro: temp_only_trans)
      qed (use ok noreopen in auto)
    qed
  qed
qed

section \<open>Properties\<close>

lemma insert_all_rep:
  assumes "dict_rep f d w es M" and "faults w = []" and "\<forall>e \<in> set kvs. ok_entry e"
  shows "\<exists>d' w' es'. insert_all kvs f d w = (d', w') \<and> faults w' = [] \<and> dict_rep f d' w' es' (map_of kvs ++ M)"
  using assms
proof (induction kvs arbitrary: d w es M)
  case (Cons e kvs)
  obtain k v where e: "e = (k, v)" by (cases e)
  obtain d1 w1 where 1: "Insert k v f d w = (None, d1, w1)" "faults w1 = []"
      "dict_rep f d1 w1 (if M k = None then es @ [(k, v)] else es) (if M k = None then M(k \<mapsto> v) else M)"
    using Insert_rep [OF Cons.prems(1) _ Cons.prems(2), of k v] Cons.prems(3) e by auto
  have "map_of kvs ++ (if M k = None then M(k \<mapsto> v) else M) = map_of (e # kvs) ++ M"
    by (auto simp: e fun_eq_iff map_add_def split: option.splits)
  with Cons.IH [OF 1(3) 1(2)] Cons.prems(3) obtain d' w' es' where
    "insert_all kvs f d1 w1 = (d', w')" "faults w' = []" "dict_rep f d' w' es' (map_of (e # kvs) ++ M)"
    by (metis list.set_intros(2))
  moreover have "insert_all (e # kvs) f d w = insert_all kvs f d1 w1" using 1(1) e by simp
  ultimately show ?case by metis
qed auto

lemma new_rep:
  assumes "faults w = []" and "content w FilePath = dict_log es" and "\<forall>e \<in> set es. ok_entry e"
  shows "\<exists>d. NewWordDictionary (FOpen FilePath) w = (Return d, w) \<and> dict_rep (FOpen FilePath) d w es Map.empty"
  using assms by (simp add: NewWordDictionary_def file_Size_def go_simps dict_rep_def)

lemma GetMeaning_ok:
  "dict_rep f d w es M \<Longrightarrow> faults w = [] \<Longrightarrow>
   fst (GetMeaning k f d w) = Return (case M k of None \<Rightarrow> [] | Some v \<Rightarrow> v)"
  using GetMeaning_result(1) [of f d w es M k] by auto

text \<open>
  C21. A dictionary opened on an existing file of entries, after any sequence of inserts
  without I/O faults: \<open>GetMeaning\<close> returns the meaning of the first insert of the word,
  and the empty string for a word that was not inserted. Words shorter than 256 bytes and
  meanings shorter than 2 ^ 24 are assumed.
\<close>

theorem lookup_after_inserts:
  assumes "faults w = []" and "content w FilePath = dict_log es" and "\<forall>e \<in> set es \<union> set kvs. ok_entry e"
    and "NewWordDictionary (FOpen FilePath) w = (Return d, w1)"
    and "insert_all kvs (FOpen FilePath) d w1 = (d', w')"
  shows "fst (GetMeaning k (FOpen FilePath) d' w') = Return (case map_of kvs k of None \<Rightarrow> [] | Some v \<Rightarrow> v)"
proof -
  have rep: "dict_rep (FOpen FilePath) d w1 es Map.empty" and w1: "w1 = w"
    using new_rep [OF assms(1,2)] assms(3,4) by auto
  obtain es' where "faults w' = []" "dict_rep (FOpen FilePath) d' w' es' (map_of kvs)"
    using insert_all_rep [OF rep, of kvs] assms(1,3,5) w1 by (auto simp: map_add_empty)
  then show ?thesis by (rule_tac GetMeaning_ok)
qed

theorem lookup_after_inserts_witness:
  "\<exists>d w1 d' w'. NewWordDictionary (FOpen FilePath) empty_os = (Return d, w1) \<and>
     insert_all [([65], [1, 2]), ([66], []), ([65], [3])] (FOpen FilePath) d w1 = (d', w') \<and>
     fst (GetMeaning [65] (FOpen FilePath) d' w') = Return [1, 2]"
proof -
  obtain d where d: "NewWordDictionary (FOpen FilePath) empty_os = (Return d, empty_os)"
    using new_rep [of empty_os "[]"] by auto
  obtain d' w' where run: "insert_all [([65], [1, 2]), ([66], []), ([65], [3])] (FOpen FilePath) d empty_os = (d', w')"
    by (metis surj_pair)
  from lookup_after_inserts [OF _ _ _ d run, of "[]" "[65]"] d run show ?thesis
    by (auto simp: ok_entry_def)
qed

text \<open>
  C22. \<open>Import\<close> without I/O faults, on any dictionary and any change log, ends with the
  file that the list merge gives and with an index in which the last entry of a word
  wins; the dictionary stays usable.
\<close>

theorem import_refines_merge:
  assumes "dict_rep f d w es M" and "faults w = []" and "fs w ch = Some (dict_log hs)"
    and "ch \<noteq> tempFilePath" and "\<forall>h \<in> set hs. ok_entry h"
  shows "\<exists>d' w'. Import ch f d w = (None, FOpen FilePath, d', w') \<and> faults w' = [] \<and>
     dict_rep (FOpen FilePath) d' w' (merge_logs es hs) (map_of (rev (merge_logs es hs)))"
  by (rule Import_rep [OF assms])

definition demo_log :: "dict_entry list \<Rightarrow> dict_entry list \<Rightarrow> os" where
  "demo_log es hs = \<lparr>fs = [FilePath \<mapsto> dict_log es, ''./change_log'' \<mapsto> dict_log hs], faults = []\<rparr>"

lemma demo_log_sel [simp]:
  "faults (demo_log es hs) = []" "fs (demo_log es hs) ''./change_log'' = Some (dict_log hs)"
  "content (demo_log es hs) FilePath = dict_log es" "''./change_log'' \<noteq> tempFilePath"
  by (simp_all add: demo_log_def content_def FilePath_def tempFilePath_def)

theorem import_refines_merge_witness:
  "\<exists>d d' w'. NewWordDictionary (FOpen FilePath) (demo_log [([66], [1])] [([65], [2])]) =
       (Return d, demo_log [([66], [1])] [([65], [2])]) \<and>
     Import ''./change_log'' (FOpen FilePath) d (demo_log [([66], [1])] [([65], [2])]) = (None, FOpen FilePath, d', w') \<and>
     content w' FilePath = dict_log [([65], [2]), ([66], [1])]"
proof -
  let ?w = "demo_log [([66], [1])] [([65], [2])]"
  obtain d where d: "NewWordDictionary (FOpen FilePath) ?w = (Return d, ?w)"
    and rep: "dict_rep (FOpen FilePath) d ?w [([66], [1])] Map.empty"
    using new_rep [of ?w "[([66], [1])]"] by (auto simp: ok_entry_def)
  from import_refines_merge [OF rep, of "''./change_log''" "[([65], [2])]"] d show ?thesis
    by (auto simp: ok_entry_def dict_rep_def)
qed

text \<open>
  C23. When the file and the change log are sorted by word, \<open>Import\<close> makes \<open>GetMeaning\<close>
  return the meaning of the change log for every word that is in it and the old meaning
  for every other word of the file, and the new file is sorted again.
\<close>

theorem import_sorted:
  assumes "dict_rep f d w es M" and "faults w = []" and "fs w ch = Some (dict_log hs)"
    and "ch \<noteq> tempFilePath" and "\<forall>h \<in> set hs. ok_entry h" and "sorted_log es" and "sorted_log hs"
  shows "\<exists>d' w'. Import ch f d w = (None, FOpen FilePath, d', w') \<and>
     content w' FilePath = dict_log (merge_logs es hs) \<and> sorted_log (merge_logs es hs) \<and>
     (\<forall>k. fst (GetMeaning k (FOpen FilePath) d' w') =
        Return (case map_of hs k of Some v \<Rightarrow> v | None \<Rightarrow> (case map_of es k of Some v \<Rightarrow> v | None \<Rightarrow> [])))"
proof -
  note sorted = sorted_merge_logs [OF assms(6,7)]
  obtain d' w' where run: "Import ch f d w = (None, FOpen FilePath, d', w')" and nf: "faults w' = []"
    and rep: "dict_rep (FOpen FilePath) d' w' (merge_logs es hs) (map_of es ++ map_of hs)"
    using Import_rep [OF assms(1-5)] distinct_sorted_log [OF sorted] map_of_merge_logs [OF assms(6,7)] by auto
  have "fst (GetMeaning k (FOpen FilePath) d' w') =
      Return (case map_of hs k of Some v \<Rightarrow> v | None \<Rightarrow> (case map_of es k of Some v \<Rightarrow> v | None \<Rightarrow> []))" for k
    using GetMeaning_ok [OF rep nf, of k] by (simp add: map_add_def split: option.splits)
  moreover have "content w' FilePath = dict_log (merge_logs es hs)" using rep by (simp add: dict_rep_def)
  ultimately show ?thesis using run sorted by blast
qed

theorem import_sorted_witness:
  "\<exists>d d' w'. Import ''./change_log'' (FOpen FilePath) d (demo_log [([65], [1]), ([66], [1])] [([66], [2])]) =
       (None, FOpen FilePath, d', w') \<and>
     fst (GetMeaning [66] (FOpen FilePath) d' w') = Return [2] \<and> fst (GetMeaning [65] (FOpen FilePath) d' w') = Return [1]"
proof -
  let ?w = "demo_log [([65], [1]), ([66], [1])] [([66], [2])]"
  obtain d where "dict_rep (FOpen FilePath) d ?w [([65], [1]), ([66], [1])] Map.empty"
    using new_rep [of ?w "[([65], [1]), ([66], [1])]"] by (auto simp: ok_entry_def)
  from import_sorted [OF this, of "''./change_log''" "[([66], [2])]"] show ?thesis
    by (force simp: ok_entry_def)
qed

text \<open>
  C24. An \<open>Import\<close> that returns an error leaves the index and the offset of the
  dictionary as they were, under every script of I/O faults. Unless the rename or the
  reopening failed, the file is untouched and still open, so the dictionary holds what it
  held.
\<close>

theorem import_error_safe:
  assumes "Import ch f d w = (Some err, f', d', w')"
  shows "d' = d \<and>
    (err \<noteq> ErrMsg ''renaming temp file failed'' \<and> err \<noteq> ErrMsg ''reopening file failed'' \<longrightarrow>
     f' = f \<and> (\<forall>es M. dict_rep f d w es M \<longrightarrow> dict_rep f' d' w' es M)) \<and>
    (err = ErrMsg ''renaming temp file failed'' \<and> f' \<noteq> f \<longrightarrow>
     f' = FClosed \<and> content w' FilePath = content w FilePath)"
proof -
  have keep: "dict_rep f d w' es M" if "temp_only w w'" "dict_rep f d w es M" for es M
    using that by (simp add: dict_rep_def temp_only_def)
  from assms show ?thesis
  proof (cases rule: Import_cases)
    case early
    with keep show ?thesis by auto
  next
    case norename
    then show ?thesis by (auto simp: temp_only_def)
  next
    case noreopen
    then show ?thesis by auto
  qed simp
qed

theorem import_error_safe_witness:
  "\<exists>d' w'. Import ''./change_log'' (FOpen FilePath) \<lparr>wordMetaMap = Map.empty, currentOffset = 0\<rparr> empty_os =
     (Some (ErrMsg ''error opening change log''), FOpen FilePath, d', w') \<and>
     d' = \<lparr>wordMetaMap = Map.empty, currentOffset = 0\<rparr>"
proof -
  let ?d = "\<lparr>wordMetaMap = Map.empty, currentOffset = 0\<rparr>"
  obtain f' d' w' where run: "Import ''./change_log'' (FOpen FilePath) ?d empty_os =
      (Some (ErrMsg ''error opening change log''), f', d', w')"
    by (simp add: Import_def OpenRead_def)
  from import_error_safe [OF run] run show ?thesis by auto
qed

text \<open>
  The comment on \<open>Insert\<close> allows words of up to 256 bytes, but the length of such a
  word is stored in one byte as 0: its meaning is then read from the first bytes of the
  word itself.
\<close>

theorem insert_256_reads_word:
  assumes "dict_rep f d w es M" and "faults w = []" and "wordMetaMap d word = None"
    and "length word = 256" and "length meaning \<le> 256"
    and "Insert word meaning f d w = (err, d', w')"
  shows "err = None \<and> fst (GetMeaning word f d' w') = Return (take (length meaning) word)"
proof -
  note r = assms(1) [unfolded dict_rep_def]
  let ?b = "entry_bytes word meaning" and ?w = "w\<lparr>fs := (fs w)(FilePath \<mapsto> dict_log es @ entry_bytes word meaning)\<rparr>"
  have "file_Write f ?b w = ((length ?b, None), ?w)"
    using r assms(2) by (simp add: file_Write_def Append_def go_simps write_at_append)
  then have out: "err = None" "w' = ?w"
      "wordMetaMap d' word = Some \<lparr>offset = length (dict_log es), entrySize = 4 + 256 + length meaning\<rparr>"
    using assms(3,4,6) r by (auto simp: Insert_def Let_def)
  have len: "wordLen ?b = 0" "meaningLen ?b = length meaning"
    using be24 [of "length meaning"] assms(4,5)
    by (simp_all add: wordLen_def meaningLen_def entry_bytes_def meaningLenBytes_def)
  have read: "file_ReadAt f (4 + 256 + length meaning) (length (dict_log es)) w' = (Inr ?b, w')"
    using r assms(2,4) out(2) by (simp add: file_ReadAt_def go_simps chunk_def)
  have "chunk 4 (length meaning) ?b = take (length meaning) word"
    using assms(4,5) entry_parts(1) [of word meaning] by (simp add: chunk_def)
  with read len assms(4) out show ?thesis by (simp add: GetMeaning_def)
qed

theorem insert_256_reads_word_witness:
  "\<exists>d' w'. Insert (replicate 256 97) [1, 2] (FOpen FilePath) \<lparr>wordMetaMap = Map.empty, currentOffset = 0\<rparr> empty_os =
       (None, d', w') \<and>
     fst (GetMeaning (replicate 256 97) (FOpen FilePath) d' w') = Return [97, 97]"
proof -
  let ?d = "\<lparr>wordMetaMap = Map.empty, currentOffset = 0\<rparr>"
  have rep: "dict_rep (FOpen FilePath) ?d empty_os [] Map.empty" by (simp add: dict_rep_def)
  obtain err d' w' where run: "Insert (replicate 256 97) [1, 2] (FOpen FilePath) ?d empty_os = (err, d', w')"
    by (metis surj_pair)
  have "take 2 (replicate 256 (97 :: byte)) = [97, 97]" by (simp add: numeral_eq_Suc)
  with insert_256_reads_word [OF rep _ _ _ _ run] run show ?thesis by simp
qed

text \<open>
  An insert whose write fails part-way leaves bytes in the file that the offset does
  not count: the next word is appended after them but indexed before them, and looking it
  up makes \<open>GetMeaning\<close> panic.
\<close>

theorem torn_insert_breaks_next:
  "\<exists>d w d' w'.
     Insert [1] [] (FOpen FilePath) \<lparr>wordMetaMap = Map.empty, currentOffset = 0\<rparr> (empty_os\<lparr>faults := [Some 1]\<rparr>) =
       (Some EIO, d, w) \<and>
     Insert [2] [9] (FOpen FilePath) d w = (None, d', w') \<and>
     fst (GetMeaning [2] (FOpen FilePath) d' w') = Panic"
proof -
  let ?d = "\<lparr>wordMetaMap = Map.empty, currentOffset = 0\<rparr>"
  let ?w1 = "empty_os\<lparr>faults := [], fs := [FilePath \<mapsto> [1]]\<rparr>"
  let ?d2 = "\<lparr>wordMetaMap = [[2] \<mapsto> \<lparr>offset = 0, entrySize = 6\<rparr>], currentOffset = 6\<rparr>"
  let ?w2 = "?w1\<lparr>fs := [FilePath \<mapsto> [1, 1, 0, 0, 1, 2, 9]]\<rparr>"
  have b1: "entry_bytes [1] [] = [1, 0, 0, 0, 1]" and b2: "entry_bytes [2] [9] = [1, 0, 0, 1, 2, 9]"
    by (simp_all add: entry_bytes_def meaningLenBytes_def)
  have 1: "Insert [1] [] (FOpen FilePath) ?d (empty_os\<lparr>faults := [Some 1]\<rparr>) = (Some EIO, ?d, ?w1)"
    by (simp add: Insert_def file_Write_def Append_def WriteAt_def next_fault_def b1 Let_def write_at_def empty_os_def
        content_def)
  have 2: "Insert [2] [9] (FOpen FilePath) ?d ?w1 = (None, ?d2, ?w2)"
    by (simp add: Insert_def file_Write_def Append_def WriteAt_def b2 Let_def write_at_def content_def)
  have "file_ReadAt (FOpen FilePath) 6 0 ?w2 = (Inr [1, 1, 0, 0, 1, 2], ?w2)"
    by (simp add: file_ReadAt_def ReadAt_def chunk_def content_def)
  then have "fst (GetMeaning [2] (FOpen FilePath) ?d2 ?w2) = Panic"
    by (simp add: GetMeaning_def wordLen_def meaningLen_def)
  with 1 2 show ?thesis by blast
qed

text \<open>
  \<open>Import\<close> relies on both files being sorted, but \<open>Insert\<close> appends words in the order
  they come. After inserting the later word first, a change-log entry for the earlier
  word is merged before both, and the old meaning wins.
\<close>

theorem import_unsorted_loses_change:
  assumes "dict_rep f d w [(b, x), (a, old)] M" and "faults w = []" and "a < b" and "ok_entry (a, new)"
    and "fs w ch = Some (dict_log [(a, new)])" and "ch \<noteq> tempFilePath"
  shows "\<exists>d' w'. Import ch f d w = (None, FOpen FilePath, d', w') \<and>
     fst (GetMeaning a (FOpen FilePath) d' w') = Return old"
proof -
  have "\<not> b < a" "b \<noteq> a" using assms(3) by auto
  then have merged: "merge_logs [(b, x), (a, old)] [(a, new)] = [(a, new), (b, x), (a, old)]" by simp
  obtain d' w' where "Import ch f d w = (None, FOpen FilePath, d', w')" "faults w' = []"
      "dict_rep (FOpen FilePath) d' w' [(a, new), (b, x), (a, old)] (map_of (rev [(a, new), (b, x), (a, old)]))"
    using Import_rep [OF assms(1,2,5,6)] assms(4) merged by auto
  with GetMeaning_ok [of "FOpen FilePath" d' w' _ _ a] show ?thesis by fastforce
qed

theorem import_unsorted_loses_change_witness:
  "\<exists>d d' w'. NewWordDictionary (FOpen FilePath) (demo_log [([66], []), ([65], [1])] [([65], [2])]) =
      (Return d, demo_log [([66], []), ([65], [1])] [([65], [2])]) \<and>
     Import ''./change_log'' (FOpen FilePath) d (demo_log [([66], []), ([65], [1])] [([65], [2])]) =
       (None, FOpen FilePath, d', w') \<and>
     fst (GetMeaning [65] (FOpen FilePath) d' w') = Return [1]"
proof -
  let ?w = "demo_log [([66], []), ([65], [1])] [([65], [2])]"
  obtain d where d: "NewWordDictionary (FOpen FilePath) ?w = (Return d, ?w)"
    and rep: "dict_rep (FOpen FilePath) d ?w [([66], []), ([65], [1])] Map.empty"
    using new_rep [of ?w "[([66], []), ([65], [1])]"] by (auto simp: ok_entry_def)
  from import_unsorted_loses_change [OF rep, of "[2]" "''./change_log''"] d show ?thesis
    by (auto simp: ok_entry_def)
qed

section \<open>The main function\<close>

lemma insert_all_new:
  assumes "dict_rep f d w es M" and "faults w = []" and "\<forall>e \<in> set kvs. ok_entry e"
    and "distinct (map fst kvs)" and "\<forall>e \<in> set kvs. M (fst e) = None"
  shows "\<exists>d' w' M'. insert_all kvs f d w = (d', w') \<and> faults w' = [] \<and> (\<forall>p. p \<noteq> FilePath \<longrightarrow> fs w' p = fs w p) \<and>
     dict_rep f d' w' (es @ kvs) M'"
  using assms
proof (induction kvs arbitrary: d w es M)
  case (Cons e kvs)
  obtain k v where e: "e = (k, v)" by (cases e)
  obtain d1 w1 where 1: "Insert k v f d w = (None, d1, w1)" "faults w1 = []" "\<forall>p. p \<noteq> FilePath \<longrightarrow> fs w1 p = fs w p"
      "dict_rep f d1 w1 (es @ [(k, v)]) (M(k \<mapsto> v))"
    using Insert_rep [OF Cons.prems(1) _ Cons.prems(2), of k v] Cons.prems(3,5) e by auto
  have "\<forall>e \<in> set kvs. (M(k \<mapsto> v)) (fst e) = None" using Cons.prems(4,5) e by force
  moreover have "\<forall>e \<in> set kvs. ok_entry e" "distinct (map fst kvs)" using Cons.prems(3,4) by simp_all
  ultimately obtain d' w' M' where
    "insert_all kvs f d1 w1 = (d', w')" "faults w' = []" "\<forall>p. p \<noteq> FilePath \<longrightarrow> fs w' p = fs w1 p"
    "dict_rep f d' w' ((es @ [(k, v)]) @ kvs) M'"
    using Cons.IH [OF 1(4,2)] by blast
  with 1(1,3) e show ?case by auto
qed auto

lemma main_words_ok:
  "\<forall>e \<in> set main_words. ok_entry e" "distinct (map fst main_words)" "sorted_log main_words"
  by (simp_all add: main_words_def ok_entry_def str_bytes_def of_char_def sorted_log_def)

text \<open>
  The program run on a file of entries: it appends its three words, since the index of a new
  dictionary is empty even when the file is not, and merges the change log into the result.
\<close>

theorem dictionary_main_file:
  assumes "faults w = []" and "content w FilePath = dict_log es" and "fs w ''./change_log'' = Some (dict_log hs)"
    and "\<forall>e \<in> set es \<union> set hs. ok_entry e"
  shows "\<exists>d w'. dictionary_main w = (Continue (Return d), w') \<and>
     content w' FilePath = dict_log (merge_logs (es @ main_words) hs)"
proof -
  let ?ch = "''./change_log''" and ?f = "FOpen FilePath"
  have ch: "?ch \<noteq> FilePath" "?ch \<noteq> tempFilePath" by (simp_all add: FilePath_def tempFilePath_def)
  obtain w1 where 1: "dict_init w = (Some ?f, w1)" "faults w1 = []" "content w1 FilePath = dict_log es"
      "fs w1 ?ch = Some (dict_log hs)"
    using assms(1-3) ch by (auto simp: dict_init_def OpenFile_def content_def go_simps split: option.splits)
  obtain d where 2: "NewWordDictionary ?f w1 = (Return d, w1)" "dict_rep ?f d w1 es Map.empty"
    using new_rep [OF 1(2,3)] assms(4) by blast
  obtain d1 w3 M where 3: "insert_all main_words ?f d w1 = (d1, w3)" "faults w3 = []"
      "fs w3 ?ch = Some (dict_log hs)" "dict_rep ?f d1 w3 (es @ main_words) M"
    using insert_all_new [OF 2(2) 1(2) main_words_ok(1,2)] 1(4) ch by auto
  obtain d' w4 where 4: "Import ?ch ?f d1 w3 = (None, ?f, d', w4)"
      "dict_rep ?f d' w4 (merge_logs (es @ main_words) hs) (map_of (rev (merge_logs (es @ main_words) hs)))"
    using Import_rep [OF 3(4,2,3) ch(2)] assms(4) by blast
  have "content (file_Sync_Close ?f w4) FilePath = content w4 FilePath"
    by (simp add: file_Sync_Close_def content_def)
  with 1(1) 2(1) 3(1) 4 show ?thesis by (auto simp: dictionary_main_def dict_rep_def)
qed

text \<open>
  The first run, with a sorted change log: the file is sorted, and it has the meaning of the change log
  for every word in it and the meaning of \<^verbatim>\<open>main\<close> for the other words of \<^verbatim>\<open>main\<close>.
\<close>

theorem dictionary_main_first_run:
  assumes "faults w = []" and "fs w FilePath = None" and "fs w ''./change_log'' = Some (dict_log hs)"
    and "\<forall>h \<in> set hs. ok_entry h" and "sorted_log hs"
  shows "\<exists>d w' es. dictionary_main w = (Continue (Return d), w') \<and> content w' FilePath = dict_log es \<and>
     sorted_log es \<and> map_of es = map_of main_words ++ map_of hs"
proof -
  have "content w FilePath = dict_log []" using assms(2) by (simp add: content_def)
  from dictionary_main_file [OF assms(1) this assms(3)] assms(4)
  obtain d w' where "dictionary_main w = (Continue (Return d), w')"
      "content w' FilePath = dict_log (merge_logs main_words hs)" by auto
  with sorted_merge_logs [OF main_words_ok(3) assms(5)] map_of_merge_logs [OF main_words_ok(3) assms(5)]
  show ?thesis by blast
qed

text \<open>A second run appends the three words again; with an empty change log they stay in the file twice.\<close>

theorem dictionary_main_second_run:
  "\<exists>d w'. dictionary_main (demo_log main_words []) = (Continue (Return d), w') \<and>
     content w' FilePath = dict_log (main_words @ main_words)"
  using dictionary_main_file [of "demo_log main_words []" main_words "[]"] main_words_ok(1) by simp

end
