(* ===== verification/Consistent_Hashing.thy ===== *)
theory Consistent_Hashing
  imports Crc
begin

text \<open>
  The ring of src/consistent_hashing/main.go: every storage node owns a hundred slots,
  given by the CRC-64 of its host and a number; a key belongs to the first slot at or
  after its own hash, found by binary search in the sorted slots. Lookups are compared
  with the clockwise successor in a set of slots, from which the stability of the
  assignment under adding and deleting nodes follows. All operations run under the
  ring's lock, so each is one step.
\<close>

section \<open>State and operations\<close>

definition VirtualNodes :: nat where
  "VirtualNodes = 100"

record StorageNode =
  name :: string
  host :: string

record ConsistentHashingRing =
  nodes :: "uint64 list"
  nodeMap :: "uint64 \<Rightarrow> StorageNode option"

definition NewConsistentHashingRing :: ConsistentHashingRing where
  "NewConsistentHashingRing = \<lparr>nodes = [], nodeMap = Map.empty\<rparr>"

definition newStorageNode :: "string \<Rightarrow> string \<Rightarrow> StorageNode" where
  "newStorageNode n h = \<lparr>name = n, host = h\<rparr>"

definition computeHash :: "string \<Rightarrow> uint64" where
  "computeHash key = Checksum64ISO (str_bytes key)"

definition virtualNodeKey :: "StorageNode \<Rightarrow> nat \<Rightarrow> string" where
  "virtualNodeKey node i = host node @ ''#'' @ dec i"

definition add_slot :: "StorageNode \<Rightarrow> nat \<Rightarrow> ConsistentHashingRing \<Rightarrow> ConsistentHashingRing" where
  "add_slot node i c =
     (let slot = computeHash (virtualNodeKey node i)
      in c\<lparr>nodes := nodes c @ [slot], nodeMap := (nodeMap c)(slot \<mapsto> node)\<rparr>)"

text \<open>
  \<^verbatim>\<open>sort.Slice\<close> on integers: the sorted list is unique, whatever the algorithm does
  with equal elements.
\<close>

definition addNode :: "StorageNode \<Rightarrow> ConsistentHashingRing \<Rightarrow> ConsistentHashingRing" where
  "addNode node c =
     (let c1 = fold (add_slot node) [0..<VirtualNodes] c
      in c1\<lparr>nodes := sort (nodes c1)\<rparr>)"

text \<open>
  \<^verbatim>\<open>make([]uint64, 0, n)\<close> panics for a negative capacity, which \<open>len - VirtualNodes\<close> may be.
\<close>

definition del_slot :: "StorageNode \<Rightarrow> nat \<Rightarrow> (uint64 \<Rightarrow> StorageNode option) \<Rightarrow> uint64 \<Rightarrow> StorageNode option" where
  "del_slot node i m = m(computeHash (virtualNodeKey node i) := None)"

definition deleteNode :: "StorageNode \<Rightarrow> ConsistentHashingRing \<Rightarrow> ConsistentHashingRing outcome" where
  "deleteNode node c =
     (let m = fold (del_slot node) [0..<VirtualNodes] (nodeMap c)
      in if length (nodes c) < VirtualNodes then Panic
         else Return \<lparr>nodes = filter (\<lambda>h. m h \<noteq> None) (nodes c), nodeMap = m\<rparr>)"

text \<open>\<^verbatim>\<open>sort.Search\<close>: bisection of \<open>[i, j)\<close>.\<close>

function search_loop :: "(nat \<Rightarrow> bool) \<Rightarrow> nat \<Rightarrow> nat \<Rightarrow> nat" where
  "search_loop f i j =
     (if i < j then
        (let h = (i + j) div 2
         in if \<not> f h then search_loop f (h + 1) j else search_loop f i h)
      else i)"
  by pat_completeness auto

termination
  by (relation "measure (\<lambda>(f, i, j). j - i)") auto

declare search_loop.simps [simp del]

definition Search :: "nat \<Rightarrow> (nat \<Rightarrow> bool) \<Rightarrow> nat" where
  "Search n f = search_loop f 0 n"

definition getNode :: "string \<Rightarrow> ConsistentHashingRing \<Rightarrow> StorageNode option" where
  "getNode key c =
     (if length (nodes c) = 0 then None
      else (let hash = computeHash key;
                idx = Search (length (nodes c)) (\<lambda>i. nodes c ! i \<ge> hash);
                idx' = (if idx = length (nodes c) then 0 else idx)
            in nodeMap c (nodes c ! idx')))"

text \<open>
  \<^verbatim>\<open>main\<close>: what it prints of the keys before and after it deletes the node that owns the first slot.
  Using the nil that \<open>getNode\<close> or the map returned, or the first slot of an empty ring, panics.
\<close>

definition main_keys :: "string list" where
  "main_keys = [''user:1'', ''user:101'', ''user:1028'', ''user:17917'', ''user:2917191'', ''user:18191910'', ''user:176181618'']"

definition main_ring :: ConsistentHashingRing where
  "main_ring =
     addNode (newStorageNode ''C'' ''255.255.0.1'')
       (addNode (newStorageNode ''B'' ''192.168.1.2'')
         (addNode (newStorageNode ''A'' ''127.0.0.1'') NewConsistentHashingRing))"

fun target_names :: "string list \<Rightarrow> ConsistentHashingRing \<Rightarrow> string list outcome" where
  "target_names [] ch = Return []"
| "target_names (key # keys) ch =
     (case getNode key ch of
        None \<Rightarrow> Panic
      | Some targetNode \<Rightarrow>
          (case target_names keys ch of
             Panic \<Rightarrow> Panic
           | Return ns \<Rightarrow> Return (name targetNode # ns)))"

definition ring_main :: "(string list \<times> string \<times> string list) outcome" where
  "ring_main =
     (case target_names main_keys main_ring of
        Panic \<Rightarrow> Panic
      | Return before \<Rightarrow>
          (case nodes main_ring of
             [] \<Rightarrow> Panic
           | slot # _ \<Rightarrow>
               (case nodeMap main_ring slot of
                  None \<Rightarrow> Panic
                | Some nodeToBeDeleted \<Rightarrow>
                    (case deleteNode nodeToBeDeleted main_ring of
                       Panic \<Rightarrow> Panic
                     | Return ch \<Rightarrow>
                         (case target_names main_keys ch of
                            Panic \<Rightarrow> Panic
                          | Return after \<Rightarrow> Return (before, name nodeToBeDeleted, after))))))"

section \<open>Binary search\<close>

text \<open>The least index that satisfies an upward closed predicate.\<close>

lemma search_loop_least:
  assumes mono: "\<forall>a b. a \<le> b \<longrightarrow> b < n \<longrightarrow> f a \<longrightarrow> f b"
  shows "i \<le> j \<Longrightarrow> j \<le> n \<Longrightarrow> \<forall>k < i. \<not> f k \<Longrightarrow> \<forall>k. j \<le> k \<and> k < n \<longrightarrow> f k \<Longrightarrow>
    search_loop f i j \<le> n \<and> (\<forall>k < search_loop f i j. \<not> f k) \<and> (\<forall>k. search_loop f i j \<le> k \<and> k < n \<longrightarrow> f k)"
proof (induction "j - i" arbitrary: i j rule: less_induct)
  case less
  let ?h = "(i + j) div 2"
  show ?case
  proof (cases "i < j")
    case False
    then have "search_loop f i j = i" by (subst search_loop.simps) simp
    with False less.prems show ?thesis by auto
  next
    case True
    then have h: "i \<le> ?h" "?h < j" by auto
    show ?thesis
    proof (cases "f ?h")
      case False
      then have eq: "search_loop f i j = search_loop f (?h + 1) j"
        using True by (subst search_loop.simps) simp
      have "\<not> f k" if "k \<le> ?h" for k
        using False mono that h less.prems(2) by (meson less_le_trans)
      then have "\<forall>k < ?h + 1. \<not> f k" by (simp add: less_Suc_eq_le)
      then show ?thesis
        unfolding eq by (rule less.hyps [rotated 3]) (use h less.prems(2,4) in auto)
    next
      case fh: True
      then have eq: "search_loop f i j = search_loop f i ?h"
        using True by (subst search_loop.simps) simp
      have "\<forall>k. ?h \<le> k \<and> k < n \<longrightarrow> f k" using mono fh by blast
      then show ?thesis
        unfolding eq by (rule less.hyps [rotated 4]) (use h less.prems(2,3) in auto)
    qed
  qed
qed

lemma Search_least:
  assumes "\<forall>a b. a \<le> b \<longrightarrow> b < n \<longrightarrow> f a \<longrightarrow> f b"
  shows "Search n f \<le> n" and "k < Search n f \<Longrightarrow> \<not> f k" and "Search n f \<le> k \<Longrightarrow> k < n \<Longrightarrow> f k"
proof -
  have "search_loop f 0 n \<le> n \<and> (\<forall>k < search_loop f 0 n. \<not> f k) \<and>
      (\<forall>k. search_loop f 0 n \<le> k \<and> k < n \<longrightarrow> f k)"
    by (rule search_loop_least [OF assms]) auto
  then show "Search n f \<le> n" and "k < Search n f \<Longrightarrow> \<not> f k" and "Search n f \<le> k \<Longrightarrow> k < n \<Longrightarrow> f k"
    unfolding Search_def by blast+
qed

section \<open>The clockwise successor\<close>

definition clockwise :: "uint64 set \<Rightarrow> uint64 \<Rightarrow> uint64" where
  "clockwise S h = (if \<exists>s \<in> S. h \<le> s then Min {s \<in> S. h \<le> s} else Min S)"

lemma clockwise_mem: "finite S \<Longrightarrow> S \<noteq> {} \<Longrightarrow> clockwise S h \<in> S"
  using Min_in [of "{s \<in> S. h \<le> s}"] Min_in [of S] by (auto simp: clockwise_def)

text \<open>Adding slots: the successor is a new slot or the old one.\<close>

lemma clockwise_Un:
  assumes "finite S" and "finite T" and "S \<noteq> {}" and "clockwise (S \<union> T) h \<notin> T"
  shows "clockwise (S \<union> T) h = clockwise S h"
proof (cases "\<exists>s \<in> S \<union> T. h \<le> s")
  case True
  let ?A = "{s \<in> S \<union> T. h \<le> s}" and ?B = "{s \<in> S. h \<le> s}"
  have c: "clockwise (S \<union> T) h = Min ?A" using True by (simp add: clockwise_def)
  have fin: "finite ?A" "finite ?B" using assms by auto
  have "Min ?A \<in> ?A" using True fin(1) by (intro Min_in) auto
  with c assms(4) have B: "Min ?A \<in> ?B" by auto
  have "Min ?B = Min ?A"
  proof (rule Min_eqI [OF fin(2)])
    show "Min ?A \<in> ?B" by (rule B)
    show "Min ?A \<le> y" if "y \<in> ?B" for y
      using that by (intro Min_le [OF fin(1)]) auto
  qed
  moreover have "\<exists>s \<in> S. h \<le> s" using B by auto
  ultimately show ?thesis using c by (simp add: clockwise_def)
next
  case False
  then have c: "clockwise (S \<union> T) h = Min (S \<union> T)" "clockwise S h = Min S" by (auto simp: clockwise_def)
  have "Min (S \<union> T) \<in> S" using assms c(1) Min_in [of "S \<union> T"] by auto
  then have "Min S = Min (S \<union> T)"
    using assms by (intro Min_eqI) auto
  with c show ?thesis by simp
qed

lemma clockwise_Diff:
  assumes "finite S" and "clockwise S h \<in> S - T"
  shows "clockwise (S - T) h = clockwise S h"
proof -
  have "S = (S - T) \<union> (S \<inter> T)" "S - T \<noteq> {}" using assms(2) by blast+
  with clockwise_Un [of "S - T" "S \<inter> T" h] assms show ?thesis by auto
qed

section \<open>The ring\<close>

text \<open>The slots of a node, and the effect of the two loops over them.\<close>

definition slots :: "StorageNode \<Rightarrow> uint64 list" where
  "slots node = map (\<lambda>i. computeHash (virtualNodeKey node i)) [0..<VirtualNodes]"

lemma length_slots [simp]: "length (slots node) = VirtualNodes"
  by (simp add: slots_def)

lemma slots_nonempty [simp]: "slots node \<noteq> []"
  by (simp add: slots_def VirtualNodes_def)

lemma fold_add_slot:
  "fold (add_slot node) is c =
   c\<lparr>nodes := nodes c @ map (\<lambda>i. computeHash (virtualNodeKey node i)) is,
     nodeMap := (\<lambda>s. if s \<in> (\<lambda>i. computeHash (virtualNodeKey node i)) ` set is then Some node else nodeMap c s)\<rparr>"
  by (induction "is" arbitrary: c) (auto simp: add_slot_def Let_def fun_eq_iff)

lemma fold_del_slot:
  "fold (del_slot node) is m =
   (\<lambda>s. if s \<in> (\<lambda>i. computeHash (virtualNodeKey node i)) ` set is then None else m s)"
  by (induction "is" arbitrary: m) (auto simp: del_slot_def fun_eq_iff)

lemma addNode_eq:
  "addNode node c = c\<lparr>nodes := sort (nodes c @ slots node),
     nodeMap := (\<lambda>s. if s \<in> set (slots node) then Some node else nodeMap c s)\<rparr>"
  by (simp add: addNode_def Let_def fold_add_slot slots_def)

lemma deleteNode_eq:
  "deleteNode node c =
     (if length (nodes c) < VirtualNodes then Panic
      else Return \<lparr>nodes = filter (\<lambda>s. s \<notin> set (slots node) \<and> nodeMap c s \<noteq> None) (nodes c),
                   nodeMap = (\<lambda>s. if s \<in> set (slots node) then None else nodeMap c s)\<rparr>)"
proof -
  have "filter (\<lambda>h. (if h \<in> set (slots node) then None else nodeMap c h) \<noteq> None) (nodes c) =
      filter (\<lambda>s. s \<notin> set (slots node) \<and> nodeMap c s \<noteq> None) (nodes c)"
    by (rule filter_cong) auto
  then show ?thesis by (simp add: deleteNode_def Let_def fold_del_slot slots_def)
qed

lemma nodes_addNode: "nodes (addNode node c) \<noteq> []"
proof -
  have "set (nodes (addNode node c)) \<noteq> {}" by (simp add: addNode_eq)
  then show ?thesis by force
qed

text \<open>The slots are sorted, and they are exactly the keys of the map.\<close>

definition ring_inv :: "ConsistentHashingRing \<Rightarrow> bool" where
  "ring_inv c \<longleftrightarrow> sorted (nodes c) \<and> set (nodes c) = dom (nodeMap c)"

lemma ring_inv_new: "ring_inv NewConsistentHashingRing"
  by (simp add: ring_inv_def NewConsistentHashingRing_def)

lemma ring_inv_add: "ring_inv c \<Longrightarrow> ring_inv (addNode node c)"
  by (auto simp: ring_inv_def addNode_eq split: if_splits)

lemma ring_inv_delete: "ring_inv c \<Longrightarrow> deleteNode node c = Return c' \<Longrightarrow> ring_inv c'"
  by (auto simp: ring_inv_def deleteNode_eq sorted_wrt_filter split: if_splits)

text \<open>A lookup returns the owner of the clockwise successor of the hash.\<close>

lemma search_clockwise:
  fixes xs :: "uint64 list"
  assumes sorted: "sorted xs" and ne: "xs \<noteq> []"
    and idx: "idx = Search (length xs) (\<lambda>i. xs ! i \<ge> h)"
  shows "xs ! (if idx = length xs then 0 else idx) = clockwise (set xs) h"
proof -
  have "\<forall>a b. a \<le> b \<longrightarrow> b < length xs \<longrightarrow> h \<le> xs ! a \<longrightarrow> h \<le> xs ! b"
    using sorted by (meson order_trans sorted_nth_mono)
  note least = Search_least [OF this, folded idx]
  show ?thesis
  proof (cases "idx = length xs")
    case True
    then have "\<not> h \<le> xs ! k" if "k < length xs" for k using least(2) that by blast
    then have "\<not> (\<exists>s \<in> set xs. h \<le> s)" by (metis in_set_conv_nth)
    moreover have "Min (set xs) = xs ! 0"
    proof (rule Min_eqI)
      show "xs ! 0 \<le> y" if "y \<in> set xs" for y
        using that sorted by (metis in_set_conv_nth le0 sorted_nth_mono)
    qed (use ne in auto)
    ultimately show ?thesis using True by (simp add: clockwise_def)
  next
    case False
    then have lt: "idx < length xs" using least(1) by simp
    then have ge: "h \<le> xs ! idx" using least(3) by blast
    have "Min {s \<in> set xs. h \<le> s} = xs ! idx"
    proof (rule Min_eqI)
      show "xs ! idx \<le> y" if y: "y \<in> {s \<in> set xs. h \<le> s}" for y
      proof -
        obtain k where k: "k < length xs" "y = xs ! k" using y by (auto simp: in_set_conv_nth)
        then have "idx \<le> k" using least(2) y by (metis (no_types, lifting) mem_Collect_eq not_le)
        with k sorted show ?thesis by (metis sorted_nth_mono)
      qed
    qed (use lt ge in auto)
    with False lt ge show ?thesis by (auto simp: clockwise_def)
  qed
qed

lemma getNode_eq:
  assumes "ring_inv c"
  shows "getNode key c = (if dom (nodeMap c) = {} then None
     else nodeMap c (clockwise (dom (nodeMap c)) (computeHash key)))"
proof (cases "nodes c = []")
  case True
  with assms show ?thesis by (simp add: getNode_def ring_inv_def)
next
  case False
  with assms have "dom (nodeMap c) \<noteq> {}" "set (nodes c) = dom (nodeMap c)" "sorted (nodes c)"
    by (auto simp: ring_inv_def)
  with search_clockwise [OF _ False refl, of "computeHash key"] False show ?thesis
    by (simp add: getNode_def Let_def)
qed

lemma ring_finite: "ring_inv c \<Longrightarrow> finite (dom (nodeMap c))"
  by (metis List.finite_set ring_inv_def)

lemma getNode_Some:
  assumes "ring_inv c" and "dom (nodeMap c) \<noteq> {}"
  shows "\<exists>n. getNode key c = Some n"
  using clockwise_mem [OF ring_finite [OF assms(1)] assms(2)] assms by (auto simp: getNode_eq)

text \<open>Adding a node moves keys to it and moves no other key.\<close>

lemma getNode_add:
  assumes "ring_inv c"
  shows "getNode key (addNode node c) = Some node \<or>
         dom (nodeMap c) \<noteq> {} \<and> getNode key (addNode node c) = getNode key c"
proof -
  let ?c = "addNode node c" and ?h = "computeHash key"
  have dom: "dom (nodeMap ?c) = dom (nodeMap c) \<union> set (slots node)"
    by (auto simp: addNode_eq split: if_splits)
  have ne: "dom (nodeMap ?c) \<noteq> {}" using dom by auto
  let ?s = "clockwise (dom (nodeMap ?c)) ?h"
  have get: "getNode key ?c = nodeMap ?c ?s"
    using getNode_eq [OF ring_inv_add [OF assms]] ne by simp
  show ?thesis
  proof (cases "?s \<in> set (slots node)")
    case True
    then show ?thesis using get by (simp add: addNode_eq)
  next
    case False
    have s: "?s \<in> dom (nodeMap ?c)"
      by (rule clockwise_mem [OF ring_finite [OF ring_inv_add [OF assms]] ne])
    then have old: "dom (nodeMap c) \<noteq> {}" using False dom by auto
    then have "?s = clockwise (dom (nodeMap c)) ?h"
      using clockwise_Un [OF ring_finite [OF assms] _ old] False dom by simp
    then show ?thesis using get False old getNode_eq [OF assms] by (simp add: addNode_eq)
  qed
qed

text \<open>Deleting a node moves only the keys that it held.\<close>

lemma getNode_delete:
  assumes inv: "ring_inv c" and run: "deleteNode node c = Return c'"
    and s: "clockwise (dom (nodeMap c)) (computeHash key) \<notin> set (slots node)" and ne: "dom (nodeMap c) \<noteq> {}"
  shows "getNode key c' = getNode key c"
proof -
  let ?s = "clockwise (dom (nodeMap c)) (computeHash key)"
  have c': "nodeMap c' = (\<lambda>s. if s \<in> set (slots node) then None else nodeMap c s)"
    using run by (auto simp: deleteNode_eq split: if_splits)
  then have dom: "dom (nodeMap c') = dom (nodeMap c) - set (slots node)" by (auto split: if_splits)
  have mem: "?s \<in> dom (nodeMap c')"
    using clockwise_mem [OF ring_finite [OF inv] ne] s dom by blast
  then have "dom (nodeMap c') \<noteq> {}" by blast
  then have "getNode key c' = nodeMap c' (clockwise (dom (nodeMap c')) (computeHash key))"
    using getNode_eq [OF ring_inv_delete [OF inv run]] by simp
  also have "\<dots> = nodeMap c ?s"
    using clockwise_Diff [OF ring_finite [OF inv]] mem s unfolding dom by (simp add: c')
  finally show ?thesis using getNode_eq [OF inv] ne by simp
qed

text \<open>Deleting a node that was just added gives the ring back.\<close>

lemma delete_add:
  assumes inv: "ring_inv c" and free: "set (slots node) \<inter> dom (nodeMap c) = {}"
  shows "deleteNode node (addNode node c) = Return c"
proof -
  let ?c = "addNode node c"
  let ?P = "\<lambda>s. s \<notin> set (slots node) \<and> nodeMap ?c s \<noteq> None"
  have dom: "set (nodes c) = dom (nodeMap c)" and sorted: "sorted (nodes c)" using inv by (simp_all add: ring_inv_def)
  have "filter ?P (nodes c) = nodes c"
    using free dom by (intro filter_True) (auto simp: addNode_eq)
  moreover have "filter ?P (slots node) = []" by (simp add: filter_empty_conv)
  ultimately have "filter ?P (nodes ?c) = nodes c"
    using sorted by (simp add: addNode_eq filter_sort sorted_sort_id)
  moreover have "(\<lambda>s. if s \<in> set (slots node) then None else nodeMap ?c s) = nodeMap c"
  proof
    fix s
    have "nodeMap c s = None" if "s \<in> set (slots node)" using free that by auto
    then show "(if s \<in> set (slots node) then None else nodeMap ?c s) = nodeMap c s" by (simp add: addNode_eq)
  qed
  moreover have "\<not> length (nodes ?c) < VirtualNodes" by (simp add: addNode_eq)
  ultimately show ?thesis by (simp add: deleteNode_eq)
qed

section \<open>Properties\<close>

text \<open>The calls that change the ring, each under the write lock.\<close>

datatype ring_op = AddNode StorageNode | DeleteNode StorageNode

inductive ring_step :: "ConsistentHashingRing \<Rightarrow> ring_op \<Rightarrow> ConsistentHashingRing \<Rightarrow> bool" where
  ring_add: "ring_step c (AddNode node) (addNode node c)"
| ring_delete: "deleteNode node c = Return c' \<Longrightarrow> ring_step c (DeleteNode node) c'"

interpretation ring: inv_system "\<lambda>c. c = NewConsistentHashingRing" ring_step ring_inv
  by unfold_locales (auto simp: ring_inv_new elim!: ring_step.cases intro: ring_inv_add ring_inv_delete)

text \<open>
  C25. After any sequence of \<open>addNode\<close> and \<open>deleteNode\<close> calls that did not panic, the binary
  search of \<open>getNode\<close> returns the node that owns the clockwise successor of the key's hash
  among the slots of the ring, and nil exactly for the empty ring.
\<close>

theorem lookup_is_clockwise:
  assumes "run ring_step NewConsistentHashingRing ops c"
  shows "getNode key c = (if dom (nodeMap c) = {} then None
           else nodeMap c (clockwise (dom (nodeMap c)) (computeHash key))) \<and>
         (getNode key c = None \<longleftrightarrow> nodes c = [])"
proof -
  have inv: "ring_inv c" by (rule ring.inv_reachable [OF refl assms])
  then have "nodes c = [] \<longleftrightarrow> dom (nodeMap c) = {}" by (metis ring_inv_def set_empty)
  with getNode_eq [OF inv] getNode_Some [OF inv] show ?thesis by (metis option.distinct(1))
qed

theorem lookup_is_clockwise_witness:
  "getNode ''user:1'' (addNode (newStorageNode ''A'' ''127.0.0.1'') NewConsistentHashingRing) \<noteq> None"
proof -
  let ?n = "newStorageNode ''A'' ''127.0.0.1''"
  have "run ring_step NewConsistentHashingRing [AddNode ?n] (addNode ?n NewConsistentHashingRing)"
    by (auto intro: ring_add)
  moreover have "nodes (addNode ?n NewConsistentHashingRing) \<noteq> []"
    by (rule nodes_addNode)
  ultimately show ?thesis using lookup_is_clockwise by blast
qed

text \<open>
  C26. Adding a node moves keys only to that node: every key is afterwards on the new node
  or where it was.
\<close>

theorem add_moves_keys_to_new_node:
  assumes "run ring_step NewConsistentHashingRing ops c"
  shows "getNode key (addNode node c) = Some node \<or>
         nodes c \<noteq> [] \<and> getNode key (addNode node c) = getNode key c"
proof -
  have inv: "ring_inv c" by (rule ring.inv_reachable [OF refl assms])
  then have "nodes c = [] \<longleftrightarrow> dom (nodeMap c) = {}" by (metis ring_inv_def set_empty)
  with getNode_add [OF inv, of key node] show ?thesis by simp
qed

theorem add_moves_keys_to_new_node_witness:
  "getNode ''k'' (addNode (newStorageNode ''A'' ''h'') NewConsistentHashingRing) = Some (newStorageNode ''A'' ''h'')"
  using add_moves_keys_to_new_node [OF run_Nil, of "''k''" "newStorageNode ''A'' ''h''"]
  by (simp add: NewConsistentHashingRing_def)

text \<open>
  Deleting a node moves only the keys it held, provided that no slot of the node had
  been taken over by another one with the same hash.
\<close>

theorem delete_moves_only_own_keys:
  assumes "ring_inv c" and "deleteNode node c = Return c'"
    and "\<forall>s \<in> set (slots node). nodeMap c s = None \<or> nodeMap c s = Some node"
    and "getNode key c \<noteq> Some node"
  shows "getNode key c' = getNode key c"
proof (cases "dom (nodeMap c) = {}")
  case True
  then have "nodes c = []" using assms(1) by (simp add: ring_inv_def)
  with assms(2) show ?thesis by (auto simp: deleteNode_eq VirtualNodes_def)
next
  case False
  let ?s = "clockwise (dom (nodeMap c)) (computeHash key)"
  have "?s \<in> dom (nodeMap c)" by (rule clockwise_mem [OF ring_finite [OF assms(1)] False])
  moreover have "nodeMap c ?s \<noteq> Some node" using assms(4) getNode_eq [OF assms(1), of key] False by simp
  ultimately have "?s \<notin> set (slots node)" using assms(3) by (metis domIff)
  with getNode_delete [OF assms(1,2) _ False] show ?thesis by blast
qed

theorem delete_moves_only_own_keys_witness:
  "\<exists>c c'. deleteNode (newStorageNode ''A'' ''h'') c = Return c' \<and>
     getNode ''k'' c = Some (newStorageNode ''B'' ''g'') \<and> getNode ''k'' c' = Some (newStorageNode ''B'' ''g'')"
proof -
  let ?a = "newStorageNode ''A'' ''h''" and ?b = "newStorageNode ''B'' ''g''"
  have "card (set (slots ?a)) < card (UNIV :: uint64 set)"
    using card_length [of "slots ?a"] by (simp add: VirtualNodes_def card_word)
  then obtain s where s: "s \<notin> set (slots ?a)" by (metis UNIV_eq_I nat_neq_iff)
  let ?c = "\<lparr>nodes = replicate 100 s, nodeMap = [s \<mapsto> ?b]\<rparr>"
  have inv: "ring_inv ?c" by (simp add: ring_inv_def sorted_replicate)
  obtain c' where run: "deleteNode ?a ?c = Return c'" by (simp add: deleteNode_eq VirtualNodes_def)
  have get: "getNode ''k'' ?c = Some ?b"
    using getNode_eq [OF inv] clockwise_mem [of "{s}"] by simp
  have "?b \<noteq> ?a" by (simp add: newStorageNode_def)
  then have "getNode ''k'' c' = getNode ''k'' ?c"
    using get s by (intro delete_moves_only_own_keys [OF inv run]) auto
  with run get show ?thesis by auto
qed

text \<open>
  Deleting from a ring with fewer slots than one node has panics, because the capacity
  of the new slice is negative: in particular deleting the only node a second time.
\<close>

theorem delete_twice_panics:
  "deleteNode node (addNode node NewConsistentHashingRing) = Return NewConsistentHashingRing \<and>
   deleteNode node NewConsistentHashingRing = Panic"
  using delete_add [OF ring_inv_new, of node] by (simp add: deleteNode_eq NewConsistentHashingRing_def VirtualNodes_def)

section \<open>The main function\<close>

text \<open>
  All virtual nodes of a host share the low bits of their hashes, up to the number of digits; this
  keeps the slots of the three hosts apart.
\<close>

definition low_bits :: "StorageNode \<Rightarrow> uint64 set" where
  "low_bits node = {take_bit 32 (drop_bit 8 (computeHash (host node @ ''#''))), take_bit 32 (drop_bit 16 (computeHash (host node @ ''#'')))}"

lemma slot_low:
  assumes "i < VirtualNodes"
  shows "take_bit 32 (computeHash (virtualNodeKey node i)) \<in> low_bits node"
proof -
  let ?d = "str_bytes (dec i)"
  have len: "length ?d = 1 \<or> length ?d = 2"
    using length_dec [of i 2] assms by (cases "dec i") (auto simp: VirtualNodes_def str_bytes_def le_Suc_eq numeral_2_eq_2)
  have "take_bit 32 (computeHash (virtualNodeKey node i)) =
      take_bit 32 (drop_bit (8 * length ?d) (computeHash (host node @ ''#'')))"
  proof (rule bit_word_eqI)
    fix n
    show "bit (take_bit 32 (computeHash (virtualNodeKey node i))) n =
        bit (take_bit 32 (drop_bit (8 * length ?d) (computeHash (host node @ ''#'')))) n"
      using Checksum64ISO_low [of n ?d "str_bytes (host node @ ''#'')"] len
      by (auto simp: bit_take_bit_iff bit_drop_bit_eq computeHash_def virtualNodeKey_def str_bytes_def add.commute)
  qed
  with len show ?thesis by (auto simp: low_bits_def)
qed

lemma slots_disjoint:
  assumes "low_bits m \<inter> low_bits n = {}"
  shows "set (slots m) \<inter> set (slots n) = {}"
proof -
  have "take_bit 32 s \<in> low_bits node" if "s \<in> set (slots node)" for s node
    using that by (auto simp: slots_def intro: slot_low)
  with assms show ?thesis by blast
qed

lemma host_hashes:
  "computeHash ''127.0.0.1#'' = 0xEE4497F2C1F2C1F6" "computeHash ''192.168.1.2#'' = 0x1B29EC5397FF5773" "computeHash ''255.255.0.1#'' = 0xB42DE86DE8F5A5A1"
  by (simp_all add: computeHash_def str_bytes_def Checksum64ISO_def crc_update_def crc_byte_def crc_bit_def of_char_def go_simps)

abbreviation "node_A \<equiv> newStorageNode ''A'' ''127.0.0.1''"
abbreviation "node_B \<equiv> newStorageNode ''B'' ''192.168.1.2''"
abbreviation "node_C \<equiv> newStorageNode ''C'' ''255.255.0.1''"

lemma hosts_disjoint:
  "set (slots node_A) \<inter> set (slots node_B) = {}" "set (slots node_A) \<inter> set (slots node_C) = {}"
  "set (slots node_B) \<inter> set (slots node_C) = {}"
  by (rule slots_disjoint, simp add: low_bits_def newStorageNode_def host_hashes drop_bit_eq_div take_bit_eq_mod)+

lemma main_ring_owner:
  "nodeMap main_ring s = Some n \<longleftrightarrow> n \<in> {node_A, node_B, node_C} \<and> s \<in> set (slots n)"
  using hosts_disjoint by (auto simp: main_ring_def addNode_eq NewConsistentHashingRing_def)

lemma main_ring_names:
  "m \<in> {node_A, node_B, node_C} \<Longrightarrow> n \<in> {node_A, node_B, node_C} \<Longrightarrow> name m = name n \<longleftrightarrow> m = n"
  by (auto simp: newStorageNode_def)

lemma main_ring_inv: "ring_inv main_ring"
  by (simp add: main_ring_def ring_inv_add ring_inv_new)

lemma target_names_eq:
  "\<forall>key \<in> set keys. getNode key ch \<noteq> None \<Longrightarrow>
   target_names keys ch = Return (map (\<lambda>key. name (the (getNode key ch))) keys)"
  by (induction keys) auto

lemma getNode_owner: "ring_inv c \<Longrightarrow> getNode key c = Some n \<Longrightarrow> \<exists>s. nodeMap c s = Some n"
  by (auto simp: getNode_eq split: if_splits)

text \<open>A lookup in a ring never returns a node that was deleted from it.\<close>

lemma getNode_deleted:
  assumes "ring_inv c" and "deleteNode node c = Return c'"
    and "\<And>s. nodeMap c s = Some node \<Longrightarrow> s \<in> set (slots node)"
  shows "getNode key c' \<noteq> Some node"
proof -
  have "nodeMap c' s \<noteq> Some node" for s using assms(2) assms(3) [of s] by (auto simp: deleteNode_eq split: if_splits)
  then show ?thesis by (simp add: getNode_eq [OF ring_inv_delete [OF assms(1,2)]])
qed

text \<open>What deleting any of the three nodes does to the lookups.\<close>

lemma main_ring_delete:
  assumes n: "n \<in> {node_A, node_B, node_C}"
  obtains c' where "deleteNode n main_ring = Return c'"
    and "\<And>key. \<exists>a b. getNode key main_ring = Some a \<and> getNode key c' = Some b \<and>
      name b \<noteq> name n \<and> (name a \<noteq> name n \<longrightarrow> name b = name a)"
proof -
  have "length (nodes main_ring) = 3 * VirtualNodes" by (simp add: main_ring_def addNode_eq NewConsistentHashingRing_def)
  then obtain c' where del: "deleteNode n main_ring = Return c'" by (simp add: deleteNode_eq)
  then have map: "nodeMap c' = (\<lambda>s. if s \<in> set (slots n) then None else nodeMap main_ring s)"
    by (auto simp: deleteNode_eq split: if_splits)
  have "\<exists>m \<in> {node_A, node_B, node_C}. m \<noteq> n" by (simp add: newStorageNode_def) blast
  then obtain m where m: "m \<in> {node_A, node_B, node_C}" "m \<noteq> n" by blast
  let ?s = "hd (slots m)"
  have "nodeMap main_ring ?s = Some m" using m(1) by (simp add: main_ring_owner)
  moreover from this have "?s \<notin> set (slots n)" using m(2) n main_ring_owner [of ?s n] by auto
  ultimately have "?s \<in> dom (nodeMap main_ring)" "?s \<in> dom (nodeMap c')" by (simp_all add: map domI)
  then have ne: "dom (nodeMap main_ring) \<noteq> {}" "dom (nodeMap c') \<noteq> {}" by blast+
  show thesis
  proof (rule that [OF del])
    fix key
    obtain a where a: "getNode key main_ring = Some a" using getNode_Some [OF main_ring_inv ne(1)] by blast
    obtain b where b: "getNode key c' = Some b"
      using getNode_Some [OF ring_inv_delete [OF main_ring_inv del] ne(2)] by blast
    have nodes: "a \<in> {node_A, node_B, node_C}" "b \<in> {node_A, node_B, node_C}"
    proof -
      obtain s where "nodeMap main_ring s = Some a" using getNode_owner [OF main_ring_inv a] ..
      then show "a \<in> {node_A, node_B, node_C}" unfolding main_ring_owner ..
      obtain t where "nodeMap c' t = Some b" using getNode_owner [OF ring_inv_delete [OF main_ring_inv del] b] ..
      then have "nodeMap main_ring t = Some b" by (simp add: map split: if_splits)
      then show "b \<in> {node_A, node_B, node_C}" unfolding main_ring_owner ..
    qed
    have "b \<noteq> n" using b getNode_deleted [OF main_ring_inv del, of key] by (auto simp: main_ring_owner)
    moreover have "b = a" if "a \<noteq> n"
      using delete_moves_only_own_keys [OF main_ring_inv del, of key] n a b that by (simp add: main_ring_owner)
    ultimately show "\<exists>a b. getNode key main_ring = Some a \<and> getNode key c' = Some b \<and>
        name b \<noteq> name n \<and> (name a \<noteq> name n \<longrightarrow> name b = name a)"
      using a b main_ring_names [OF nodes(1) n] main_ring_names [OF nodes(2) n] by auto
  qed
qed

text \<open>
  The demonstration runs to its end, and shows what it is meant to: after the deletion no key is on
  the deleted node, and the keys that were on another one have stayed there.
\<close>

theorem ring_main_moves_only_deleted:
  "\<exists>before n after. ring_main = Return (before, n, after) \<and>
     list_all2 (\<lambda>old new. new \<noteq> n \<and> (old \<noteq> n \<longrightarrow> new = old)) before after"
proof -
  have "nodes main_ring \<noteq> []" by (simp add: main_ring_def nodes_addNode)
  then obtain slot ss where ss: "nodes main_ring = slot # ss" by (cases "nodes main_ring") auto
  then obtain n where n: "nodeMap main_ring slot = Some n"
    using main_ring_inv by (fastforce simp: ring_inv_def)
  then have "n \<in> {node_A, node_B, node_C}" by (simp add: main_ring_owner)
  from main_ring_delete [OF this] obtain c' where del: "deleteNode n main_ring = Return c'"
    and get: "\<And>key. \<exists>a b. getNode key main_ring = Some a \<and> getNode key c' = Some b \<and>
      name b \<noteq> name n \<and> (name a \<noteq> name n \<longrightarrow> name b = name a)"
    by blast
  let ?names = "\<lambda>ch. map (\<lambda>key. name (the (getNode key ch))) main_keys"
  have "target_names main_keys main_ring = Return (?names main_ring)" "target_names main_keys c' = Return (?names c')"
    using get by (metis option.distinct(1) target_names_eq)+
  then have "ring_main = Return (?names main_ring, name n, ?names c')"
    using ss n del by (simp add: ring_main_def)
  moreover have "list_all2 (\<lambda>old new. new \<noteq> name n \<and> (old \<noteq> name n \<longrightarrow> new = old)) (?names main_ring) (?names c')"
    unfolding list_all2_map1 list_all2_map2 using get by (intro list.rel_refl) (metis option.sel)
  ultimately show ?thesis by blast
qed

section \<open>Adding and deleting\<close>



text \<open>The condition is needed: adding a node that is there and deleting it removes it.\<close>

theorem add_again_delete_removes:
  "deleteNode node (addNode node (addNode node NewConsistentHashingRing)) = Return NewConsistentHashingRing"
proof -
  have "filter (\<lambda>s. s \<notin> set (slots node) \<and> nodeMap c s \<noteq> None) (nodes (addNode node (addNode node NewConsistentHashingRing))) = []" for c
    by (auto simp: filter_empty_conv addNode_eq NewConsistentHashingRing_def)
  then show ?thesis
    by (simp add: deleteNode_eq) (auto simp: addNode_eq NewConsistentHashingRing_def VirtualNodes_def fun_eq_iff)
qed

end
