(* ===== verification/Load_Balancer.thy ===== *)
theory Load_Balancer
  imports Go_Prelude
begin

text \<open>
  The backends and the first two algorithms of src/load-balancer: the record of
  backend_server_properties.go, the interface every algorithm implements (main.go) as
  a locale, round_robin.go and least_connections.go. Backends are shared by pointer
  between the configuration and the requests in flight, so they live in a heap and the
  configuration lists their addresses.
\<close>

section \<open>Backends\<close>

text \<open>Go's \<^verbatim>\<open>int32\<close>, read by \<^const>\<open>sint\<close>; \<^verbatim>\<open>atomic.Int32.Add\<close> wraps.\<close>

type_synonym int32 = "32 word"

record BackendServerProperties =
  server_id :: string
  baseUrl :: string
  apiPort :: uint64
  healthCheckPort :: uint64
  activeConnectionsCount :: int32
  weight :: uint64

definition NewBackendServer :: "string \<Rightarrow> string \<Rightarrow> uint64 \<Rightarrow> uint64 \<Rightarrow> BackendServerProperties" where
  "NewBackendServer i url api health =
     \<lparr>server_id = i, baseUrl = url, apiPort = api, healthCheckPort = health,
      activeConnectionsCount = 0, weight = 0\<rparr>"

definition GetID :: "BackendServerProperties \<Rightarrow> string" where
  "GetID b = server_id b"

definition GetUrl :: "BackendServerProperties \<Rightarrow> string" where
  "GetUrl b = baseUrl b"

definition GetAPIPort :: "BackendServerProperties \<Rightarrow> uint64" where
  "GetAPIPort b = apiPort b"

definition SetWeight :: "uint64 \<Rightarrow> BackendServerProperties \<Rightarrow> BackendServerProperties \<times> go_error option" where
  "SetWeight w b =
     (if w > 100 then (b, Some (ErrMsg ''Weight cannot be greater than 100''))
      else (b\<lparr>weight := w\<rparr>, None))"

definition IncrementConnections :: "BackendServerProperties \<Rightarrow> BackendServerProperties" where
  "IncrementConnections b = b\<lparr>activeConnectionsCount := activeConnectionsCount b + 1\<rparr>"

definition DecrementConnections :: "BackendServerProperties \<Rightarrow> BackendServerProperties" where
  "DecrementConnections b = b\<lparr>activeConnectionsCount := activeConnectionsCount b + (- 1)\<rparr>"

definition GetActiveConnections :: "BackendServerProperties \<Rightarrow> int32" where
  "GetActiveConnections b = activeConnectionsCount b"

text \<open>
  The heap of backends. The slice of the configuration holds pointers that
  \<open>NewBackendServer\<close> made, which are never nil; a result may still be nil.
\<close>

type_synonym ptr = nat
type_synonym heap = "ptr \<Rightarrow> BackendServerProperties"

lemmas backend_defs = GetID_def GetUrl_def GetAPIPort_def IncrementConnections_def
  DecrementConnections_def GetActiveConnections_def

text \<open>A call counted in and out again leaves the backend as it was.\<close>

lemma decrement_increment [simp]: "DecrementConnections (IncrementConnections b) = b"
  by (simp add: backend_defs)

lemma server_id_connections [simp]:
  "server_id (IncrementConnections b) = server_id b"
  "server_id (DecrementConnections b) = server_id b"
  by (simp_all add: backend_defs)

section \<open>The interface of an algorithm\<close>

text \<open>
  \<^verbatim>\<open>getNext\<close> gets the load balancer, of which it reads the servers only (\<open>None\<close> is the nil
  load balancer), and returns a pointer, which may be nil, or an error.
\<close>

type_synonym 'a get_next = "'a \<Rightarrow> heap \<Rightarrow> ptr list option \<Rightarrow> 'a \<times> ptr option result"

definition no_servers :: "ptr list option \<Rightarrow> bool" where
  "no_servers lb \<longleftrightarrow> lb = None \<or> the lb = []"

definition empty_error :: "ptr option result" where
  "empty_error = Inl (ErrMsg ''backend servers cannot be empty'')"

lemma no_servers_simps [simp]:
  "no_servers None" "no_servers (Some xs) \<longleftrightarrow> xs = []"
  by (simp_all add: no_servers_def)

text \<open>The answers to \<open>n\<close> calls; the algorithms' locks order concurrent calls.\<close>

fun calls :: "'a get_next \<Rightarrow> heap \<Rightarrow> ptr list option \<Rightarrow> nat \<Rightarrow> 'a \<Rightarrow> 'a \<times> ptr option result list" where
  "calls f h lb 0 a = (a, [])"
| "calls f h lb (Suc n) a =
     (let (b, r) = f a h lb; (c, rs) = calls f h lb n b in (c, r # rs))"

lemma calls_add:
  "calls f h lb (m + n) a =
     (let (b, rs) = calls f h lb m a; (c, rs') = calls f h lb n b in (c, rs @ rs'))"
  by (induction m arbitrary: a) (simp_all add: Let_def split_beta)

lemma length_calls [simp]: "length (snd (calls f h lb n a)) = n"
  by (induction n arbitrary: a) (simp_all add: split_beta)

text \<open>
  What an algorithm promises: without servers every call is the same error and changes
  nothing; in a good state a call answers one of the servers, and the state stays good.
\<close>

locale balancing_algorithm =
  fixes getNext :: "'a get_next"
    and good :: "'a \<Rightarrow> heap \<Rightarrow> ptr list \<Rightarrow> bool"
  assumes empty: "no_servers lb \<Longrightarrow> getNext a h lb = (a, empty_error)"
    and answers: "good a h ss \<Longrightarrow> \<exists>p \<in> set ss. snd (getNext a h (Some ss)) = Inr (Some p)"
    and keeps_good: "good a h ss \<Longrightarrow> good (fst (getNext a h (Some ss))) h ss"
begin

lemma good_nonempty: "good a h ss \<Longrightarrow> ss \<noteq> []"
  using answers [of a h ss] by auto

lemma calls_good:
  assumes "good a h ss"
  shows "good (fst (calls getNext h (Some ss) n a)) h ss"
  using assms
  by (induction n arbitrary: a) (simp_all add: split_beta keeps_good)

lemma calls_answer:
  assumes "good a h ss"
  shows "set (snd (calls getNext h (Some ss) n a)) \<subseteq> Inr ` Some ` set ss"
  using assms
proof (induction n arbitrary: a)
  case (Suc n)
  from answers [OF Suc.prems] Suc.IH [OF keeps_good [OF Suc.prems]] show ?case
    by (auto simp: split_beta)
qed simp

end

section \<open>Round robin\<close>

record RoundRobinLoadBalancingAlgorithm =
  counter :: nat

text \<open>
  The counter stays below the number of servers of the last call, so its increment
  does not overflow.
\<close>

definition rr_getNext :: "RoundRobinLoadBalancingAlgorithm get_next" where
  "rr_getNext r h lb =
     (if no_servers lb then (r, empty_error)
      else (let servers = the lb;
                result = servers ! (counter r mod length servers)
            in (r\<lparr>counter := (counter r + 1) mod length servers\<rparr>, Inr (Some result))))"

interpretation rr: balancing_algorithm rr_getNext "\<lambda>r h ss. ss \<noteq> []"
  by unfold_locales (auto simp: rr_getNext_def Let_def)

lemma rr_calls:
  assumes "ss \<noteq> []"
  shows "calls rr_getNext h (Some ss) n r =
    (r\<lparr>counter := if n = 0 then counter r else (counter r + n) mod length ss\<rparr>,
     map (\<lambda>i. Inr (Some (ss ! ((counter r + i) mod length ss)))) [0..<n])"
proof (induction n arbitrary: r)
  case 0
  show ?case by simp
next
  case (Suc n)
  have "map (\<lambda>i. Inr (Some (ss ! ((Suc (counter r) mod length ss + i) mod length ss)))) [0..<n]
      = map (\<lambda>i. Inr (Some (ss ! ((counter r + i) mod length ss)))) [Suc 0..<Suc n]"
    by (rule nth_equalityI) (simp_all add: mod_add_left_eq nth_upt del: upt_Suc)
  moreover have "[0..<Suc n] = 0 # [Suc 0..<Suc n]"
    by (simp add: upt_conv_Cons del: upt_Suc)
  ultimately show ?case
    using Suc.IH assms
    by (simp add: rr_getNext_def Let_def mod_add_left_eq del: upt_Suc)
qed

text \<open>
  Round robin is fair: whatever the counter, also one left from a longer list of
  servers, the answers to as many calls as there are servers are the servers themselves,
  each once and in their order, starting at the counter.
\<close>

theorem rr_round_serves_all:
  assumes "ss \<noteq> []"
  shows "snd (calls rr_getNext h (Some ss) (length ss) r) =
    map (\<lambda>p. Inr (Some p)) (rotate (counter r) ss)"
  using assms by (auto simp: rr_calls nth_rotate intro!: nth_equalityI)

theorem rr_round_serves_all_witness:
  "snd (calls rr_getNext (\<lambda>_. NewBackendServer [] [] 0 0) (Some [4, 7, 9]) (length [4 :: nat, 7, 9])
     \<lparr>counter = 5\<rparr>) = [Inr (Some 9), Inr (Some 4), Inr (Some 7)]"
proof -
  have ne: "[4 :: nat, 7, 9] \<noteq> []" by simp
  have "rotate 5 [4 :: nat, 7, 9] = [9, 4, 7]" by code_simp
  then show ?thesis
    by (simp only: rr_round_serves_all [OF ne] list.map RoundRobinLoadBalancingAlgorithm.simps)
qed

section \<open>Least connections\<close>

definition MaxInt32 :: int where
  "MaxInt32 = 2 ^ 31 - 1"

text \<open>The loop of \<^verbatim>\<open>getNext\<close>, with its variables \<^verbatim>\<open>min\<close> and \<^verbatim>\<open>result\<close>.\<close>

fun lc_loop :: "heap \<Rightarrow> ptr list \<Rightarrow> int \<times> ptr option \<Rightarrow> int \<times> ptr option" where
  "lc_loop h [] acc = acc"
| "lc_loop h (p # ps) (m, result) =
     (let active = sint (GetActiveConnections (h p))
      in if active < m then lc_loop h ps (active, Some p) else lc_loop h ps (m, result))"

text \<open>The algorithm has no state.\<close>

definition lc_getNext :: "unit get_next" where
  "lc_getNext l h lb =
     (if no_servers lb then (l, empty_error)
      else (l, Inr (snd (lc_loop h (the lb) (MaxInt32, None)))))"

abbreviation conns :: "heap \<Rightarrow> ptr \<Rightarrow> int" where
  "conns h p \<equiv> sint (activeConnectionsCount (h p))"

lemma lc_loop_min:
  "lc_loop h ps (m, r) =
     (if \<forall>p \<in> set ps. m \<le> conns h p then (m, r)
      else (Min (conns h ` set ps), find (\<lambda>p. conns h p = Min (conns h ` set ps)) ps))"
proof (induction ps arbitrary: m r)
  case Nil
  show ?case by simp
next
  case (Cons p ps)
  let ?M = "Min (conns h ` set (p # ps))"
  show ?case
  proof (cases "conns h p < m")
    case True
    show ?thesis
    proof (cases "\<forall>q \<in> set ps. conns h p \<le> conns h q")
      case all: True
      then have "?M = conns h p" by (intro Min_eqI) auto
      with all True Cons.IH show ?thesis by (auto simp: backend_defs Let_def)
    next
      case False
      then obtain q where q: "q \<in> set ps" "conns h q < conns h p" by auto
      then have "Min (conns h ` set ps) < conns h p"
        by (meson Min_le finite_imageI finite_set image_eqI le_less_trans)
      moreover from this q have "?M = Min (conns h ` set ps)"
        by (subst list.set, subst image_insert, subst Min_insert) auto
      ultimately show ?thesis
        using False True Cons.IH by (auto simp: backend_defs Let_def)
    qed
  next
    case False
    show ?thesis
    proof (cases "\<forall>q \<in> set ps. m \<le> conns h q")
      case True
      with False Cons.IH show ?thesis by (auto simp: backend_defs Let_def)
    next
      case less: False
      then obtain q where q: "q \<in> set ps" "conns h q < m" by auto
      then have "Min (conns h ` set ps) < conns h p"
        using False
        by (meson Min_le finite_imageI finite_set image_eqI le_less_trans not_less less_le_trans)
      moreover from this q have "?M = Min (conns h ` set ps)"
        by (subst list.set, subst image_insert, subst Min_insert) auto
      ultimately show ?thesis
        using less False Cons.IH by (auto simp: backend_defs Let_def)
    qed
  qed
qed

lemma find_Min:
  assumes "xs \<noteq> []"
  obtains x where "find (\<lambda>x. f x = Min (f ` set xs)) xs = Some x" and "x \<in> set xs"
    and "\<forall>y \<in> set xs. (f x :: int) \<le> f y"
proof -
  have "Min (f ` set xs) \<in> f ` set xs" using assms by (intro Min_in) auto
  then have "find (\<lambda>x. f x = Min (f ` set xs)) xs \<noteq> None" by (auto simp: find_None_iff)
  then obtain x where x: "find (\<lambda>x. f x = Min (f ` set xs)) xs = Some x" by blast
  then have "x \<in> set xs" "f x = Min (f ` set xs)" by (auto simp: find_Some_iff)
  then show thesis by (intro that [OF x]) auto
qed

interpretation lc: balancing_algorithm lc_getNext "\<lambda>l h ss. \<exists>p \<in> set ss. conns h p < MaxInt32"
proof
  fix l h ss
  assume "\<exists>p \<in> set ss. conns h p < MaxInt32"
  then have "ss \<noteq> []" and "\<not> (\<forall>p \<in> set ss. MaxInt32 \<le> conns h p)" by (auto simp: not_le)
  moreover obtain x where "find (\<lambda>p. conns h p = Min (conns h ` set ss)) ss = Some x" "x \<in> set ss"
    using find_Min [OF \<open>ss \<noteq> []\<close>] by metis
  ultimately show "\<exists>p \<in> set ss. snd (lc_getNext l h (Some ss)) = Inr (Some p)"
    by (simp add: lc_getNext_def lc_loop_min)
qed (auto simp: lc_getNext_def)

text \<open>
  The least-connections algorithm answers a server with the fewest active
  connections, and of those the first in the list, unless every counter is at the
  largest 32-bit value.
\<close>

theorem lc_least:
  assumes "\<exists>p \<in> set ss. conns h p < MaxInt32"
  shows "\<exists>i < length ss. snd (lc_getNext () h (Some ss)) = Inr (Some (ss ! i)) \<and>
    (\<forall>q \<in> set ss. conns h (ss ! i) \<le> conns h q) \<and>
    (\<forall>j < i. conns h (ss ! i) < conns h (ss ! j))"
proof -
  let ?M = "Min (conns h ` set ss)"
  from assms have ne: "ss \<noteq> []" and "\<not> (\<forall>p \<in> set ss. MaxInt32 \<le> conns h p)" by (auto simp: not_le)
  then have r: "snd (lc_getNext () h (Some ss)) = Inr (find (\<lambda>p. conns h p = ?M) ss)"
    unfolding lc_getNext_def lc_loop_min by auto
  obtain x where x: "find (\<lambda>p. conns h p = ?M) ss = Some x"
    using find_Min [OF ne, where f = "conns h"] by metis
  then obtain i where i: "i < length ss" "conns h (ss ! i) = ?M" "x = ss ! i"
    and before: "\<forall>j < i. conns h (ss ! j) \<noteq> ?M"
    by (auto simp: find_Some_iff)
  have le: "\<forall>q \<in> set ss. ?M \<le> conns h q" by simp
  have "?M < conns h (ss ! j)" if "j < i" for j
  proof -
    from that i(1) have "j < length ss" by simp
    then have "?M \<le> conns h (ss ! j)" by (intro Min_le) auto
    moreover from that before have "conns h (ss ! j) \<noteq> ?M" by blast
    ultimately show ?thesis by linarith
  qed
  with i le r x show ?thesis by auto
qed

theorem lc_least_witness:
  "snd (lc_getNext () (\<lambda>p. (NewBackendServer [] [] 0 0)\<lparr>activeConnectionsCount := of_nat p\<rparr>)
     (Some [5, 3, 3])) = Inr (Some 3)"
proof -
  let ?h = "\<lambda>p. (NewBackendServer [] [] 0 0)\<lparr>activeConnectionsCount := of_nat p\<rparr>"
  have c: "conns ?h 5 = 5" "conns ?h 3 = 3" by simp_all
  then have "\<exists>p \<in> set [5, 3, 3]. conns ?h p < MaxInt32" by (simp add: MaxInt32_def)
  from lc_least [OF this] obtain i where i: "i < length [5 :: nat, 3, 3]"
    "snd (lc_getNext () ?h (Some [5, 3, 3])) = Inr (Some ([5, 3, 3] ! i))"
    "conns ?h ([5, 3, 3] ! i) \<le> conns ?h 3"
    by (metis list.set_intros(1,2))
  have "i \<noteq> 0"
  proof
    assume "i = 0"
    with i(3) c show False by simp
  qed
  with i(1) have "i = 1 \<or> i = 2" by (auto simp: less_Suc_eq)
  with i(2) show ?thesis by auto
qed

text \<open>With every counter at the largest 32-bit value the answer is nil and no error.\<close>

lemma lc_all_saturated:
  assumes "ss \<noteq> []" and "\<forall>p \<in> set ss. conns h p = MaxInt32"
  shows "lc_getNext () h (Some ss) = ((), Inr None)"
  using assms by (simp add: lc_getNext_def lc_loop_min)

end
