(* ===== verification/Load_Balancer_Weighted.thy ===== *)
theory Load_Balancer_Weighted
  imports Load_Balancer
begin

text \<open>
  The two weighted algorithms of src/load-balancer: classic_weighted_round_robin.go,
  which serves every server's share of a hundred requests in one block, and
  smooth_weighted_round_robin.go, which spreads the shares. Both are proved to give
  every server exactly its share of every hundred requests.
\<close>

section \<open>Weights\<close>

text \<open>Reading a Go map of integers: a missing key reads as zero.\<close>

definition index :: "(string \<rightharpoonup> int) \<Rightarrow> string \<Rightarrow> int" where
  "index m k = (case m k of None \<Rightarrow> 0 | Some v \<Rightarrow> v)"

lemma index_simps [simp]:
  "index (m(k \<mapsto> v)) k = v" "j \<noteq> k \<Longrightarrow> index (m(k \<mapsto> v)) j = index m j"
  "index (map_of ((k, v) # ws)) k = v"
  "j \<noteq> k \<Longrightarrow> index (map_of ((k, v) # ws)) j = index (map_of ws) j"
  by (simp_all add: index_def)

text \<open>
  The constructors take a map and range over it; the list holds its entries in the
  order of that iteration.
\<close>

type_synonym weights = "(string \<times> int) list"

definition weight_sum :: "weights \<Rightarrow> int" where
  "weight_sum ws = foldl (\<lambda>s (k, w). wrap64 (s + w)) 0 ws"

text \<open>The search for the server with the chosen id, in the order of the configuration.\<close>

definition find_server :: "heap \<Rightarrow> ptr list \<Rightarrow> string \<Rightarrow> ptr option" where
  "find_server h ss k = find (\<lambda>p. GetID (h p) = k) ss"

lemma find_server_Some:
  "find_server h ss k = Some p \<Longrightarrow> p \<in> set ss \<and> server_id (h p) = k"
  by (auto simp: find_server_def GetID_def find_Some_iff)

lemma find_server_inj:
  "find_server h ss k = Some p \<Longrightarrow> find_server h ss j = Some p \<Longrightarrow> j = k"
  by (auto dest: find_server_Some)

text \<open>What the weights have to be for the shares to make sense: percentages of a whole.\<close>

definition valid_weights :: "weights \<Rightarrow> bool" where
  "valid_weights ws \<longleftrightarrow>
     distinct (map fst ws) \<and> list_all (\<lambda>(k, w). 0 \<le> w) ws \<and> sum_list (map snd ws) = 100"

lemma valid_weights_simps:
  "valid_weights ws \<longleftrightarrow>
     distinct (map fst ws) \<and> (\<forall>k w. (k, w) \<in> set ws \<longrightarrow> 0 \<le> w) \<and> sum_list (map snd ws) = 100"
  by (auto simp: valid_weights_def list_all_iff)

lemma weight_sum_wrap: "weight_sum ws = wrap64 (sum_list (map snd ws))"
proof -
  have "foldl (\<lambda>s (k, w). wrap64 (s + w)) (wrap64 a) ws = wrap64 (a + sum_list (map snd ws))" for a
    by (induction ws arbitrary: a) (auto simp: wrap64_add_left add.assoc)
  from this [of 0] show ?thesis by (simp add: weight_sum_def)
qed

lemma weight_sum_valid: "valid_weights ws \<Longrightarrow> weight_sum ws = 100"
  by (simp add: weight_sum_wrap valid_weights_simps)

definition ids :: "weights \<Rightarrow> string set" where
  "ids ws = set (map fst ws)"

lemma ids_simps [simp]:
  "ids [] = {}" "ids ((k, w) # ws) = insert k (ids ws)" "finite (ids ws)"
  by (simp_all add: ids_def)

lemma set_sorted_ids: "set (sort (map fst ws)) = ids ws"
  by (simp add: ids_def)

lemma notin_ids: "distinct (map fst ((k, w) # ws)) \<Longrightarrow> k \<notin> ids ws"
  by (simp add: ids_def)

lemma sum_index:
  "distinct (map fst ws) \<Longrightarrow> (\<Sum>k \<in> ids ws. index (map_of ws) k) = sum_list (map snd ws)"
proof (induction ws)
  case (Cons kw ws)
  obtain k w where kw: "kw = (k, w)" by (cases kw)
  with Cons.prems have k: "k \<notin> ids ws" by (intro notin_ids) simp
  then have "(\<Sum>j \<in> ids ws. index (map_of (kw # ws)) j) = (\<Sum>j \<in> ids ws. index (map_of ws) j)"
    by (intro sum.cong) (auto simp: index_def kw)
  moreover have "index (map_of (kw # ws)) k = w" by (simp add: index_def kw)
  ultimately show ?case using Cons k kw by (simp add: fun_upd_def)
qed simp

lemma valid_sum:
  "valid_weights ws \<Longrightarrow> (\<Sum>k \<in> ids ws. index (map_of ws) k) = 100"
  by (simp add: sum_index valid_weights_simps)

lemma valid_index_nonneg: "valid_weights ws \<Longrightarrow> 0 \<le> index (map_of ws) k"
  by (auto simp: index_def valid_weights_simps dest: map_of_SomeD split: option.splits)

lemma valid_index_le:
  assumes "valid_weights ws" and "k \<in> ids ws"
  shows "index (map_of ws) k \<le> 100"
proof -
  have "index (map_of ws) k \<le> (\<Sum>k \<in> ids ws. index (map_of ws) k)"
    using assms by (intro member_le_sum) (auto simp: valid_index_nonneg)
  with assms show ?thesis by (simp only: valid_sum)
qed

section \<open>Classic weighted round robin\<close>

record ClassicWeightedRoundRobin =
  requestCount :: int
  serverWeights :: "string \<rightharpoonup> int"
  keys :: "string list"

definition NewClassicWeightedRoundRobin :: "weights \<Rightarrow> ClassicWeightedRoundRobin result" where
  "NewClassicWeightedRoundRobin ws =
     (if length ws = 0 then Inl (ErrMsg ''provided empty server weights'')
      else if weight_sum ws \<noteq> 100 then Inl (ErrMsg ''sum of all weights should be 100'')
      else Inr \<lparr>requestCount = 0, serverWeights = map_of ws, keys = sort (map fst ws)\<rparr>)"

text \<open>
  The loop over the keys with \<^verbatim>\<open>weightSum\<close>; the id is the empty string when no prefix
  sum reaches the request count.
\<close>

fun classic_loop :: "(string \<rightharpoonup> int) \<Rightarrow> int \<Rightarrow> string list \<Rightarrow> int \<Rightarrow> string" where
  "classic_loop sw rc [] weightSum = []"
| "classic_loop sw rc (key # ks) weightSum =
     (let weightSum' = wrap64 (weightSum + index sw key)
      in if weightSum' \<ge> rc then key else classic_loop sw rc ks weightSum')"

definition classic_getNext :: "ClassicWeightedRoundRobin get_next" where
  "classic_getNext w h lb =
     (if no_servers lb then (w, empty_error)
      else (let w' = w\<lparr>requestCount := requestCount w mod 100 + 1\<rparr>;
                backendServerId = classic_loop (serverWeights w') (requestCount w') (keys w') 0
            in (w', case find_server h (the lb) backendServerId of
                      Some server \<Rightarrow> Inr (Some server)
                    | None \<Rightarrow> Inl (ErrMsg ''unexpected error occurred''))))"

text \<open>The answer a request for a server id gets.\<close>

definition answer :: "heap \<Rightarrow> ptr list \<Rightarrow> string \<Rightarrow> ptr option result" where
  "answer h ss k =
     (case find_server h ss k of
        Some p \<Rightarrow> Inr (Some p)
      | None \<Rightarrow> Inl (ErrMsg ''unexpected error occurred''))"

text \<open>One cycle of the classic algorithm: every key as often as its weight, in blocks.\<close>

definition cycle :: "(string \<Rightarrow> int) \<Rightarrow> string list \<Rightarrow> string list" where
  "cycle w ks = concat (map (\<lambda>k. replicate (nat (w k)) k) ks)"

lemma length_cycle:
  "\<forall>k. 0 \<le> w k \<Longrightarrow> int (length (cycle w ks)) = sum_list (map w ks)"
  by (induction ks) (simp_all add: cycle_def)

lemma length_cycle_valid:
  assumes "valid_weights ws"
  shows "length (cycle (index (map_of ws)) (sort (map fst ws))) = 100"
  using length_cycle [of "index (map_of ws)" "sort (map fst ws)"] valid_sum [OF assms]
    valid_index_nonneg [OF assms] assms
  by (simp add: valid_weights_simps sum_list_distinct_conv_sum_set ids_def)

text \<open>The loop finds the key at the request's place of the cycle.\<close>

lemma classic_loop_cycle:
  assumes nonneg: "\<forall>k. 0 \<le> index sw k" and "0 \<le> acc"
    and "acc + sum_list (map (index sw) ks) \<le> 100"
    and "i < length (cycle (index sw) ks)" and "rc = acc + int i + 1"
  shows "classic_loop sw rc ks acc = cycle (index sw) ks ! i"
  using assms(2-)
proof (induction ks arbitrary: acc i)
  case Nil
  then show ?case by (simp add: cycle_def)
next
  case (Cons k ks)
  let ?w = "index sw k"
  have w: "0 \<le> ?w" "0 \<le> sum_list (map (index sw) ks)"
    using nonneg by (auto intro!: sum_list_nonneg)
  with Cons.prems have wrap: "wrap64 (acc + ?w) = acc + ?w" by (intro wrap64_id) auto
  have cyc: "cycle (index sw) (k # ks) = replicate (nat ?w) k @ cycle (index sw) ks"
    by (simp add: cycle_def)
  show ?case
  proof (cases "int i < ?w")
    case True
    then have "i < nat ?w" by linarith
    with True show ?thesis using Cons.prems w by (simp add: wrap cyc nth_append)
  next
    case False
    then have "classic_loop sw rc ks (acc + ?w) = cycle (index sw) ks ! (i - nat ?w)"
      using Cons.prems w cyc by (intro Cons.IH) auto
    moreover from False have "\<not> i < nat ?w" by linarith
    ultimately show ?thesis using False Cons.prems w by (simp add: wrap cyc nth_append)
  qed
qed

lemma classic_answer:
  assumes v: "valid_weights ws" and ne: "ss \<noteq> []"
    and c: "serverWeights c = map_of ws" "keys c = sort (map fst ws)"
    and rc: "0 \<le> requestCount c"
  shows "classic_getNext c h (Some ss) =
    (c\<lparr>requestCount := requestCount c mod 100 + 1\<rparr>,
     answer h ss (cycle (index (map_of ws)) (sort (map fst ws)) ! nat (requestCount c mod 100)))"
proof -
  let ?w = "index (map_of ws)" and ?ks = "sort (map fst ws)" and ?i = "requestCount c mod 100"
  have d: "distinct ?ks" using v by (simp add: valid_weights_simps)
  have sum: "sum_list (map ?w ?ks) = 100"
    using valid_sum [OF v] d by (simp add: sum_list_distinct_conv_sum_set ids_def)
  have i: "0 \<le> ?i" "?i < 100" by simp_all
  then have "nat ?i < length (cycle ?w ?ks)" unfolding length_cycle_valid [OF v] by linarith
  then have "classic_loop (map_of ws) (?i + 1) ?ks 0 = cycle ?w ?ks ! nat ?i"
    using valid_index_nonneg [OF v] sum i by (intro classic_loop_cycle) auto
  with ne c show ?thesis
    by (simp add: classic_getNext_def answer_def Let_def cong: option.case_cong)
qed

lemma classic_calls:
  assumes v: "valid_weights ws" and ne: "ss \<noteq> []"
    and c: "serverWeights c = map_of ws" "keys c = sort (map fst ws)"
    and rc: "0 \<le> requestCount c"
  shows "snd (calls classic_getNext h (Some ss) n c) =
    map (\<lambda>i. answer h ss (cycle (index (map_of ws)) (sort (map fst ws)) !
      nat ((requestCount c + int i) mod 100))) [0..<n]"
  using c rc
proof (induction n arbitrary: c)
  case (Suc n)
  let ?c = "c\<lparr>requestCount := requestCount c mod 100 + 1\<rparr>"
  have "(requestCount c mod 100 + 1 + int i) mod 100 = (requestCount c + int (Suc i)) mod 100" for i
    using mod_add_left_eq [of "requestCount c" 100 "1 + int i"] by (simp add: ac_simps)
  moreover have "[0..<Suc n] = 0 # map Suc [0..<n]"
    by (simp add: map_Suc_upt upt_conv_Cons del: upt_Suc)
  ultimately show ?case
    using Suc.IH [of ?c] Suc.prems
    by (simp add: classic_answer [OF v ne] split_beta comp_def del: upt_Suc)
qed simp

lemma map_upt_mod:
  "length xs = 100 \<Longrightarrow>
    map (\<lambda>i. f (xs ! nat (int i mod 100))) [0..<100 * n] = concat (replicate n (map f xs))"
proof (induction n)
  case (Suc n)
  have "map (\<lambda>i. f (xs ! nat (int i mod 100))) [100 * n..<100 * n + 100] = map f xs"
  proof (rule nth_equalityI)
    fix j assume "j < length (map (\<lambda>i. f (xs ! nat (int i mod 100))) [100 * n..<100 * n + 100])"
    then show "map (\<lambda>i. f (xs ! nat (int i mod 100))) [100 * n..<100 * n + 100] ! j = map f xs ! j"
      using Suc.prems by (simp add: nat_mod_distrib [symmetric])
  qed (simp add: Suc.prems)
  moreover have "[0..<100 * Suc n] = [0..<100 * n] @ [100 * n..<100 * n + 100]"
    using upt_add_eq_append [of 0 "100 * n" 100] by (simp add: add.commute)
  moreover have "concat (replicate (Suc n) ys) = concat (replicate n ys) @ ys" for ys :: "'b list"
    by (induction n) simp_all
  ultimately show ?case using Suc by simp
qed simp

text \<open>
  C31. The classic algorithm with valid weights serves the requests in cycles of a
  hundred: in each, the keys in their order get as many consecutive requests as their
  weights say; a key that is no server's id answers its share with an error.
\<close>

theorem classic_cycles:
  assumes "valid_weights ws" and "ss \<noteq> []" and "NewClassicWeightedRoundRobin ws = Inr c"
  shows "snd (calls classic_getNext h (Some ss) (100 * n) c) =
    concat (replicate n (map (answer h ss) (cycle (index (map_of ws)) (sort (map fst ws)))))"
proof -
  let ?cyc = "cycle (index (map_of ws)) (sort (map fst ws))"
  have c: "c = \<lparr>requestCount = 0, serverWeights = map_of ws, keys = sort (map fst ws)\<rparr>"
    using assms(3) by (auto simp: NewClassicWeightedRoundRobin_def split: if_splits)
  from length_cycle_valid [OF assms(1)] classic_calls [OF assms(1,2), of c h "100 * n"] map_upt_mod [of ?cyc "answer h ss" n]
  show ?thesis by (simp add: c)
qed

lemma valid_ABC: "valid_weights [(''C'', 25), (''A'', 50), (''B'', 25)]"
  by code_simp

theorem classic_cycles_witness:
  "snd (calls classic_getNext (\<lambda>p. NewBackendServer (if p = 1 then ''A'' else if p = 2 then ''B'' else ''C'') [] 0 0)
      (Some [1, 2, 3]) (100 * 7) (projr (NewClassicWeightedRoundRobin [(''C'', 25), (''A'', 50), (''B'', 25)]))) =
    concat (replicate 7 (replicate 50 (Inr (Some 1)) @ replicate 25 (Inr (Some 2)) @ replicate 25 (Inr (Some 3))))"
proof -
  let ?ws = "[(''C'', 25), (''A'', 50), (''B'', 25)]"
  let ?h = "\<lambda>p. NewBackendServer (if p = 1 then ''A'' else if p = 2 then ''B'' else ''C'') [] 0 0"
  have ks: "sort (map fst ?ws) = [''A'', ''B'', ''C'']" by code_simp
  have "NewClassicWeightedRoundRobin ?ws = Inr (projr (NewClassicWeightedRoundRobin ?ws))"
    by (simp add: NewClassicWeightedRoundRobin_def weight_sum_valid [OF valid_ABC])
  from classic_cycles [OF valid_ABC _ this, of "[1, 2, 3]" ?h 7] show ?thesis
    by (simp only: ks)
      (simp add: cycle_def answer_def find_server_def GetID_def NewBackendServer_def index_def)
qed

text \<open>A classic algorithm whose keys are all ids of configured servers.\<close>

definition classic_good :: "ClassicWeightedRoundRobin \<Rightarrow> heap \<Rightarrow> ptr list \<Rightarrow> bool" where
  "classic_good c h ss \<longleftrightarrow> ss \<noteq> [] \<and> 0 \<le> requestCount c \<and>
     (\<exists>ws. valid_weights ws \<and> serverWeights c = map_of ws \<and> keys c = sort (map fst ws) \<and>
        (\<forall>k \<in> ids ws. find_server h ss k \<noteq> None))"

interpretation classic: balancing_algorithm classic_getNext classic_good
proof
  fix c h ss assume good: "classic_good c h ss"
  then obtain ws where ne: "ss \<noteq> []" and rc: "0 \<le> requestCount c" and v: "valid_weights ws"
    and c: "serverWeights c = map_of ws" "keys c = sort (map fst ws)"
    and listed: "\<forall>k \<in> ids ws. find_server h ss k \<noteq> None"
    unfolding classic_good_def by blast
  note nxt = classic_answer [OF v ne c rc, of h]
  from nxt good show "classic_good (fst (classic_getNext c h (Some ss))) h ss"
    by (simp add: classic_good_def)
  let ?k = "cycle (index (map_of ws)) (sort (map fst ws)) ! nat (requestCount c mod 100)"
  have "requestCount c mod 100 < 100" "0 \<le> requestCount c mod 100" by simp_all
  then have "nat (requestCount c mod 100) < length (cycle (index (map_of ws)) (sort (map fst ws)))"
    unfolding length_cycle_valid [OF v] by linarith
  from nth_mem [OF this] have "?k \<in> ids ws" by (auto simp: cycle_def ids_def)
  with listed obtain p where p: "find_server h ss ?k = Some p" by blast
  with nxt have "snd (classic_getNext c h (Some ss)) = Inr (Some p)" by (simp add: answer_def)
  with find_server_Some [OF p] show "\<exists>p \<in> set ss. snd (classic_getNext c h (Some ss)) = Inr (Some p)"
    by blast
qed (simp add: classic_getNext_def)

section \<open>Smooth weighted round robin\<close>

record SmoothWeightedRoundRobin =
  s_requestCount :: int
  s_serverWeights :: "string \<rightharpoonup> int"
  currentWeights :: "string \<rightharpoonup> int"
  s_keys :: "string list"

definition NewSmoothWeightRoundRobin :: "weights \<Rightarrow> SmoothWeightedRoundRobin result" where
  "NewSmoothWeightRoundRobin ws =
     (if length ws = 0 then Inl (ErrMsg ''provided empty server weights'')
      else if weight_sum ws \<noteq> 100 then Inl (ErrMsg ''sum of all weights should be 100'')
      else Inr \<lparr>s_requestCount = 0, s_serverWeights = map_of ws,
                currentWeights = foldl (\<lambda>m (k, w). m(k \<mapsto> 0)) Map.empty ws,
                s_keys = sort (map fst ws)\<rparr>)"

text \<open>The loop over the keys, with the current weights, \<^verbatim>\<open>max\<close> and \<^verbatim>\<open>maxKey\<close>.\<close>

definition MinInt :: int where
  "MinInt = - (2 ^ 63)"

fun smooth_loop :: "(string \<rightharpoonup> int) \<Rightarrow> string list \<Rightarrow> (string \<rightharpoonup> int) \<times> int \<times> string \<Rightarrow>
    (string \<rightharpoonup> int) \<times> int \<times> string" where
  "smooth_loop sw [] acc = acc"
| "smooth_loop sw (key # ks) (cw, mx, maxKey) =
     (let v = wrap64 (index cw key + index sw key); cw' = cw(key \<mapsto> v)
      in if v > mx then smooth_loop sw ks (cw', v, key) else smooth_loop sw ks (cw', mx, maxKey))"

definition smooth_getNext :: "SmoothWeightedRoundRobin get_next" where
  "smooth_getNext s h lb =
     (if no_servers lb then (s, empty_error)
      else (let (cw, mx, maxKey) = smooth_loop (s_serverWeights s) (s_keys s) (currentWeights s, MinInt, [])
            in case find_server h (the lb) maxKey of
                 None \<Rightarrow> (s\<lparr>currentWeights := cw\<rparr>, Inl (ErrMsg ''unexpected error''))
               | Some result \<Rightarrow>
                   (s\<lparr>currentWeights := cw(maxKey \<mapsto> wrap64 (index cw maxKey - 100))\<rparr>, Inr (Some result))))"

text \<open>The loop adds the weights and finds a key whose new current weight is largest.\<close>

lemma smooth_loop_Cons:
  assumes "\<bar>index cw k + index sw k\<bar> < 2 ^ 63"
  shows "smooth_loop sw (k # ks) (cw, mx, mk) =
    (if mx < index cw k + index sw k
     then smooth_loop sw ks (cw(k \<mapsto> index cw k + index sw k), index cw k + index sw k, k)
     else smooth_loop sw ks (cw(k \<mapsto> index cw k + index sw k), mx, mk))"
proof -
  have "wrap64 (index cw k + index sw k) = index cw k + index sw k"
    using assms by (intro wrap64_id) auto
  then show ?thesis by (simp add: Let_def)
qed

lemma smooth_loop_adds:
  assumes "distinct ks" and "\<forall>k \<in> set ks. \<bar>index cw k + index sw k\<bar> < 2 ^ 63"
  shows "index (fst (smooth_loop sw ks (cw, mx, mk))) j =
    (if j \<in> set ks then index cw j + index sw j else index cw j)"
  using assms
proof (induction ks arbitrary: cw mx mk)
  case (Cons k ks)
  obtain cw1 where cw1: "cw1 = cw(k \<mapsto> index cw k + index sw k)" by blast
  then have other: "index cw1 i = (if i = k then index cw k + index sw k else index cw i)" for i
    by simp
  have eq: "smooth_loop sw (k # ks) (cw, mx, mk) =
      (if mx < index cw k + index sw k then smooth_loop sw ks (cw1, index cw k + index sw k, k)
       else smooth_loop sw ks (cw1, mx, mk))"
    unfolding cw1 using Cons.prems(2) by (intro smooth_loop_Cons) simp
  have "index (fst (smooth_loop sw ks (cw1, mx', mk'))) j =
    (if j \<in> set ks then index cw1 j + index sw j else index cw1 j)" for mx' mk'
    using Cons.prems by (intro Cons.IH) (auto simp: other)
  with Cons.prems(1) show ?case unfolding eq by (auto simp: other)
qed simp

lemma smooth_loop_max:
  assumes "distinct ks" and "\<forall>k \<in> set ks. \<bar>index cw k + index sw k\<bar> < 2 ^ 63"
    and "smooth_loop sw ks (cw, mx, mk) = (cw', mx', mk')"
  shows "mx \<le> mx' \<and> (\<forall>k \<in> set ks. index cw k + index sw k \<le> mx') \<and>
    (mx' = mx \<and> mk' = mk \<or> mk' \<in> set ks \<and> mx' = index cw mk' + index sw mk')"
  using assms
proof (induction ks arbitrary: cw mx mk)
  case (Cons k ks)
  obtain cw1 where cw1: "cw1 = cw(k \<mapsto> index cw k + index sw k)" by blast
  then have other: "index cw1 i = (if i = k then index cw k + index sw k else index cw i)" for i
    by simp
  obtain m1 k1 where acc: "(m1, k1) = (if mx < index cw k + index sw k
      then (index cw k + index sw k, k) else (mx, mk))"
    by (metis surj_pair)
  have "smooth_loop sw ks (cw1, m1, k1) = (cw', mx', mk')"
    using Cons.prems(2,3) acc by (auto simp: smooth_loop_Cons cw1 simp del: smooth_loop.simps split: if_splits)
  then have "m1 \<le> mx' \<and> (\<forall>j \<in> set ks. index cw1 j + index sw j \<le> mx') \<and>
    (mx' = m1 \<and> mk' = k1 \<or> mk' \<in> set ks \<and> mx' = index cw1 mk' + index sw mk')"
    using Cons.prems(1,2) by (intro Cons.IH) (auto simp: other)
  with acc Cons.prems(1) show ?case
    by (cases "mx < index cw k + index sw k") (auto simp: other split: if_splits)
qed simp

text \<open>
  The invariant of the smooth algorithm: between requests the current weights sum to
  zero, none is \<open>-100\<close> or less, and a key without weight keeps zero.
\<close>

definition smooth_inv :: "weights \<Rightarrow> SmoothWeightedRoundRobin \<Rightarrow> bool" where
  "smooth_inv ws s \<longleftrightarrow> s_serverWeights s = map_of ws \<and> s_keys s = sort (map fst ws) \<and>
     (\<Sum>k \<in> ids ws. index (currentWeights s) k) = 0 \<and>
     (\<forall>k \<in> ids ws. - 99 \<le> index (currentWeights s) k \<and>
        (index (map_of ws) k = 0 \<longrightarrow> index (currentWeights s) k = 0))"

lemma index_zeros: "index (foldl (\<lambda>m (k, w). m(k \<mapsto> 0)) Map.empty ws) k = 0"
proof -
  have "\<forall>k. index m k = 0 \<Longrightarrow> index (foldl (\<lambda>m (k, w). m(k \<mapsto> 0)) m ws) k = 0" for m :: "string \<rightharpoonup> int"
    by (induction ws arbitrary: m) (auto simp: index_def)
  then show ?thesis by (simp add: index_def)
qed

lemma smooth_init:
  assumes "NewSmoothWeightRoundRobin ws = Inr s"
  shows "smooth_inv ws s" and "index (currentWeights s) k = 0"
  using assms
  by (auto simp: NewSmoothWeightRoundRobin_def smooth_inv_def index_zeros split: if_splits)

lemma smooth_lower: "smooth_inv ws s \<Longrightarrow> valid_weights ws \<Longrightarrow> k \<in> ids ws \<Longrightarrow>
    - 99 * index (map_of ws) k \<le> index (currentWeights s) k"
proof -
  assume "smooth_inv ws s" "valid_weights ws" and k: "k \<in> ids ws"
  then have "- 99 \<le> index (currentWeights s) k" "0 \<le> index (map_of ws) k"
    "index (map_of ws) k = 0 \<longrightarrow> index (currentWeights s) k = 0"
    by (auto simp: smooth_inv_def valid_index_nonneg)
  then show ?thesis by (cases "index (map_of ws) k = 0") auto
qed

lemma smooth_upper:
  assumes "smooth_inv ws s" and v: "valid_weights ws" and k: "k \<in> ids ws"
  shows "index (currentWeights s) k \<le> 9900"
proof -
  let ?K = "ids ws" and ?c = "index (currentWeights s)" and ?w = "index (map_of ws)"
  have "(\<Sum>j \<in> ?K - {k}. - 99 * ?w j) \<le> (\<Sum>j \<in> ?K - {k}. ?c j)"
    using assms by (intro sum_mono smooth_lower) auto
  moreover have "(\<Sum>j \<in> ?K. ?c j) = ?c k + (\<Sum>j \<in> ?K - {k}. ?c j)"
    "(\<Sum>j \<in> ?K. - 99 * ?w j) = - 99 * ?w k + (\<Sum>j \<in> ?K - {k}. - 99 * ?w j)"
    using k by (simp_all add: sum.remove)
  moreover have "(\<Sum>j \<in> ?K. - 99 * ?w j) = - 99 * 100"
    unfolding sum_distrib_left [symmetric] using valid_sum [OF v] by simp
  moreover have "(\<Sum>j \<in> ?K. ?c j) = 0" using assms(1) by (simp add: smooth_inv_def)
  ultimately show ?thesis using valid_index_nonneg [OF v, of k] by linarith
qed

lemma smooth_no_wrap:
  assumes "smooth_inv ws s" and "valid_weights ws" and "k \<in> ids ws"
  shows "\<bar>index (currentWeights s) k + index (map_of ws) k\<bar> < 2 ^ 63"
  using smooth_upper [OF assms] smooth_lower [OF assms] valid_index_le [OF assms(2), of k]
    valid_index_nonneg [OF assms(2), of k] assms(3)
  by auto

text \<open>The key the loop chooses has a positive current weight, the largest of all.\<close>

lemma smooth_pick:
  assumes inv: "smooth_inv ws s" and v: "valid_weights ws"
  obtains cw mx m where
    "smooth_loop (map_of ws) (sort (map fst ws)) (currentWeights s, MinInt, []) = (cw, mx, m)"
    and "\<forall>k \<in> ids ws. index cw k = index (currentWeights s) k + index (map_of ws) k"
    and "\<forall>k \<in> ids ws. index cw k \<le> index cw m"
    and "(\<Sum>k \<in> ids ws. index cw k) = 100"
    and "m \<in> ids ws" and "0 < index cw m"
proof -
  let ?K = "ids ws" and ?w = "index (map_of ws)" and ?c = "index (currentWeights s)"
  obtain cw mx m where loop: "smooth_loop (map_of ws) (sort (map fst ws)) (currentWeights s, MinInt, []) = (cw, mx, m)"
    by (metis prod_cases3)
  have d: "distinct (sort (map fst ws))" using v by (simp add: valid_weights_simps)
  have range: "\<forall>k \<in> set (sort (map fst ws)). \<bar>?c k + ?w k\<bar> < 2 ^ 63"
    using smooth_no_wrap [OF inv v] by (simp only: set_sorted_ids) blast
  have cw: "\<forall>k \<in> ?K. index cw k = ?c k + ?w k"
    using smooth_loop_adds [OF d range, of MinInt "[]"] by (simp add: loop set_sorted_ids del: set_sort)
  have "(\<Sum>k \<in> ?K. ?c k + ?w k) = 100"
    using inv valid_sum [OF v] by (simp add: smooth_inv_def sum.distrib)
  with cw have total: "(\<Sum>k \<in> ?K. index cw k) = 100" by simp
  have max: "\<forall>k \<in> ?K. index cw k \<le> mx" "mx = MinInt \<and> m = [] \<or> m \<in> ?K \<and> mx = index cw m"
    using smooth_loop_max [OF d range loop] cw unfolding set_sorted_ids by auto
  have "0 < mx"
  proof (rule ccontr)
    assume "\<not> 0 < mx"
    then have "\<forall>k \<in> ?K. index cw k \<le> 0" using max(1) by force
    then have "(\<Sum>k \<in> ?K. index cw k) \<le> 0" by (intro sum_nonpos) blast
    with total show False by simp
  qed
  with max(2) have "m \<in> ?K" "mx = index cw m" by (auto simp: MinInt_def)
  with max(1) \<open>0 < mx\<close> show thesis by (intro that [OF loop cw _ total]) simp_all
qed

text \<open>One request of the smooth algorithm when every key is the id of a server.\<close>

lemma smooth_step:
  assumes inv: "smooth_inv ws s" and v: "valid_weights ws" and ne: "ss \<noteq> []"
    and listed: "\<forall>k \<in> ids ws. find_server h ss k \<noteq> None"
  obtains m p where "m \<in> ids ws" and "find_server h ss m = Some p"
    and "snd (smooth_getNext s h (Some ss)) = Inr (Some p)"
    and "\<forall>k \<in> ids ws. index (currentWeights (fst (smooth_getNext s h (Some ss)))) k =
      index (currentWeights s) k + index (map_of ws) k - (if k = m then 100 else 0)"
    and "smooth_inv ws (fst (smooth_getNext s h (Some ss)))"
proof -
  let ?K = "ids ws" and ?w = "index (map_of ws)" and ?c = "index (currentWeights s)"
  let ?s = "fst (smooth_getNext s h (Some ss))"
  obtain cw mx m where loop: "smooth_loop (map_of ws) (sort (map fst ws)) (currentWeights s, MinInt, []) = (cw, mx, m)"
    and cw: "\<forall>k \<in> ?K. index cw k = ?c k + ?w k" and total: "(\<Sum>k \<in> ?K. index cw k) = 100"
    and m: "m \<in> ?K" "0 < index cw m"
    using smooth_pick [OF inv v] by metis
  obtain p where p: "find_server h ss m = Some p" using listed m(1) by blast
  have "\<bar>index cw m\<bar> < 2 ^ 63" using smooth_no_wrap [OF inv v m(1)] cw m(1) by simp
  then have "wrap64 (index cw m - 100) = index cw m - 100"
    using m(2) by (intro wrap64_id) auto
  then have s': "smooth_getNext s h (Some ss) =
      (s\<lparr>currentWeights := cw(m \<mapsto> index cw m - 100)\<rparr>, Inr (Some p))"
    using ne inv p by (simp add: smooth_getNext_def smooth_inv_def loop)
  then have upd: "index (currentWeights ?s) k = index cw k - (if k = m then 100 else 0)" for k
    by (cases "k = m") simp_all
  have "(\<Sum>k \<in> ?K. index (currentWeights ?s) k) = (\<Sum>k \<in> ?K. index cw k) - (\<Sum>k \<in> ?K. if k = m then 100 else 0)"
    unfolding upd sum_subtractf ..
  also have "\<dots> = 0" using total m(1) by simp
  finally have zero: "(\<Sum>k \<in> ?K. index (currentWeights ?s) k) = 0" .
  have "- 99 \<le> index (currentWeights ?s) k \<and> (?w k = 0 \<longrightarrow> index (currentWeights ?s) k = 0)" if k: "k \<in> ?K" for k
  proof -
    have "- 99 \<le> ?c k \<and> (?w k = 0 \<longrightarrow> ?c k = 0)" using inv k unfolding smooth_inv_def by blast
    with m(2) valid_index_nonneg [OF v, of k] cw k show ?thesis
      unfolding upd by (cases "k = m") auto
  qed
  with zero inv s' have "smooth_inv ws ?s" by (simp add: smooth_inv_def)
  with that [OF m(1) p] s' upd cw show thesis by simp
qed

lemma smooth_calls:
  assumes v: "valid_weights ws" and ne: "ss \<noteq> []"
    and listed: "\<forall>k \<in> ids ws. find_server h ss k \<noteq> None" and "smooth_inv ws s"
  shows "smooth_inv ws (fst (calls smooth_getNext h (Some ss) n s)) \<and>
    (\<forall>k \<in> ids ws. \<forall>p. find_server h ss k = Some p \<longrightarrow>
      index (currentWeights (fst (calls smooth_getNext h (Some ss) n s))) k =
        index (currentWeights s) k + int n * index (map_of ws) k -
        100 * int (count_list (snd (calls smooth_getNext h (Some ss) n s)) (Inr (Some p))))"
  using assms(4)
proof (induction n arbitrary: s)
  case (Suc n)
  let ?s = "fst (smooth_getNext s h (Some ss))"
  obtain m q where m: "m \<in> ids ws" "find_server h ss m = Some q"
      "snd (smooth_getNext s h (Some ss)) = Inr (Some q)"
    and upd: "\<forall>k \<in> ids ws. index (currentWeights ?s) k =
      index (currentWeights s) k + index (map_of ws) k - (if k = m then 100 else 0)"
    and inv: "smooth_inv ws ?s"
    using smooth_step [OF Suc.prems v ne listed] by metis
  let ?c = "calls smooth_getNext h (Some ss) n ?s"
  have "index (currentWeights (fst ?c)) k = index (currentWeights s) k + int (Suc n) * index (map_of ws) k -
      100 * int (count_list (Inr (Some q) # snd ?c) (Inr (Some p)))"
    if k: "k \<in> ids ws" "find_server h ss k = Some p" for k p
  proof -
    have "p = q \<longleftrightarrow> k = m" using k(2) m(2) find_server_inj by auto
    moreover have "index (currentWeights (fst ?c)) k = index (currentWeights ?s) k + int n * index (map_of ws) k -
        100 * int (count_list (snd ?c) (Inr (Some p)))"
      using Suc.IH [OF inv] k by blast
    ultimately show ?thesis using upd k(1) by (cases "k = m") (auto simp: algebra_simps)
  qed
  with Suc.IH [OF inv] m(3) show ?case by (simp add: split_beta)
qed simp

text \<open>After whole hundreds of requests all current weights are zero again.\<close>

lemma smooth_exact:
  assumes "valid_weights ws" and "ss \<noteq> []" and "NewSmoothWeightRoundRobin ws = Inr s"
    and "\<forall>k \<in> ids ws. find_server h ss k \<noteq> None"
    and "k \<in> ids ws" and "find_server h ss k = Some p"
  shows "int (count_list (snd (calls smooth_getNext h (Some ss) (100 * n) s)) (Inr (Some p))) =
      int n * index (map_of ws) k \<and>
    index (currentWeights (fst (calls smooth_getNext h (Some ss) (100 * n) s))) k = 0"
proof -
  let ?s = "fst (calls smooth_getNext h (Some ss) (100 * n) s)"
  let ?count = "\<lambda>p. int (count_list (snd (calls smooth_getNext h (Some ss) (100 * n) s)) (Inr (Some p)))"
  note calls = smooth_calls [OF assms(1,2,4) smooth_init(1) [OF assms(3)], of "100 * n"]
  have eq: "index (currentWeights ?s) j = 100 * (int n * index (map_of ws) j - ?count q)"
    if "j \<in> ids ws" "find_server h ss j = Some q" for j q
    using calls that smooth_init(2) [OF assms(3), of j] by simp
  have inv: "(\<Sum>j \<in> ids ws. index (currentWeights ?s) j) = 0"
      "\<forall>j \<in> ids ws. - 99 \<le> index (currentWeights ?s) j"
    using calls unfolding smooth_inv_def by blast+
  have "0 \<le> index (currentWeights ?s) j" if "j \<in> ids ws" for j
  proof -
    from bspec [OF assms(4) that] obtain q where q: "find_server h ss j = Some q" by auto
    have "- 99 \<le> index (currentWeights ?s) j" by (rule bspec [OF inv(2) that])
    moreover have "0 \<le> 100 * x" if "- 99 \<le> 100 * x" for x :: int using that by simp
    ultimately show ?thesis unfolding eq [OF that q] by blast
  qed
  then have "index (currentWeights ?s) k = 0"
    using inv(1) assms(5) sum_nonneg_eq_0_iff [of "ids ws" "index (currentWeights ?s)"] by simp
  with eq [OF assms(5,6)] show ?thesis by simp
qed

text \<open>
  C29. The smooth algorithm gives every server exactly its weight out of every hundred
  requests: after \<open>100 * n\<close> requests the server of key \<open>k\<close> was chosen \<open>n\<close> times its weight,
  and the current weights are back at zero, so the schedule repeats.
\<close>

theorem smooth_exact_share:
  assumes "valid_weights ws" and "ss \<noteq> []" and "NewSmoothWeightRoundRobin ws = Inr s"
    and "\<forall>k \<in> ids ws. find_server h ss k \<noteq> None"
    and "k \<in> ids ws" and "find_server h ss k = Some p"
  shows "int (count_list (snd (calls smooth_getNext h (Some ss) (100 * n) s)) (Inr (Some p))) =
      int n * index (map_of ws) k \<and>
    index (currentWeights (fst (calls smooth_getNext h (Some ss) (100 * n) s))) k = 0"
  by (rule smooth_exact [OF assms])

text \<open>
  C30. At no point is a server ahead of its share: after any number of requests the
  server of key \<open>k\<close> was chosen less than once more than \<open>n * weight / 100\<close> times, and the
  current weights stay between \<open>-99\<close> and 9900.
\<close>

theorem smooth_never_ahead:
  assumes "valid_weights ws" and "ss \<noteq> []" and "NewSmoothWeightRoundRobin ws = Inr s"
    and "\<forall>k \<in> ids ws. find_server h ss k \<noteq> None"
    and "k \<in> ids ws" and "find_server h ss k = Some p"
  shows "100 * int (count_list (snd (calls smooth_getNext h (Some ss) n s)) (Inr (Some p))) <
      int n * index (map_of ws) k + 100 \<and>
    - 99 \<le> index (currentWeights (fst (calls smooth_getNext h (Some ss) n s))) k \<and>
    index (currentWeights (fst (calls smooth_getNext h (Some ss) n s))) k \<le> 9900"
proof -
  let ?s = "fst (calls smooth_getNext h (Some ss) n s)"
  note calls = smooth_calls [OF assms(1,2,4) smooth_init(1) [OF assms(3)], of n]
  have "- 99 \<le> index (currentWeights ?s) k"
    using calls assms(5) unfolding smooth_inv_def by blast
  moreover have "index (currentWeights ?s) k = int n * index (map_of ws) k -
      100 * int (count_list (snd (calls smooth_getNext h (Some ss) n s)) (Inr (Some p)))"
    using calls assms(5,6) smooth_init(2) [OF assms(3), of k] by simp
  moreover have "index (currentWeights ?s) k \<le> 9900"
    using smooth_upper calls assms(1,5) by blast
  ultimately show ?thesis by simp
qed

text \<open>The configuration of \<^verbatim>\<open>main\<close>: three servers with weights 50, 25 and 25.\<close>

definition main_weights :: weights where
  "main_weights = [(''1'', 50), (''2'', 25), (''3'', 25)]"

definition main_servers :: heap where
  "main_servers p =
     (if p = 2 then NewBackendServer ''1'' ''http://localhost'' 9001 9001
      else if p = 3 then NewBackendServer ''2'' ''http://localhost'' 9002 9002
      else NewBackendServer ''3'' ''http://localhost'' 9003 9003)"

lemma main_valid: "valid_weights main_weights" "ids main_weights = {''1'', ''2'', ''3''}"
  by (simp_all add: main_weights_def valid_weights_simps)

lemma main_smooth: "NewSmoothWeightRoundRobin main_weights = Inr (projr (NewSmoothWeightRoundRobin main_weights))"
  by (simp add: NewSmoothWeightRoundRobin_def weight_sum_valid [OF main_valid(1)])
    (simp add: main_weights_def)

lemma main_find:
  "find_server main_servers [2, 3, 4] ''1'' = Some 2" "find_server main_servers [2, 3, 4] ''2'' = Some 3"
  "find_server main_servers [2, 3, 4] ''3'' = Some 4"
  by (simp_all add: find_server_def main_servers_def GetID_def NewBackendServer_def)

lemma main_listed: "\<forall>k \<in> ids main_weights. find_server main_servers [2, 3, 4] k \<noteq> None"
  by (simp add: main_valid main_find)

theorem smooth_exact_share_witness:
  "int (count_list (snd (calls smooth_getNext main_servers (Some [2, 3, 4]) (100 * 3)
     (projr (NewSmoothWeightRoundRobin main_weights)))) (Inr (Some 2))) = 150"
  using smooth_exact_share [OF main_valid(1) _ main_smooth main_listed _ main_find(1), of 3]
  by (simp add: main_valid) (simp add: main_weights_def index_def)

theorem smooth_never_ahead_witness:
  "100 * int (count_list (snd (calls smooth_getNext main_servers (Some [2, 3, 4]) 7
     (projr (NewSmoothWeightRoundRobin main_weights)))) (Inr (Some 4))) < 7 * 25 + 100"
  using smooth_never_ahead [OF main_valid(1) _ main_smooth main_listed _ main_find(3), of 7]
  by (simp add: main_valid) (simp add: main_weights_def index_def)

text \<open>A smooth algorithm whose keys are all ids of configured servers.\<close>

definition smooth_good :: "SmoothWeightedRoundRobin \<Rightarrow> heap \<Rightarrow> ptr list \<Rightarrow> bool" where
  "smooth_good s h ss \<longleftrightarrow> ss \<noteq> [] \<and>
     (\<exists>ws. valid_weights ws \<and> smooth_inv ws s \<and> (\<forall>k \<in> ids ws. find_server h ss k \<noteq> None))"

interpretation smooth: balancing_algorithm smooth_getNext smooth_good
proof
  fix s h ss assume good: "smooth_good s h ss"
  then obtain ws where ne: "ss \<noteq> []" and ws: "smooth_inv ws s" "valid_weights ws"
    "\<forall>k \<in> ids ws. find_server h ss k \<noteq> None"
    unfolding smooth_good_def by blast
  obtain m p where p: "find_server h ss m = Some p" "snd (smooth_getNext s h (Some ss)) = Inr (Some p)"
    "smooth_inv ws (fst (smooth_getNext s h (Some ss)))"
    using smooth_step [OF ws(1,2) ne ws(3)] by metis
  show "\<exists>p \<in> set ss. snd (smooth_getNext s h (Some ss)) = Inr (Some p)"
    using p find_server_Some by blast
  show "smooth_good (fst (smooth_getNext s h (Some ss))) h ss"
    unfolding smooth_good_def using p(3) ws ne by blast
qed (simp add: smooth_getNext_def)

text \<open>
  A key that is not the id of a server and has the largest weight: the call that chooses
  it returns before it subtracts 100, so it stays in front.
\<close>

lemma smooth_fails_step:
  assumes v: "valid_weights ws" and ne: "ss \<noteq> []"
    and s: "s_serverWeights s = map_of ws" "s_keys s = sort (map fst ws)"
    and cw: "\<forall>k \<in> ids ws. index (currentWeights s) k = int i * index (map_of ws) k" and i: "i < 2 ^ 50"
    and m: "m \<in> ids ws" "find_server h ss m = None" "\<forall>k \<in> ids ws - {m}. index (map_of ws) k < index (map_of ws) m"
  obtains cw' where "smooth_getNext s h (Some ss) = (s\<lparr>currentWeights := cw'\<rparr>, Inl (ErrMsg ''unexpected error''))"
    and "\<forall>k \<in> ids ws. index cw' k = int (Suc i) * index (map_of ws) k"
proof -
  let ?w = "index (map_of ws)" and ?ks = "sort (map fst ws)"
  obtain cw' mx mk where loop: "smooth_loop (map_of ws) ?ks (currentWeights s, MinInt, []) = (cw', mx, mk)"
    by (metis prod_cases3)
  have next_w: "index (currentWeights s) k + ?w k = int (Suc i) * ?w k" if "k \<in> ids ws" for k
    using cw that by (simp add: algebra_simps)
  have bound: "0 \<le> int (Suc i) * ?w k" "int (Suc i) * ?w k < 2 ^ 63" if "k \<in> ids ws" for k
  proof -
    have "int (Suc i) * ?w k \<le> 2 ^ 50 * 100"
      using i valid_index_le [OF v that] valid_index_nonneg [OF v, of k] by (intro mult_mono) auto
    then show "int (Suc i) * ?w k < 2 ^ 63" by simp
    show "0 \<le> int (Suc i) * ?w k" using valid_index_nonneg [OF v, of k] by simp
  qed
  have d: "distinct ?ks" using v by (simp add: valid_weights_simps)
  have range: "\<forall>k \<in> set ?ks. \<bar>index (currentWeights s) k + ?w k\<bar> < 2 ^ 63"
    unfolding set_sorted_ids using next_w bound by simp
  have cw': "\<forall>k \<in> ids ws. index cw' k = int (Suc i) * ?w k"
    using smooth_loop_adds [OF d range, of MinInt "[]"] next_w by (simp add: loop set_sorted_ids del: set_sort)
  have max: "\<forall>k \<in> ids ws. int (Suc i) * ?w k \<le> mx"
    "mx = MinInt \<and> mk = [] \<or> mk \<in> ids ws \<and> mx = int (Suc i) * ?w mk"
    using smooth_loop_max [OF d range loop] next_w unfolding set_sorted_ids by auto
  have "0 \<le> mx" using max(1) m(1) bound(1) by (meson order_trans)
  with max(2) have mk: "mk \<in> ids ws" "mx = int (Suc i) * ?w mk" by (auto simp: MinInt_def)
  with max(1) m(1) have "?w m \<le> ?w mk" by (metis mult_le_cancel_left_pos of_nat_0_less_iff zero_less_Suc)
  with mk(1) m(3) have "mk = m" by (metis DiffI leD singletonD)
  with m(2) ne s loop have "smooth_getNext s h (Some ss) =
      (s\<lparr>currentWeights := cw'\<rparr>, Inl (ErrMsg ''unexpected error''))"
    by (simp add: smooth_getNext_def)
  from that [OF this cw'] show thesis .
qed

lemma smooth_fails_calls:
  assumes v: "valid_weights ws" and ne: "ss \<noteq> []"
    and m: "m \<in> ids ws" "find_server h ss m = None" "\<forall>k \<in> ids ws - {m}. index (map_of ws) k < index (map_of ws) m"
  shows "s_serverWeights s = map_of ws \<Longrightarrow> s_keys s = sort (map fst ws) \<Longrightarrow>
    \<forall>k \<in> ids ws. index (currentWeights s) k = int i * index (map_of ws) k \<Longrightarrow> i + n \<le> 2 ^ 50 \<Longrightarrow>
    snd (calls smooth_getNext h (Some ss) n s) = replicate n (Inl (ErrMsg ''unexpected error''))"
proof (induction n arbitrary: i s)
  case (Suc n)
  from Suc.prems(4) have "i < 2 ^ 50" by simp
  then obtain cw' where step: "smooth_getNext s h (Some ss) = (s\<lparr>currentWeights := cw'\<rparr>, Inl (ErrMsg ''unexpected error''))"
    and cw': "\<forall>k \<in> ids ws. index cw' k = int (Suc i) * index (map_of ws) k"
    using smooth_fails_step [OF v ne Suc.prems(1-3) _ m] by metis
  have "snd (calls smooth_getNext h (Some ss) n (s\<lparr>currentWeights := cw'\<rparr>)) =
      replicate n (Inl (ErrMsg ''unexpected error''))"
    using Suc.prems cw' by (intro Suc.IH [of _ "Suc i"]) simp_all
  with step show ?case by (simp add: split_beta)
qed simp

text \<open>
  When the key with the largest weight is not the id of a configured server, the
  smooth algorithm fails on every request, also on those the other servers should have
  had: the chosen key keeps its current weight because the error return comes before the
  subtraction. (The classic algorithm fails on that key's share only.)
\<close>

theorem smooth_unlisted_starves_all:
  assumes "valid_weights ws" and "ss \<noteq> []" and "NewSmoothWeightRoundRobin ws = Inr s"
    and "m \<in> ids ws" and "find_server h ss m = None"
    and "\<forall>k \<in> ids ws - {m}. index (map_of ws) k < index (map_of ws) m" and "n \<le> 2 ^ 50"
  shows "snd (calls smooth_getNext h (Some ss) n s) = replicate n (Inl (ErrMsg ''unexpected error''))"
proof -
  have s: "s_serverWeights s = map_of ws" "s_keys s = sort (map fst ws)"
    using smooth_init(1) [OF assms(3)] by (simp_all add: smooth_inv_def)
  show ?thesis
    using smooth_fails_calls [OF assms(1,2,4-6) s, of 0 n] smooth_init(2) [OF assms(3)] assms(7) by simp
qed

theorem smooth_unlisted_starves_all_witness:
  "snd (calls smooth_getNext main_servers (Some [3, 4]) 1000 (projr (NewSmoothWeightRoundRobin main_weights))) =
     replicate 1000 (Inl (ErrMsg ''unexpected error''))"
proof (rule smooth_unlisted_starves_all [OF main_valid(1) _ main_smooth, of _ "''1''"])
  show "find_server main_servers [3, 4] ''1'' = None"
    by (simp add: find_server_def main_servers_def GetID_def NewBackendServer_def)
  show "\<forall>k \<in> ids main_weights - {''1''}. index (map_of main_weights) k < index (map_of main_weights) ''1''"
    unfolding main_valid by (simp add: main_weights_def index_def)
qed (simp_all add: main_valid)

end
