(* ===== verification/Go_HTTP.thy ===== *)
theory Go_HTTP
  imports Go_Prelude
begin

text \<open>
  The part of Go's \<^verbatim>\<open>net/http\<close> the programs' handlers use: header maps with canonical keys,
  and the \<^verbatim>\<open>ResponseWriter\<close> as a record of what the handler handed to it.
\<close>

section \<open>Headers\<close>

text \<open>
  \<^verbatim>\<open>http.Header\<close> as a handler ranges over it (the keys and their values in the order of the
  iteration), and as the functions \<^verbatim>\<open>Add\<close> and \<^verbatim>\<open>Set\<close> build it. Both put the key in its
  canonical form, unless it has a character that a header name cannot have.
\<close>

type_synonym header = "(string \<times> string list) list"
type_synonym headers = "string \<Rightarrow> string list"

definition upper_char :: "char \<Rightarrow> bool" where
  "upper_char c \<longleftrightarrow> 65 \<le> (of_char c :: nat) \<and> (of_char c :: nat) \<le> 90"

definition lower_char :: "char \<Rightarrow> bool" where
  "lower_char c \<longleftrightarrow> 97 \<le> (of_char c :: nat) \<and> (of_char c :: nat) \<le> 122"

definition token_char :: "char \<Rightarrow> bool" where
  "token_char c \<longleftrightarrow> upper_char c \<or> lower_char c \<or> is_digit c \<or>
     c \<in> set [CHR ''!'', CHR ''#'', CHR ''$'', CHR ''%'', CHR ''&'', CHR 0x27, CHR ''*'', CHR ''+'',
       CHR ''-'', CHR ''.'', CHR ''^'', CHR ''_'', CHR 0x60, CHR ''|'', CHR ''~'']"

fun canonical_from :: "bool \<Rightarrow> string \<Rightarrow> string" where
  "canonical_from up [] = []"
| "canonical_from up (c # cs) =
     (if up \<and> lower_char c then char_of (of_char c - 32 :: nat)
      else if \<not> up \<and> upper_char c then char_of (of_char c + 32 :: nat) else c)
       # canonical_from (c = CHR ''-'') cs"

definition CanonicalHeaderKey :: "string \<Rightarrow> string" where
  "CanonicalHeaderKey k = (if list_all token_char k then canonical_from True k else k)"

definition header_Add :: "string \<Rightarrow> string \<Rightarrow> headers \<Rightarrow> headers" where
  "header_Add k v m = m(CanonicalHeaderKey k := m (CanonicalHeaderKey k) @ [v])"

definition header_Set :: "string \<Rightarrow> string \<Rightarrow> headers \<Rightarrow> headers" where
  "header_Set k v m = m(CanonicalHeaderKey k := [v])"

text \<open>The two loops over a header that copy it.\<close>

definition copy_header :: "header \<Rightarrow> headers \<Rightarrow> headers" where
  "copy_header hs m = fold (\<lambda>(key, vals). fold (header_Add key) vals) hs m"

lemma fold_header_Add:
  "fold (header_Add k) vs m = m(CanonicalHeaderKey k := m (CanonicalHeaderKey k) @ vs)"
  by (induction vs arbitrary: m) (simp_all add: header_Add_def)

text \<open>Copying a header with distinct canonical keys reproduces it.\<close>

lemma copy_header_canonical:
  assumes "distinct (map fst hs)" and "\<forall>(k, vs) \<in> set hs. CanonicalHeaderKey k = k"
  shows "copy_header hs m k = m k @ (case map_of hs k of None \<Rightarrow> [] | Some vs \<Rightarrow> vs)"
  using assms
proof (induction hs arbitrary: m)
  case (Cons x hs)
  obtain j vs where x: "x = (j, vs)" by (cases x)
  have "map_of hs j = None" using Cons.prems(1) x by (simp add: map_of_eq_None_iff)
  with Cons x show ?case by (simp add: copy_header_def fold_header_Add split: option.splits)
qed (simp add: copy_header_def)

section \<open>Query parameters\<close>

text \<open>\<^verbatim>\<open>url.Values\<close>, and \<^verbatim>\<open>Get\<close>: the first value, or the empty string.\<close>

type_synonym url_values = "string \<Rightarrow> string list"

definition url_Get :: "url_values \<Rightarrow> string \<Rightarrow> string" where
  "url_Get q k = (case q k of [] \<Rightarrow> [] | v # vs \<Rightarrow> v)"

section \<open>Writing a response\<close>

text \<open>
  What a handler hands to its \<^verbatim>\<open>http.ResponseWriter\<close>. The header the client gets is the one
  at the moment the status is written; later changes of the map are not sent.
\<close>

record Writer =
  status :: "nat option"
  w_header :: headers
  sent_header :: headers
  w_body :: bytes

definition new_writer :: Writer where
  "new_writer = \<lparr>status = None, w_header = (\<lambda>_. []), sent_header = (\<lambda>_. []), w_body = []\<rparr>"

text \<open>
  \<^verbatim>\<open>WriteHeader\<close>: the first status counts, an informational one is sent on its own, and a
  code outside \<open>[100, 999]\<close> panics. \<^verbatim>\<open>Write\<close> sends status 200 when there is none.
\<close>

definition WriteHeader :: "nat \<Rightarrow> Writer \<Rightarrow> Writer outcome" where
  "WriteHeader code w =
     (if status w \<noteq> None then Return w
      else if code < 100 \<or> 999 < code then Panic
      else if code \<le> 199 \<and> code \<noteq> 101 then Return w
      else Return (w\<lparr>status := Some code, sent_header := w_header w\<rparr>))"

definition Write :: "bytes \<Rightarrow> Writer \<Rightarrow> Writer" where
  "Write b w =
     (if status w = None then w\<lparr>status := Some 200, sent_header := w_header w, w_body := w_body w @ b\<rparr>
      else w\<lparr>w_body := w_body w @ b\<rparr>)"

definition write_all :: "nat \<Rightarrow> bytes \<Rightarrow> Writer \<Rightarrow> Writer outcome" where
  "write_all code b w = map_outcome (Write b) (WriteHeader code w)"

definition text_bytes :: "string \<Rightarrow> bytes" where
  "text_bytes s = map of_char s"

text \<open>\<^verbatim>\<open>http.Error\<close> and \<^verbatim>\<open>http.NotFound\<close>: a plain text answer that ends in a newline.\<close>

definition http_Error :: "string \<Rightarrow> nat \<Rightarrow> Writer \<Rightarrow> Writer outcome" where
  "http_Error msg code w =
     write_all code (text_bytes (msg @ [CHR 0x0A]))
       (w\<lparr>w_header := header_Set ''X-Content-Type-Options'' ''nosniff''
          (header_Set ''Content-Type'' ''text/plain; charset=utf-8'' ((w_header w)(''Content-Length'' := [])))\<rparr>)"

definition NotFound :: "Writer \<Rightarrow> Writer outcome" where
  "NotFound w = http_Error ''404 page not found'' 404 w"

end
