(* ===== verification/Load_Balancer_Server.thy ===== *)
theory Load_Balancer_Server
  imports Load_Balancer_Weighted Go_HTTP "HOL-Library.Multiset"
begin

text \<open>
  The request path of src/load-balancer/main.go: the configuration and its algorithm, the
  handler that asks the algorithm for a server, and the forwarding of a request, with
  the connection counters it moves. Handlers run concurrently, one per request; a step
  relation interleaves them. What the network does (\<^verbatim>\<open>client.Do\<close>) and whether
  \<^verbatim>\<open>http.NewRequest\<close> accepts a method and a URL are parameters.
\<close>

section \<open>Configuration\<close>

text \<open>The implementations of the interface \<^verbatim>\<open>LoadBalancingAlgorithm\<close>, with their state.\<close>

datatype LoadBalancingAlgorithm =
    RoundRobin RoundRobinLoadBalancingAlgorithm
  | LeastConnections
  | ClassicWeighted ClassicWeightedRoundRobin
  | SmoothWeighted SmoothWeightedRoundRobin

record LoadBalancingConfig =
  Servers :: "ptr list"
  Algorithm :: LoadBalancingAlgorithm

record LoadBalancer =
  Config :: LoadBalancingConfig
  HealthCheckFrequencySec :: uint64

definition NewLoadBalancer :: "LoadBalancingConfig \<Rightarrow> uint64 \<Rightarrow> LoadBalancer" where
  "NewLoadBalancer config healthCheckFrequency =
     \<lparr>Config = config, HealthCheckFrequencySec = healthCheckFrequency\<rparr>"

text \<open>The call of \<^verbatim>\<open>getNext\<close> through the interface.\<close>

fun getNext :: "LoadBalancingAlgorithm get_next" where
  "getNext (RoundRobin a) h lb = map_prod RoundRobin id (rr_getNext a h lb)"
| "getNext LeastConnections h lb = map_prod (\<lambda>_. LeastConnections) id (lc_getNext () h lb)"
| "getNext (ClassicWeighted a) h lb = map_prod ClassicWeighted id (classic_getNext a h lb)"
| "getNext (SmoothWeighted a) h lb = map_prod SmoothWeighted id (smooth_getNext a h lb)"

fun algorithm_good :: "LoadBalancingAlgorithm \<Rightarrow> heap \<Rightarrow> ptr list \<Rightarrow> bool" where
  "algorithm_good (RoundRobin a) h ss \<longleftrightarrow> ss \<noteq> []"
| "algorithm_good LeastConnections h ss \<longleftrightarrow> (\<exists>p \<in> set ss. conns h p < MaxInt32)"
| "algorithm_good (ClassicWeighted a) h ss \<longleftrightarrow> classic_good a h ss"
| "algorithm_good (SmoothWeighted a) h ss \<longleftrightarrow> smooth_good a h ss"

interpretation algorithm: balancing_algorithm getNext algorithm_good
proof
  fix a h lb assume "no_servers lb"
  then show "getNext a h lb = (a, empty_error)"
    by (cases a) (simp_all add: rr.empty lc.empty classic.empty smooth.empty)
next
  fix a h ss assume "algorithm_good a h ss"
  then show "\<exists>p \<in> set ss. snd (getNext a h (Some ss)) = Inr (Some p)"
    by (cases a) (simp_all add: rr.answers lc.answers classic.answers smooth.answers)
next
  fix a h ss assume "algorithm_good a h ss"
  then show "algorithm_good (fst (getNext a h (Some ss))) h ss"
    by (cases a) (simp_all add: rr.keeps_good lc.keeps_good classic.keeps_good smooth.keeps_good)
qed

section \<open>Requests and responses\<close>

record Request =
  Method :: string
  Path :: string
  RawQuery :: string
  Header :: header
  Body :: bytes
  RemoteAddr :: string
  Host :: string
  TLS :: bool

record BackendRequest =
  req_method :: string
  req_url :: string
  req_header :: headers
  req_body :: bytes

text \<open>The body is what \<^verbatim>\<open>io.Copy\<close> reads before the end or an error, which is logged only.\<close>

record BackendResponse =
  StatusCode :: nat
  resp_header :: header
  resp_body :: bytes

section \<open>Forwarding\<close>

definition backendURL :: "BackendServerProperties \<Rightarrow> Request \<Rightarrow> string" where
  "backendURL server r =
     GetUrl server @ '':'' @ dec (unat (GetAPIPort server)) @ Path r @
     (if RawQuery r \<noteq> [] then ''?'' @ RawQuery r else [])"

definition backendReq :: "BackendServerProperties \<Rightarrow> Request \<Rightarrow> BackendRequest" where
  "backendReq server r =
     \<lparr>req_method = Method r, req_url = backendURL server r,
      req_header =
        header_Set ''X-Forwarded-Proto'' (if TLS r then ''https'' else ''http'')
          (header_Set ''X-Forwarded-Host'' (Host r)
            (header_Set ''X-Forwarded-For'' (RemoteAddr r) (copy_header (Header r) (\<lambda>_. [])))),
      req_body = Body r\<rparr>"

text \<open>
  The part of \<^verbatim>\<open>forwardRequest\<close> before the call of the backend: a nil server panics, a
  request that cannot be built is answered, otherwise the connection is counted.
\<close>

definition forward_start :: "(string \<Rightarrow> string \<Rightarrow> go_error option) \<Rightarrow> Writer \<Rightarrow> Request \<Rightarrow> ptr option \<Rightarrow>
    heap \<Rightarrow> Writer outcome + heap \<times> BackendRequest" where
  "forward_start NewRequest w r server h =
     (case server of
        None \<Rightarrow> Inl Panic
      | Some p \<Rightarrow>
          (case NewRequest (Method r) (backendURL (h p) r) of
             Some err \<Rightarrow> Inl (write_all 500 (text_bytes ''Failed to create backend request'') w)
           | None \<Rightarrow> Inr (h(p := IncrementConnections (h p)), backendReq (h p) r)))"

text \<open>
  The part after it: an error of the call is answered with 502 and returns before the
  deferred decrement is registered; a response is copied, and the decrement runs also
  when \<^verbatim>\<open>WriteHeader\<close> panics.
\<close>

definition forward_finish :: "Writer \<Rightarrow> ptr \<Rightarrow> BackendResponse result \<Rightarrow> heap \<Rightarrow> heap \<times> Writer outcome" where
  "forward_finish w p resp h =
     (case resp of
        Inl err \<Rightarrow> (h, write_all 502 (text_bytes ''Backend server unavailable'') w)
      | Inr b \<Rightarrow>
          (h(p := DecrementConnections (h p)),
           (let w1 = w\<lparr>w_header := copy_header (resp_header b) (w_header w)\<rparr>
            in map_outcome (\<lambda>w2. if resp_body b = [] then w2 else Write (resp_body b) w2)
                 (WriteHeader (StatusCode b) w1))))"

definition forwardRequest :: "(string \<Rightarrow> string \<Rightarrow> go_error option) \<Rightarrow> (BackendRequest \<Rightarrow> BackendResponse result) \<Rightarrow>
    Writer \<Rightarrow> Request \<Rightarrow> ptr option \<Rightarrow> heap \<Rightarrow> heap \<times> Writer outcome" where
  "forwardRequest NewRequest Do w r server h =
     (case forward_start NewRequest w r server h of
        Inl out \<Rightarrow> (h, out)
      | Inr (h', req) \<Rightarrow> forward_finish w (the server) (Do req) h')"

definition requestHandler :: "(string \<Rightarrow> string \<Rightarrow> go_error option) \<Rightarrow> (BackendRequest \<Rightarrow> BackendResponse result) \<Rightarrow>
    Writer \<Rightarrow> Request \<Rightarrow> LoadBalancer \<Rightarrow> heap \<Rightarrow> LoadBalancer \<times> heap \<times> Writer outcome" where
  "requestHandler NewRequest Do w r lb h =
     (let (a, next) = getNext (Algorithm (Config lb)) h (Some (Servers (Config lb)));
          lb' = lb\<lparr>Config := (Config lb)\<lparr>Algorithm := a\<rparr>\<rparr>
      in case next of
           Inl err \<Rightarrow> (lb', h, write_all 500 (text_bytes ''Error while processing the request'') w)
         | Inr nextServer \<Rightarrow> (lb', forwardRequest NewRequest Do w r nextServer h))"

definition healthCheck :: "Writer \<Rightarrow> Writer outcome" where
  "healthCheck w = write_all 200 (text_bytes ''Hello'') w"

text \<open>The routes of \<^verbatim>\<open>startServer\<close>: the exact path \<^verbatim>\<open>/health\<close>, and every other path.\<close>

definition serve :: "(string \<Rightarrow> string \<Rightarrow> go_error option) \<Rightarrow> (BackendRequest \<Rightarrow> BackendResponse result) \<Rightarrow>
    Writer \<Rightarrow> Request \<Rightarrow> LoadBalancer \<Rightarrow> heap \<Rightarrow> LoadBalancer \<times> heap \<times> Writer outcome" where
  "serve NewRequest Do w r lb h =
     (if Path r = ''/health'' then (lb, h, healthCheck w) else requestHandler NewRequest Do w r lb h)"

definition main_lb :: LoadBalancer where
  "main_lb = NewLoadBalancer
     \<lparr>Servers = [2, 3, 4], Algorithm = SmoothWeighted (projr (NewSmoothWeightRoundRobin main_weights))\<rparr> 10"

section \<open>The handler\<close>

text \<open>
  While the algorithm is in a good state the handler forwards every request to one of
  the configured servers, and the algorithm stays good: the 500 of a failed choice is
  never sent.
\<close>

theorem handler_forwards:
  assumes "algorithm_good (Algorithm (Config lb)) h (Servers (Config lb))"
  shows "\<exists>p \<in> set (Servers (Config lb)). \<exists>a. algorithm_good a h (Servers (Config lb)) \<and>
    requestHandler NewRequest Do w r lb h =
      (lb\<lparr>Config := (Config lb)\<lparr>Algorithm := a\<rparr>\<rparr>, forwardRequest NewRequest Do w r (Some p) h)"
proof -
  obtain p where p: "p \<in> set (Servers (Config lb))"
    "snd (getNext (Algorithm (Config lb)) h (Some (Servers (Config lb)))) = Inr (Some p)"
    using algorithm.answers [OF assms] by blast
  show ?thesis
    using p algorithm.keeps_good [OF assms]
    by (intro bexI [OF _ p(1)] exI [of _ "fst (getNext (Algorithm (Config lb)) h (Some (Servers (Config lb))))"])
      (simp add: requestHandler_def split_beta)
qed

lemma main_good: "algorithm_good (Algorithm (Config main_lb)) main_servers (Servers (Config main_lb))"
  using main_valid(1) smooth_init(1) [OF main_smooth] main_listed
  by (auto simp: main_lb_def NewLoadBalancer_def smooth_good_def)

theorem handler_forwards_witness:
  "\<exists>p \<in> {2, 3, 4}. \<exists>a. algorithm_good a main_servers [2, 3, 4] \<and>
    requestHandler (\<lambda>_ _. None) (\<lambda>_. Inl EIO) new_writer
      \<lparr>Method = ''GET'', Path = ''/'', RawQuery = [], Header = [], Body = [], RemoteAddr = ''a'', Host = ''b'', TLS = False\<rparr>
      main_lb main_servers =
    (main_lb\<lparr>Config := (Config main_lb)\<lparr>Algorithm := a\<rparr>\<rparr>,
     forwardRequest (\<lambda>_ _. None) (\<lambda>_. Inl EIO) new_writer
      \<lparr>Method = ''GET'', Path = ''/'', RawQuery = [], Header = [], Body = [], RemoteAddr = ''a'', Host = ''b'', TLS = False\<rparr>
      (Some p) main_servers)"
proof -
  have "Servers (Config main_lb) = [2, 3, 4]" by (simp add: main_lb_def NewLoadBalancer_def)
  with handler_forwards [OF main_good] show ?thesis by (simp only: list.set insert_iff)
qed

section \<open>Forwarding a request\<close>

lemma forwarded_keys [simp]:
  "CanonicalHeaderKey ''X-Forwarded-For'' = ''X-Forwarded-For''"
  "CanonicalHeaderKey ''X-Forwarded-Host'' = ''X-Forwarded-Host''"
  "CanonicalHeaderKey ''X-Forwarded-Proto'' = ''X-Forwarded-Proto''"
  by code_simp+

text \<open>
  The backend gets the headers of the client's request, each key with its values in
  order, except the three forwarding headers, which hold the client's address, the host
  and the scheme whatever the client sent.
\<close>

theorem backend_request_headers:
  assumes "distinct (map fst (Header r))" and "\<forall>(k, vs) \<in> set (Header r). CanonicalHeaderKey k = k"
  shows "req_header (backendReq server r) k =
    (if k = ''X-Forwarded-For'' then [RemoteAddr r]
     else if k = ''X-Forwarded-Host'' then [Host r]
     else if k = ''X-Forwarded-Proto'' then [if TLS r then ''https'' else ''http'']
     else case map_of (Header r) k of None \<Rightarrow> [] | Some vs \<Rightarrow> vs)"
  by (simp add: backendReq_def header_Set_def copy_header_canonical [OF assms])

theorem backend_request_headers_witness:
  "req_header (backendReq (NewBackendServer ''1'' ''http://localhost'' 9001 9001)
     \<lparr>Method = ''GET'', Path = ''/'', RawQuery = [], Header = [(''Accept'', [''a'', ''b'']), (''X-Forwarded-For'', [''spoof''])],
      Body = [], RemoteAddr = ''peer'', Host = ''h'', TLS = True\<rparr>) ''X-Forwarded-For'' = [''peer'']"
proof -
  have "CanonicalHeaderKey ''Accept'' = ''Accept''" by code_simp
  then show ?thesis by (subst backend_request_headers) simp_all
qed

text \<open>
  A call that the backend answers is transparent: the client gets the backend's
  status, headers and body, and the connection counters are as before.
\<close>

theorem forward_transparent:
  assumes "NewRequest (Method r) (backendURL (h p) r) = None" and "Do (backendReq (h p) r) = Inr b"
    and "200 \<le> StatusCode b" and "StatusCode b \<le> 999"
  shows "forwardRequest NewRequest Do new_writer r (Some p) h =
    (h, Return \<lparr>status = Some (StatusCode b), w_header = copy_header (resp_header b) (\<lambda>_. []),
                sent_header = copy_header (resp_header b) (\<lambda>_. []), w_body = resp_body b\<rparr>)"
  using assms
  by (simp add: forwardRequest_def forward_start_def forward_finish_def WriteHeader_def new_writer_def Write_def)

lemma dec_9001: "dec 9001 = ''9001''"
  by (simp add: dec.simps digit_char_def) code_simp

theorem forward_transparent_witness:
  "forwardRequest (\<lambda>m u. if m = ''GET'' then None else Some EIO)
     (\<lambda>q. if req_url q = ''http://localhost:9001/x?y=1''
          then Inr \<lparr>StatusCode = 404, resp_header = [(''A'', [''b''])], resp_body = [7]\<rparr> else Inl EIO)
     new_writer \<lparr>Method = ''GET'', Path = ''/x'', RawQuery = ''y=1'', Header = [], Body = [], RemoteAddr = [], Host = [], TLS = False\<rparr>
     (Some 2) main_servers =
   (main_servers, Return \<lparr>status = Some 404, w_header = copy_header [(''A'', [''b''])] (\<lambda>_. []),
      sent_header = copy_header [(''A'', [''b''])] (\<lambda>_. []), w_body = [7]\<rparr>)"
  (is "forwardRequest ?N ?D new_writer ?r _ _ = _")
proof -
  have u: "backendURL (main_servers 2) ?r = ''http://localhost:9001/x?y=1''"
    by (simp add: backendURL_def main_servers_def NewBackendServer_def GetUrl_def GetAPIPort_def dec_9001)
  show ?thesis
    using forward_transparent [of ?N ?r main_servers 2 ?D "\<lparr>StatusCode = 404, resp_header = [(''A'', [''b''])], resp_body = [7]\<rparr>"]
    by (simp add: u backendReq_def)
qed

section \<open>Concurrent requests\<close>

text \<open>
  A request passes three points where others may run: after the algorithm chose a server,
  during the call of the backend, and at its end. The state lists the requests at the
  first two; \<open>failed_calls\<close> counts the calls the network failed and is read by no step.
\<close>

record lb_state =
  balancer :: LoadBalancer
  backends :: heap
  chosen :: "ptr multiset"
  in_flight :: "ptr multiset"
  failed_calls :: "ptr \<Rightarrow> nat"

datatype lb_event = Choose "ptr option result" | Start ptr | Refuse ptr | Answered ptr | Failed ptr

inductive lb_step :: "(string \<Rightarrow> string \<Rightarrow> go_error option) \<Rightarrow> lb_state \<Rightarrow> lb_event \<Rightarrow> lb_state \<Rightarrow> bool"
  for NewRequest where
  choose: "getNext (Algorithm (Config (balancer s))) (backends s) (Some (Servers (Config (balancer s)))) = (a, res) \<Longrightarrow>
    lb_step NewRequest s (Choose res)
      (s\<lparr>balancer := (balancer s)\<lparr>Config := (Config (balancer s))\<lparr>Algorithm := a\<rparr>\<rparr>,
         chosen := (case res of Inr (Some p) \<Rightarrow> add_mset p (chosen s) | _ \<Rightarrow> chosen s)\<rparr>)"
| start: "p \<in># chosen s \<Longrightarrow> forward_start NewRequest w r (Some p) (backends s) = Inr (h, req) \<Longrightarrow>
    lb_step NewRequest s (Start p)
      (s\<lparr>backends := h, chosen := chosen s - {#p#}, in_flight := add_mset p (in_flight s)\<rparr>)"
| refuse: "p \<in># chosen s \<Longrightarrow> forward_start NewRequest w r (Some p) (backends s) = Inl out \<Longrightarrow>
    lb_step NewRequest s (Refuse p) (s\<lparr>chosen := chosen s - {#p#}\<rparr>)"
| answered: "p \<in># in_flight s \<Longrightarrow> forward_finish w p (Inr b) (backends s) = (h, out) \<Longrightarrow>
    lb_step NewRequest s (Answered p) (s\<lparr>backends := h, in_flight := in_flight s - {#p#}\<rparr>)"
| failed: "p \<in># in_flight s \<Longrightarrow> forward_finish w p (Inl e) (backends s) = (h, out) \<Longrightarrow>
    lb_step NewRequest s (Failed p)
      (s\<lparr>backends := h, in_flight := in_flight s - {#p#},
         failed_calls := (failed_calls s)(p := failed_calls s p + 1)\<rparr>)"

definition lb_init :: "lb_state \<Rightarrow> bool" where
  "lb_init s \<longleftrightarrow> (\<forall>p. activeConnectionsCount (backends s p) = 0) \<and> in_flight s = {#} \<and>
     (\<forall>p. failed_calls s p = 0)"

definition lb_inv :: "lb_state \<Rightarrow> bool" where
  "lb_inv s \<longleftrightarrow> (\<forall>p. activeConnectionsCount (backends s p) =
     of_nat (count (in_flight s) p + failed_calls s p))"

lemma forward_start_Inr:
  "forward_start NewRequest w r (Some p) h = Inr (h', req) \<Longrightarrow>
    h' = h(p := IncrementConnections (h p)) \<and> req = backendReq (h p) r"
  by (auto simp: forward_start_def split: option.splits)

lemma forward_finish_simps [simp]:
  "fst (forward_finish w p (Inl e) h) = h"
  "fst (forward_finish w p (Inr b) h) = h(p := DecrementConnections (h p))"
  by (simp_all add: forward_finish_def)

lemma lb_inv_step: "lb_step NewRequest s l t \<Longrightarrow> lb_inv s \<Longrightarrow> lb_inv t"
proof (induction rule: lb_step.induct)
  case (start p s w r h req)
  then show ?case
    by (auto simp: lb_inv_def IncrementConnections_def dest!: forward_start_Inr)
next
  case (answered p s w b h out)
  have h: "h = (backends s)(p := DecrementConnections (backends s p))"
    using forward_finish_simps(2) [of w p b "backends s"] answered.hyps(2) by simp
  obtain n where n: "count (in_flight s) p = Suc n"
    using answered.hyps(1) by (metis count_eq_zero_iff not0_implies_Suc)
  with answered.prems show ?case
    by (auto simp: lb_inv_def h DecrementConnections_def)
next
  case (failed p s w e h out)
  have h: "h = backends s"
    using forward_finish_simps(1) [of w p e "backends s"] failed.hyps(2) by simp
  obtain n where n: "count (in_flight s) p = Suc n"
    using failed.hyps(1) by (metis count_eq_zero_iff not0_implies_Suc)
  with failed.prems show ?case by (simp add: lb_inv_def h)
qed (simp_all add: lb_inv_def)

interpretation lb_sys: inv_system lb_init "lb_step NewRequest" lb_inv for NewRequest
proof
  show "lb_init s \<Longrightarrow> lb_inv s" for s by (simp add: lb_init_def lb_inv_def)
qed (rule lb_inv_step)

text \<open>
  C32. However requests interleave, the counter of a server is the number of calls to it
  in flight plus the number of its calls that failed in the network: a failed call is
  counted in and never out.
\<close>

theorem connections_count_failures:
  assumes "lb_init s" and "run (lb_step NewRequest) s ls t"
  shows "activeConnectionsCount (backends t p) = of_nat (count (in_flight t) p + failed_calls t p)"
  using lb_sys.inv_reachable [OF assms] by (simp add: lb_inv_def)

definition rr_lb :: LoadBalancer where
  "rr_lb = NewLoadBalancer \<lparr>Servers = [2, 3, 4], Algorithm = RoundRobin \<lparr>counter = 0\<rparr>\<rparr> 10"

definition rr_start :: lb_state where
  "rr_start = \<lparr>balancer = rr_lb, backends = main_servers, chosen = {#}, in_flight = {#}, failed_calls = (\<lambda>_. 0)\<rparr>"

definition no_request :: Request where
  "no_request = \<lparr>Method = ''GET'', Path = ''/'', RawQuery = [], Header = [], Body = [], RemoteAddr = [], Host = [], TLS = False\<rparr>"

lemma rr_failed_run:
  "\<exists>t. run (lb_step (\<lambda>_ _. None)) rr_start [Choose (Inr (Some 2)), Start 2, Failed 2] t \<and>
    in_flight t = {#} \<and> failed_calls t 2 = 1"
proof -
  let ?s1 = "rr_start\<lparr>balancer := rr_lb\<lparr>Config := (Config rr_lb)\<lparr>Algorithm := RoundRobin \<lparr>counter = 1\<rparr>\<rparr>\<rparr>, chosen := {#2#}\<rparr>"
  let ?h = "main_servers(2 := IncrementConnections (main_servers 2))"
  let ?s2 = "?s1\<lparr>backends := ?h, chosen := {#}, in_flight := {#2#}\<rparr>"
  let ?s3 = "?s2\<lparr>in_flight := {#}, failed_calls := (\<lambda>_. 0)(2 := 1)\<rparr>"
  have 1: "lb_step (\<lambda>_ _. None) rr_start (Choose (Inr (Some 2))) ?s1"
    using lb_step.choose [of rr_start "RoundRobin \<lparr>counter = 1\<rparr>" "Inr (Some 2)" "\<lambda>_ _. None"]
    by (simp add: rr_start_def rr_lb_def NewLoadBalancer_def rr_getNext_def)
  have 2: "lb_step (\<lambda>_ _. None) ?s1 (Start 2) ?s2"
    using lb_step.start [of 2 ?s1 "\<lambda>_ _. None" new_writer no_request ?h "backendReq (main_servers 2) no_request"]
    by (simp add: rr_start_def forward_start_def)
  have 3: "lb_step (\<lambda>_ _. None) ?s2 (Failed 2) ?s3"
    using lb_step.failed [of 2 ?s2 new_writer EIO ?h "write_all 502 (text_bytes ''Backend server unavailable'') new_writer" "\<lambda>_ _. None"]
    by (simp add: rr_start_def forward_finish_def)
  from 1 2 3 have "run (lb_step (\<lambda>_ _. None)) rr_start [Choose (Inr (Some 2)), Start 2, Failed 2] ?s3"
    by (blast intro: run_Cons run_Nil)
  then show ?thesis by (intro exI [of _ ?s3]) simp
qed

lemma rr_start_init: "lb_init rr_start"
  by (simp add: lb_init_def rr_start_def main_servers_def NewBackendServer_def)

theorem connections_count_failures_witness:
  "\<exists>t. run (lb_step (\<lambda>_ _. None)) rr_start [Choose (Inr (Some 2)), Start 2, Failed 2] t \<and>
    in_flight t = {#} \<and> activeConnectionsCount (backends t 2) = 1"
proof -
  obtain t where t: "run (lb_step (\<lambda>_ _. None)) rr_start [Choose (Inr (Some 2)), Start 2, Failed 2] t"
    "in_flight t = {#}" "failed_calls t 2 = 1"
    using rr_failed_run by blast
  with connections_count_failures [OF rr_start_init t(1), of 2] show ?thesis by auto
qed

section \<open>A failed call and least connections\<close>

text \<open>Requests handled one after the other, and their answers.\<close>

fun handle_all :: "(string \<Rightarrow> string \<Rightarrow> go_error option) \<Rightarrow> (BackendRequest \<Rightarrow> BackendResponse result) \<Rightarrow>
    Request list \<Rightarrow> LoadBalancer \<Rightarrow> heap \<Rightarrow> LoadBalancer \<times> heap \<times> Writer outcome list" where
  "handle_all NewRequest Do [] lb h = (lb, h, [])"
| "handle_all NewRequest Do (r # rs) lb h =
     (let (lb1, h1, out) = requestHandler NewRequest Do new_writer r lb h;
          (lb2, h2, outs) = handle_all NewRequest Do rs lb1 h1
      in (lb2, h2, out # outs))"

lemma forward_keeps_heap:
  assumes "\<forall>q. \<exists>b. Do q = Inr b"
  shows "fst (forwardRequest NewRequest Do w r (Some p) h) = h"
proof -
  obtain b where "Do (backendReq (h p) r) = Inr b" using assms by blast
  then show ?thesis
    by (cases "NewRequest (Method r) (backendURL (h p) r)")
      (simp_all add: forwardRequest_def forward_start_def)
qed

lemma lc_getNext_head:
  assumes "conns h q < conns h p" and "conns h q < MaxInt32"
  shows "lc_getNext () h (Some [p, q]) = ((), Inr (Some q))"
  using assms by (simp add: lc_getNext_def Let_def GetActiveConnections_def)

text \<open>
  With least connections, a server whose counter a failed call left above the other's
  gets no request any more while requests come one at a time, though it has none in
  flight: every request goes to the other server, also when every call succeeds.
\<close>

theorem leaked_connection_starves:
  assumes "Algorithm (Config lb) = LeastConnections" and "Servers (Config lb) = [p, q]"
    and "conns h q < conns h p" and "\<forall>x. \<exists>b. Do x = Inr b"
  shows "handle_all NewRequest Do rs lb h =
    (lb, h, map (\<lambda>r. snd (forwardRequest NewRequest Do new_writer r (Some q) h)) rs)"
proof (induction rs)
  case (Cons r rs)
  have "conns h p \<le> MaxInt32"
    using sint_lt [of "activeConnectionsCount (h p)"] by (simp add: MaxInt32_def)
  with assms(3) have "lc_getNext () h (Some [p, q]) = ((), Inr (Some q))"
    by (intro lc_getNext_head) simp_all
  then have "requestHandler NewRequest Do new_writer r lb h =
      (lb, forwardRequest NewRequest Do new_writer r (Some q) h)"
    using assms(1,2) by (simp add: requestHandler_def)
  then show ?case
    using Cons.IH forward_keeps_heap [OF assms(4)] by (simp add: split_beta)
qed simp

theorem leaked_connection_starves_witness:
  "handle_all (\<lambda>_ _. None) (\<lambda>_. Inr \<lparr>StatusCode = 200, resp_header = [], resp_body = []\<rparr>) [no_request, no_request]
     (NewLoadBalancer \<lparr>Servers = [2, 3], Algorithm = LeastConnections\<rparr> 10)
     (main_servers(2 := IncrementConnections (main_servers 2))) =
   (NewLoadBalancer \<lparr>Servers = [2, 3], Algorithm = LeastConnections\<rparr> 10,
    main_servers(2 := IncrementConnections (main_servers 2)),
    map (\<lambda>r. snd (forwardRequest (\<lambda>_ _. None) (\<lambda>_. Inr \<lparr>StatusCode = 200, resp_header = [], resp_body = []\<rparr>)
      new_writer r (Some 3) (main_servers(2 := IncrementConnections (main_servers 2))))) [no_request, no_request])"
  by (rule leaked_connection_starves)
    (auto simp add: NewLoadBalancer_def IncrementConnections_def main_servers_def NewBackendServer_def)

text \<open>
  A handler whose algorithm answers a nil server, as least connections does when all
  counters are saturated, panics before it writes anything.
\<close>

theorem nil_server_panics:
  assumes "Algorithm (Config lb) = LeastConnections" and "Servers (Config lb) \<noteq> []"
    and "\<forall>p \<in> set (Servers (Config lb)). conns h p = MaxInt32"
  shows "requestHandler NewRequest Do w r lb h = (lb, h, Panic)"
  using assms
  by (simp add: requestHandler_def lc_all_saturated forwardRequest_def forward_start_def)

theorem nil_server_panics_witness:
  "requestHandler (\<lambda>_ _. None) (\<lambda>_. Inl EIO) new_writer no_request
     (NewLoadBalancer \<lparr>Servers = [2], Algorithm = LeastConnections\<rparr> 10)
     (\<lambda>p. (main_servers p)\<lparr>activeConnectionsCount := 0x7FFFFFFF\<rparr>) =
   (NewLoadBalancer \<lparr>Servers = [2], Algorithm = LeastConnections\<rparr> 10,
    (\<lambda>p. (main_servers p)\<lparr>activeConnectionsCount := 0x7FFFFFFF\<rparr>), Panic)"
  by (rule nil_server_panics) (simp_all add: NewLoadBalancer_def MaxInt32_def)

end
