(* ===== verification/Disk_Id_Generator.thy ===== *)
theory Disk_Id_Generator
  imports Go_OS Go_HTTP
begin

text \<open>
  The generator of src/id-generators/disk-based/main.go: a counter in memory that is
  written to a file on every request, or on every fiftieth, and read back at the start.
  A server may stop at any moment and be started again on the same file; the
  identifiers issued over all its lives are what the theorems are about.
\<close>

section \<open>Whole files\<close>

text \<open>\<^verbatim>\<open>os.ReadFile\<close>, and \<^verbatim>\<open>os.WriteFile\<close>, which truncates the file before it writes.\<close>

definition ReadFile :: "string \<Rightarrow> os \<Rightarrow> bytes result \<times> os" where
  "ReadFile p w = (case OpenRead p w of
       (Inl e, w1) \<Rightarrow> (Inl e, w1)
     | (Inr f, w1) \<Rightarrow> (case next_fault w1 of
           (Some _, w2) \<Rightarrow> (Inl EIO, w2)
         | (None, w2) \<Rightarrow> (Inr (content w2 p), w2)))"

definition WriteFile :: "string \<Rightarrow> bytes \<Rightarrow> os \<Rightarrow> go_error option \<times> os" where
  "WriteFile p d w = (case OpenTrunc p w of
       (Inl e, w1) \<Rightarrow> (Some e, w1)
     | (Inr f, w1) \<Rightarrow> (case WriteAt f d 0 w1 of
           ((_, err), w2) \<Rightarrow> (case Close f w2 of
               (err1, w3) \<Rightarrow> (if err = None then err1 else err, w3))))"

text \<open>The digits of a number as the bytes of a file and back.\<close>

definition file_bytes :: "string \<Rightarrow> bytes" where
  "file_bytes s = map of_char s"

definition file_string :: "bytes \<Rightarrow> string" where
  "file_string b = map (\<lambda>x. char_of (unat x)) b"

lemma file_string_bytes [simp]: "file_string (file_bytes s) = s"
proof -
  have "unat (of_char c :: byte) = of_char c" for c
  proof -
    have "unat (of_char c :: byte) = unat (of_nat (of_char c) :: byte)" by (simp only: of_nat_of_char)
    also have "\<dots> = of_char c" by (simp only: unat_of_nat) simp
    finally show ?thesis .
  qed
  then show ?thesis by (simp add: file_string_def file_bytes_def comp_def)
qed

section \<open>The program\<close>

definition counterFilePath :: string where
  "counterFilePath = ''counter_value.txt''"

definition iterations :: int where
  "iterations = 50"

definition persistCounter :: "string \<Rightarrow> int \<Rightarrow> os \<Rightarrow> go_error option \<times> os" where
  "persistCounter filePath v w = WriteFile filePath (file_bytes (FormatInt v)) w"

text \<open>The counter after \<^verbatim>\<open>loadCounter\<close>; errors of creating the file are ignored.\<close>

definition loadCounter :: "os \<Rightarrow> int process \<times> os" where
  "loadCounter w = (case ReadFile counterFilePath w of
       (Inl err, w1) \<Rightarrow>
         (if err = ErrNotExist then
            (let (_, w2) = OpenTrunc counterFilePath w1;
                 (_, w3) = persistCounter counterFilePath iterations w2
             in (Continue iterations, w3))
          else (Fatal, w1))
     | (Inr d, w1) \<Rightarrow> (case ParseInt (file_string d) of
           Inl err \<Rightarrow> (Fatal, w1)
         | Inr v \<Rightarrow> (Continue (wrap64 (v + iterations)), w1)))"

text \<open>Both generators return the new counter, which is the identifier.\<close>

definition generateIDWithDiskPersistence :: "int \<Rightarrow> os \<Rightarrow> int process \<times> os" where
  "generateIDWithDiskPersistence counter w =
     (let v = wrap64 (counter + 1)
      in case persistCounter counterFilePath v w of
           (Some err, w1) \<Rightarrow> (Fatal, w1)
         | (None, w1) \<Rightarrow> (Continue v, w1))"

definition generateIDWithPeriodicDiskPersistence :: "int \<Rightarrow> int \<Rightarrow> os \<Rightarrow> int process \<times> os" where
  "generateIDWithPeriodicDiskPersistence iters counter w =
     (let v = wrap64 (counter + 1)
      in if v mod iters = 0 then
           (case persistCounter counterFilePath v w of
              (Some err, w1) \<Rightarrow> (Fatal, w1)
            | (None, w1) \<Rightarrow> (Continue v, w1))
         else (Continue v, w))"

text \<open>The routes of \<^verbatim>\<open>main\<close> and their handlers.\<close>

definition id_answer :: "int \<Rightarrow> Writer \<Rightarrow> Writer" where
  "id_answer v w = Write (text_bytes (''Generated ID: '' @ FormatInt v @ [CHR 0x0A])) w"

definition handler :: "string \<Rightarrow> Writer \<Rightarrow> int \<Rightarrow> os \<Rightarrow> (int \<times> Writer outcome) process \<times> os" where
  "handler path rw counter w =
     (if path \<noteq> ''/'' then (Continue (counter, NotFound rw), w)
      else (case generateIDWithDiskPersistence counter w of
              (Fatal, w1) \<Rightarrow> (Fatal, w1)
            | (Continue newID, w1) \<Rightarrow> (Continue (newID, Return (id_answer newID rw)), w1)))"

definition periodicHandler :: "Writer \<Rightarrow> int \<Rightarrow> os \<Rightarrow> (int \<times> Writer outcome) process \<times> os" where
  "periodicHandler rw counter w =
     (case generateIDWithPeriodicDiskPersistence iterations counter w of
        (Fatal, w1) \<Rightarrow> (Fatal, w1)
      | (Continue newID, w1) \<Rightarrow> (Continue (newID, Return (id_answer newID rw)), w1))"

definition faviconHandler :: "Writer \<Rightarrow> Writer outcome" where
  "faviconHandler rw = NotFound rw"

definition serve_id :: "string \<Rightarrow> Writer \<Rightarrow> int \<Rightarrow> os \<Rightarrow> (int \<times> Writer outcome) process \<times> os" where
  "serve_id path rw counter w =
     (if path = ''/periodic'' then periodicHandler rw counter w
      else if path = ''/favicon.ico'' then (Continue (counter, faviconHandler rw), w)
      else handler path rw counter w)"

section \<open>Lives of the server\<close>

text \<open>
  The counter is \<open>None\<close> while no process runs. A process ends when it calls \<open>Fatal\<close> or when
  it is stopped, and a new one loads the counter; the lock makes each request one step.
\<close>

record id_state =
  memory :: "int option"
  disk :: os

datatype id_event = Load | Issue int | Periodic int | Die

inductive id_step :: "id_state \<Rightarrow> id_event \<Rightarrow> id_state \<Rightarrow> bool" where
  load: "memory s = None \<Longrightarrow> loadCounter (disk s) = (Continue c, w) \<Longrightarrow>
    id_step s Load \<lparr>memory = Some c, disk = w\<rparr>"
| load_fatal: "memory s = None \<Longrightarrow> loadCounter (disk s) = (Fatal, w) \<Longrightarrow>
    id_step s Die \<lparr>memory = None, disk = w\<rparr>"
| issue: "memory s = Some c \<Longrightarrow> generateIDWithDiskPersistence c (disk s) = (Continue v, w) \<Longrightarrow>
    id_step s (Issue v) \<lparr>memory = Some v, disk = w\<rparr>"
| issue_fatal: "memory s = Some c \<Longrightarrow> generateIDWithDiskPersistence c (disk s) = (Fatal, w) \<Longrightarrow>
    id_step s Die \<lparr>memory = None, disk = w\<rparr>"
| periodic: "memory s = Some c \<Longrightarrow> generateIDWithPeriodicDiskPersistence iterations c (disk s) = (Continue v, w) \<Longrightarrow>
    id_step s (Periodic v) \<lparr>memory = Some v, disk = w\<rparr>"
| periodic_fatal: "memory s = Some c \<Longrightarrow> generateIDWithPeriodicDiskPersistence iterations c (disk s) = (Fatal, w) \<Longrightarrow>
    id_step s Die \<lparr>memory = None, disk = w\<rparr>"
| stop: "id_step s Die (s\<lparr>memory := None\<rparr>)"

fun issued :: "id_event list \<Rightarrow> int list" where
  "issued [] = []"
| "issued (Issue v # ls) = v # issued ls"
| "issued (Periodic v # ls) = v # issued ls"
| "issued (l # ls) = issued ls"

section \<open>Files that are never torn\<close>

text \<open>
  A script of faults in which a failed write leaves no byte: a call fails cleanly or
  succeeds. The counter file is then always empty or whole.
\<close>

definition clean :: "os \<Rightarrow> bool" where
  "clean w \<longleftrightarrow> list_all (\<lambda>f. f = None \<or> f = Some 0) (faults w)"

lemma next_fault_clean:
  "clean w \<Longrightarrow> next_fault w = (f, w') \<Longrightarrow> clean w' \<and> (f = None \<or> f = Some 0) \<and> fs w' = fs w"
  by (cases "faults w") (auto simp: clean_def next_fault_def)

lemma OpenTrunc_clean:
  assumes "clean w" and "OpenTrunc p w = (r, w')"
  shows "clean w' \<and> (case r of Inl _ \<Rightarrow> fs w' = fs w | Inr f \<Rightarrow> f = Some p \<and> fs w' = (fs w)(p \<mapsto> []))"
proof -
  obtain f w1 where n: "next_fault w = (f, w1)" by fastforce
  from next_fault_clean [OF assms(1) n] n assms(2) show ?thesis
    by (cases f) (auto simp: OpenTrunc_def clean_def)
qed

lemma WriteAt_clean:
  assumes "clean w" and "fs w p = Some []" and "WriteAt (Some p) d 0 w = ((n, e), w')"
  shows "clean w' \<and> (if e = None then fs w' p = Some d else fs w' p = Some [])"
proof -
  obtain f w1 where n: "next_fault w = (f, w1)" by fastforce
  have "content w1 p = []" using next_fault_clean [OF assms(1) n] assms(2) by (simp add: content_def)
  with next_fault_clean [OF assms(1) n] n assms(3) show ?thesis
    by (cases f) (auto simp: WriteAt_def clean_def write_at_def)
qed

lemma Close_clean:
  assumes "clean w" and "Close (Some p) w = (e, w')"
  shows "clean w' \<and> fs w' = fs w"
proof -
  obtain f w1 where n: "next_fault w = (f, w1)" by fastforce
  from next_fault_clean [OF assms(1) n] n assms(2) show ?thesis
    by (cases f) (auto simp: Close_def Sync_def)
qed

lemma WriteFile_clean:
  assumes "clean w" and "WriteFile p d w = (e, w')"
  shows "clean w' \<and> (e = None \<longrightarrow> fs w' p = Some d) \<and> (fs w' p = fs w p \<or> fs w' p = Some [] \<or> fs w' p = Some d)"
proof -
  obtain r w1 where o: "OpenTrunc p w = (r, w1)" by fastforce
  note 1 = OpenTrunc_clean [OF assms(1) o]
  show ?thesis
  proof (cases r)
    case (Inl x)
    with 1 o assms(2) show ?thesis by (auto simp: WriteFile_def)
  next
    case (Inr f)
    with 1 have f: "f = Some p" "clean w1" "fs w1 p = Some []" by auto
    obtain n e1 w2 where wr: "WriteAt (Some p) d 0 w1 = ((n, e1), w2)" 
      by (cases "WriteAt (Some p) d 0 w1", cases "fst (WriteAt (Some p) d 0 w1)") auto
    note 2 = WriteAt_clean [OF f(2,3) wr]
    obtain e2 w3 where cl: "Close (Some p) w2 = (e2, w3)" by fastforce
    have 3: "clean w3 \<and> fs w3 = fs w2" using Close_clean 2 cl by blast
    have "e = (if e1 = None then e2 else e1)" "w' = w3"
      using assms(2) by (simp_all add: WriteFile_def o Inr f(1) wr cl)
    with 2 3 show ?thesis by (auto split: if_splits)
  qed
qed

lemma ReadFile_clean:
  assumes "clean w" and "ReadFile p w = (r, w')"
  shows "clean w' \<and> fs w' = fs w \<and> (r = Inl ErrNotExist \<longrightarrow> fs w p = None) \<and> (\<forall>d. r = Inr d \<longrightarrow> fs w p = Some d)"
proof -
  obtain f w1 where n: "next_fault w = (f, w1)" by fastforce
  note 1 = next_fault_clean [OF assms(1) n]
  obtain g w2 where m: "next_fault w1 = (g, w2)" by fastforce
  note 2 = next_fault_clean [OF conjunct1 [OF 1] m]
  show ?thesis
    using 1 2 n m assms(2)
    by (cases f; cases g; cases "fs w p") (auto simp: ReadFile_def OpenRead_def content_def)
qed

section \<open>Identifiers that are written before they are issued\<close>

text \<open>
  The invariant of a server that persists every identifier, with the largest identifier
  \<open>L\<close> issued so far and a bound \<open>B\<close> on all numbers: the counter in memory and the number
  in the file are at least \<open>L\<close>, or the file is empty and no process can start.
\<close>

definition file_ok :: "int \<Rightarrow> int \<Rightarrow> bytes option \<Rightarrow> bool" where
  "file_ok B L f \<longleftrightarrow> (case f of
       None \<Rightarrow> L = 0
     | Some b \<Rightarrow> b = [] \<or> (\<exists>d. b = file_bytes (FormatInt d) \<and> L \<le> d \<and> d \<le> B))"

definition id_inv :: "int \<Rightarrow> int \<Rightarrow> id_state \<Rightarrow> bool" where
  "id_inv B L s \<longleftrightarrow> clean (disk s) \<and> 0 \<le> L \<and> 0 \<le> B \<and>
     (\<forall>c. memory s = Some c \<longrightarrow> L \<le> c \<and> c \<le> B) \<and> file_ok B L (fs (disk s) counterFilePath)"

lemma file_ok_simps [simp]: "file_ok B L None \<longleftrightarrow> L = 0" "file_ok B L (Some [])"
  by (simp_all add: file_ok_def)

lemma file_ok_number [intro]: "L \<le> d \<Longrightarrow> d \<le> B \<Longrightarrow> file_ok B L (Some (file_bytes (FormatInt d)))"
  by (auto simp: file_ok_def)

lemma file_ok_cases:
  assumes "file_ok B L (Some b)" and "b \<noteq> []"
  obtains d where "b = file_bytes (FormatInt d)" and "L \<le> d" and "d \<le> B"
  using assms by (auto simp: file_ok_def)

lemma file_ok_mono:
  assumes "file_ok B L f" and "B \<le> B'"
  shows "file_ok B' L f"
proof (cases f)
  case (Some b)
  show ?thesis
  proof (cases "b = []")
    case False
    from assms(1) have "file_ok B L (Some b)" by (simp add: Some)
    from this False obtain d where "b = file_bytes (FormatInt d)" "L \<le> d" "d \<le> B" by (rule file_ok_cases)
    with assms(2) show ?thesis by (auto simp: Some)
  qed (simp add: Some)
qed (use assms in simp)

lemma ParseInt_Nil: "ParseInt [] = Inl (ErrMsg ''invalid syntax'')"
  by (simp add: ParseInt_def)

lemma loadCounter_inv:
  assumes inv: "id_inv B L s" and B: "B + 50 < 2 ^ 63" and l: "loadCounter (disk s) = (r, w)"
  shows "id_inv (B + 50) L \<lparr>memory = (case r of Continue c \<Rightarrow> Some c | Fatal \<Rightarrow> None), disk = w\<rparr>"
proof -
  let ?p = counterFilePath
  obtain x w1 where rd: "ReadFile ?p (disk s) = (x, w1)" by fastforce
  have cl: "clean (disk s)" and LB: "0 \<le> L" "0 \<le> B" using inv by (simp_all add: id_inv_def)
  note r1 = ReadFile_clean [OF cl rd]
  have keep: "id_inv (B + 50) L \<lparr>memory = None, disk = w1\<rparr>"
    using inv r1 by (auto simp: id_inv_def intro: file_ok_mono)
  consider (absent) "x = Inl ErrNotExist" | (err) e where "x = Inl e" "e \<noteq> ErrNotExist"
    | (data) d where "x = Inr d"
    by (cases x) auto
  then show ?thesis
  proof cases
    case absent
    with r1 inv have L: "L = 0" by (simp add: id_inv_def)
    obtain y w2 where op: "OpenTrunc ?p w1 = (y, w2)" by fastforce
    have "clean w2" "fs w2 ?p = None \<or> fs w2 ?p = Some []"
      using OpenTrunc_clean [OF _ op] r1 absent by (auto split: sum.splits)
    moreover obtain e w3 where pc: "persistCounter ?p iterations w2 = (e, w3)" by fastforce
    ultimately have w3: "clean w3" "fs w3 ?p = None \<or> fs w3 ?p = Some [] \<or> fs w3 ?p = Some (file_bytes (FormatInt 50))"
      using WriteFile_clean [of w2 ?p "file_bytes (FormatInt iterations)" e w3]
      by (auto simp: persistCounter_def iterations_def)
    have "r = Continue 50" "w = w3"
      using l pc by (simp_all add: loadCounter_def rd absent op iterations_def)
    with w3 L LB file_ok_number [of 0 50 "B + 50"] show ?thesis by (auto simp: id_inv_def)
  next
    case (err e)
    with l have "r = Fatal" "w = w1" by (simp_all add: loadCounter_def rd)
    with keep show ?thesis by simp
  next
    case (data d)
    show ?thesis
    proof (cases "d = []")
      case True
      with l data have "r = Fatal" "w = w1"
        by (simp_all add: loadCounter_def rd file_string_def ParseInt_Nil)
      with keep show ?thesis by simp
    next
      case False
      have "file_ok B L (Some d)" using data r1 inv by (simp add: id_inv_def)
      from this False obtain v where v: "d = file_bytes (FormatInt v)" "L \<le> v" "v \<le> B"
        by (rule file_ok_cases)
      then have "ParseInt (file_string d) = Inr v"
        using LB B by (simp add: ParseInt_FormatInt)
      moreover have "wrap64 (v + 50) = v + 50" using v LB B by (intro wrap64_id) auto
      ultimately have "r = Continue (v + 50)" "w = w1"
        using l data by (simp_all add: loadCounter_def rd iterations_def)
      with keep v show ?thesis by (auto simp: id_inv_def)
    qed
  qed
qed

lemma generateID_inv:
  assumes inv: "id_inv B L s" and B: "B + 50 < 2 ^ 63" and c: "memory s = Some c"
    and g: "generateIDWithDiskPersistence c (disk s) = (r, w)"
  shows "case r of Continue v \<Rightarrow> L < v \<and> id_inv (B + 50) v \<lparr>memory = Some v, disk = w\<rparr>
    | Fatal \<Rightarrow> id_inv (B + 50) L \<lparr>memory = None, disk = w\<rparr>"
proof -
  let ?p = counterFilePath
  have cl: "clean (disk s)" and LB: "0 \<le> L" "L \<le> c" "c \<le> B" using inv c by (simp_all add: id_inv_def)
  have v: "wrap64 (c + 1) = c + 1" using LB B by (intro wrap64_id) auto
  obtain e w1 where pc: "persistCounter ?p (c + 1) (disk s) = (e, w1)" by fastforce
  have w1: "clean w1" "e = None \<longrightarrow> fs w1 ?p = Some (file_bytes (FormatInt (c + 1)))"
    "fs w1 ?p = fs (disk s) ?p \<or> fs w1 ?p = Some [] \<or> fs w1 ?p = Some (file_bytes (FormatInt (c + 1)))"
    using WriteFile_clean [OF cl, of ?p "file_bytes (FormatInt (c + 1))" e w1] pc
    by (auto simp: persistCounter_def)
  have "id_inv (B + 50) L \<lparr>memory = None, disk = w1\<rparr>"
    using w1(3)
  proof (elim disjE)
    assume "fs w1 ?p = fs (disk s) ?p"
    with inv w1(1) show ?thesis by (auto simp: id_inv_def intro: file_ok_mono)
  next
    assume "fs w1 ?p = Some (file_bytes (FormatInt (c + 1)))"
    with w1(1) LB show ?thesis by (auto simp: id_inv_def)
  qed (use w1(1) LB in \<open>simp add: id_inv_def\<close>)
  moreover have "id_inv (B + 50) (c + 1) \<lparr>memory = Some (c + 1), disk = w1\<rparr>" if "e = None"
    using w1(1,2) that LB by (auto simp: id_inv_def)
  ultimately show ?thesis
    using g LB by (cases e) (auto simp: generateIDWithDiskPersistence_def v pc Let_def)
qed

lemma periodic_fatal_hard:
  "generateIDWithPeriodicDiskPersistence n c w = (Fatal, w') \<Longrightarrow> generateIDWithDiskPersistence c w = (Fatal, w')"
  by (simp add: generateIDWithPeriodicDiskPersistence_def generateIDWithDiskPersistence_def Let_def split: if_splits)

lemma id_inv_stop: "id_inv B L s \<Longrightarrow> id_inv (B + 50) L (s\<lparr>memory := None\<rparr>)"
  by (auto simp: id_inv_def intro: file_ok_mono)

text \<open>A step without the periodic variant keeps the invariant and issues larger identifiers only.\<close>

lemma id_step_inv:
  assumes "id_step s l t" and "id_inv B L s" and "B + 50 < 2 ^ 63" and "\<forall>v. l \<noteq> Periodic v"
  shows "case l of Issue v \<Rightarrow> L < v \<and> id_inv (B + 50) v t | _ \<Rightarrow> id_inv (B + 50) L t"
  using assms
proof (induction rule: id_step.induct)
  case (load s c w)
  with loadCounter_inv [OF load.prems(1,2) load.hyps(2)] show ?case by simp
next
  case (load_fatal s w)
  with loadCounter_inv [OF load_fatal.prems(1,2) load_fatal.hyps(2)] show ?case by simp
next
  case (issue s c v w)
  with generateID_inv [OF issue.prems(1,2) issue.hyps] show ?case by simp
next
  case (issue_fatal s c w)
  with generateID_inv [OF issue_fatal.prems(1,2) issue_fatal.hyps] show ?case by simp
next
  case (periodic_fatal s c w)
  note fatal = periodic_fatal_hard [OF periodic_fatal.hyps(2)]
  with generateID_inv [OF periodic_fatal.prems(1,2) periodic_fatal.hyps(1) fatal] show ?case by simp
next
  case (stop s)
  with id_inv_stop show ?case by simp
qed simp

lemma issued_increasing:
  "run id_step s ls t \<Longrightarrow> id_inv B L s \<Longrightarrow> B + 50 * int (length ls) < 2 ^ 63 \<Longrightarrow>
    \<forall>v. Periodic v \<notin> set ls \<Longrightarrow> sorted_wrt (<) (issued ls) \<and> (\<forall>v \<in> set (issued ls). L < v)"
proof (induction arbitrary: B L rule: run.induct)
  case (run_Cons s l t ls u)
  have B: "B + 50 < 2 ^ 63" "B + 50 + 50 * int (length ls) < 2 ^ 63" and np: "\<forall>v. l \<noteq> Periodic v"
    using run_Cons.prems by auto
  note inv = id_step_inv [OF run_Cons.hyps(1) run_Cons.prems(1) B(1) np]
  show ?case
  proof (cases l)
    case (Issue v)
    with inv have "L < v" "id_inv (B + 50) v t" by simp_all
    with run_Cons.IH [OF this(2) B(2)] run_Cons.prems(3) show ?thesis
      by (fastforce simp: Issue)
  next
    case (Periodic v)
    with np show ?thesis by simp
  next
    case Load
    with inv have "id_inv (B + 50) L t" by simp
    from run_Cons.IH [OF this B(2)] run_Cons.prems(3) show ?thesis by (simp add: Load)
  next
    case Die
    with inv have "id_inv (B + 50) L t" by simp
    from run_Cons.IH [OF this B(2)] run_Cons.prems(3) show ?thesis by (simp add: Die)
  qed
qed simp

text \<open>
  C33. A server that persists every identifier never issues one twice, over any number of
  lives on the same file: the identifiers increase strictly, wherever processes stop
  between requests and whichever file operations fail, as long as no failed write leaves
  a part of the number. (The bound on the length keeps the counter below \<open>2 ^ 63\<close>.)
\<close>

theorem hard_ids_strictly_increase:
  assumes "run id_step s ls t" and "memory s = None" and "fs (disk s) counterFilePath = None"
    and "clean (disk s)" and "\<forall>v. Periodic v \<notin> set ls" and "50 * int (length ls) < 2 ^ 63"
  shows "sorted_wrt (<) (issued ls)"
proof -
  have "id_inv 0 0 s" using assms by (simp add: id_inv_def)
  from issued_increasing [OF assms(1) this] assms(5,6) show ?thesis by simp
qed

section \<open>Runs on a concrete file\<close>

text \<open>The file with a number in it, and what the operations do when no call fails.\<close>

definition id_disk :: "int \<Rightarrow> nat option list \<Rightarrow> os" where
  "id_disk v flts = \<lparr>fs = [counterFilePath \<mapsto> file_bytes (FormatInt v)], faults = flts\<rparr>"

lemma next_fault_simps [simp]:
  "next_fault \<lparr>fs = m, faults = f # flts\<rparr> = (f, \<lparr>fs = m, faults = flts\<rparr>)"
  "next_fault \<lparr>fs = m, faults = []\<rparr> = (None, \<lparr>fs = m, faults = []\<rparr>)"
  by (simp_all add: next_fault_def)

lemmas disk_defs = persistCounter_def WriteFile_def OpenTrunc_def WriteAt_def Close_def Sync_def
  ReadFile_def OpenRead_def id_disk_def content_def write_at_def

lemma load_number:
  assumes "0 \<le> v" and "v + 50 < 2 ^ 63"
  shows "loadCounter (id_disk v []) = (Continue (v + 50), id_disk v [])"
    and "loadCounter (id_disk v (None # None # flts)) = (Continue (v + 50), id_disk v flts)"
proof -
  have "ParseInt (FormatInt v) = Inr v" using assms by (intro ParseInt_FormatInt) auto
  moreover have "wrap64 (v + 50) = v + 50" using assms by (intro wrap64_id) auto
  ultimately show "loadCounter (id_disk v []) = (Continue (v + 50), id_disk v [])"
    "loadCounter (id_disk v (None # None # flts)) = (Continue (v + 50), id_disk v flts)"
    by (simp_all add: loadCounter_def disk_defs iterations_def)
qed

lemma issue_number:
  assumes "0 \<le> c" and "c + 1 < 2 ^ 63"
  shows "generateIDWithDiskPersistence c (id_disk v []) = (Continue (c + 1), id_disk (c + 1) [])"
    and "generateIDWithDiskPersistence c (id_disk v (None # None # None # flts)) = (Continue (c + 1), id_disk (c + 1) flts)"
proof -
  have "wrap64 (c + 1) = c + 1" using assms by (intro wrap64_id) auto
  then show "generateIDWithDiskPersistence c (id_disk v []) = (Continue (c + 1), id_disk (c + 1) [])"
    "generateIDWithDiskPersistence c (id_disk v (None # None # None # flts)) = (Continue (c + 1), id_disk (c + 1) flts)"
    by (simp_all add: generateIDWithDiskPersistence_def disk_defs Let_def)
qed

lemma periodic_number:
  assumes "0 \<le> c" and "c + 1 < 2 ^ 63" and "(c + 1) mod 50 \<noteq> 0"
  shows "generateIDWithPeriodicDiskPersistence iterations c w = (Continue (c + 1), w)"
proof -
  have "wrap64 (c + 1) = c + 1" using assms by (intro wrap64_id) auto
  with assms(3) show ?thesis by (simp add: generateIDWithPeriodicDiskPersistence_def iterations_def)
qed

lemmas id_runs = run_Cons [where step = id_step] run_Nil [where step = id_step]

lemma stop_at: "id_step \<lparr>memory = m, disk = w\<rparr> Die \<lparr>memory = None, disk = w\<rparr>"
  using id_step.stop [of "\<lparr>memory = m, disk = w\<rparr>"] by simp

text \<open>Three lives of a server that persists every identifier, on a new directory.\<close>

definition no_file :: id_state where
  "no_file = \<lparr>memory = None, disk = empty_os\<rparr>"

lemma first_load: "loadCounter empty_os = (Continue 50, id_disk 50 [])"
  by (simp add: loadCounter_def disk_defs iterations_def empty_os_def Let_def)

lemma two_lives: "run id_step no_file [Load, Issue 51, Issue 52, Die, Load, Issue 103]
    \<lparr>memory = Some 103, disk = id_disk 103 []\<rparr>"
proof -
  have "id_step no_file Load \<lparr>memory = Some 50, disk = id_disk 50 []\<rparr>"
    by (rule id_step.load) (simp_all add: no_file_def first_load)
  moreover have "id_step \<lparr>memory = Some 50, disk = id_disk 50 []\<rparr> (Issue 51) \<lparr>memory = Some 51, disk = id_disk 51 []\<rparr>"
    using issue_number(1) [of 50 50] by (intro id_step.issue) simp_all
  moreover have "id_step \<lparr>memory = Some 51, disk = id_disk 51 []\<rparr> (Issue 52) \<lparr>memory = Some 52, disk = id_disk 52 []\<rparr>"
    using issue_number(1) [of 51 51] by (intro id_step.issue) simp_all
  moreover have "id_step \<lparr>memory = None, disk = id_disk 52 []\<rparr> Load \<lparr>memory = Some 102, disk = id_disk 52 []\<rparr>"
    using load_number(1) [of 52] by (intro id_step.load) simp_all
  moreover have "id_step \<lparr>memory = Some 102, disk = id_disk 52 []\<rparr> (Issue 103) \<lparr>memory = Some 103, disk = id_disk 103 []\<rparr>"
    using issue_number(1) [of 102 52] by (intro id_step.issue) simp_all
  ultimately show ?thesis by (blast intro: id_runs stop_at)
qed

theorem hard_ids_strictly_increase_witness:
  "sorted_wrt (<) (issued [Load, Issue 51, Issue 52, Die, Load, Issue 103])"
  by (rule hard_ids_strictly_increase [OF two_lives]) (simp_all add: no_file_def clean_def)

text \<open>
  The periodic variant issues identifiers twice: a start adds fifty to the number in
  the file and does not write it, so two lives that both end before the next multiple of
  fifty begin with the same identifiers.
\<close>

theorem periodic_ids_repeat:
  assumes "0 \<le> v" and "v + 51 < 2 ^ 63" and "(v + 51) mod 50 \<noteq> 0"
  shows "run id_step \<lparr>memory = None, disk = id_disk v []\<rparr>
    [Load, Periodic (v + 51), Die, Load, Periodic (v + 51)] \<lparr>memory = Some (v + 51), disk = id_disk v []\<rparr>"
proof -
  have "id_step \<lparr>memory = None, disk = id_disk v []\<rparr> Load \<lparr>memory = Some (v + 50), disk = id_disk v []\<rparr>"
    using load_number(1) [of v] assms by (intro id_step.load) simp_all
  moreover have "id_step \<lparr>memory = Some (v + 50), disk = id_disk v []\<rparr> (Periodic (v + 51))
      \<lparr>memory = Some (v + 51), disk = id_disk v []\<rparr>"
    using periodic_number [of "v + 50" "id_disk v []"] assms
    by (intro id_step.periodic) (simp_all add: add.assoc)
  ultimately show ?thesis by (blast intro: id_runs stop_at)
qed

theorem periodic_ids_repeat_witness:
  "run id_step \<lparr>memory = None, disk = id_disk 50 []\<rparr>
    [Load, Periodic 101, Die, Load, Periodic 101] \<lparr>memory = Some 101, disk = id_disk 50 []\<rparr>"
  using periodic_ids_repeat [of 50] by simp

text \<open>A write of 104 that fails after its first digit.\<close>

lemma torn_104:
  "generateIDWithDiskPersistence 103 (id_disk 103 (None # Some 1 # None # flts)) = (Fatal, id_disk 1 flts)"
proof -
  have "FormatInt 104 = ''104''" by (simp add: FormatInt_def dec.simps digit_char_def) code_simp
  moreover have "FormatInt 1 = ''1''" by (simp add: FormatInt_def dec.simps digit_char_def) code_simp
  moreover have "wrap64 (103 + 1) = 104" by simp
  ultimately show ?thesis
    by (simp add: generateIDWithDiskPersistence_def disk_defs file_bytes_def)
qed

text \<open>
  Persisting every identifier is not enough when a write is torn: the file is written
  in place, so a failed write can leave the first digit of the number, which the next life
  takes for the whole, and identifiers are issued again.
\<close>

theorem torn_write_repeats_ids:
  "run id_step \<lparr>memory = None, disk = id_disk 1 (replicate 11 None @ [Some 1] @ replicate 6 None)\<rparr>
     [Load, Issue 52, Die, Load, Issue 103, Die, Load, Issue 52]
     \<lparr>memory = Some 52, disk = id_disk 52 []\<rparr>"
proof -
  let ?n = "\<lambda>k. replicate k None @ [Some 1] @ replicate 6 None"
  have n: "?n 11 = None # None # ?n 9" "?n 9 = None # None # None # ?n 6" "?n 6 = None # None # ?n 4"
    "?n 4 = None # None # None # ?n 1" "?n 1 = None # Some 1 # None # replicate 5 None"
    "replicate 5 None = None # None # None # None # None # []"
    by (simp_all add: eval_nat_numeral)
  have 1: "id_step \<lparr>memory = None, disk = id_disk 1 (?n 11)\<rparr> Load \<lparr>memory = Some 51, disk = id_disk 1 (?n 9)\<rparr>"
    unfolding n(1) using load_number(2) [of 1] by (intro id_step.load) simp_all
  have 2: "id_step \<lparr>memory = Some 51, disk = id_disk 1 (?n 9)\<rparr> (Issue 52) \<lparr>memory = Some 52, disk = id_disk 52 (?n 6)\<rparr>"
    unfolding n(2) using issue_number(2) [of 51] by (intro id_step.issue) simp_all
  have 3: "id_step \<lparr>memory = None, disk = id_disk 52 (?n 6)\<rparr> Load \<lparr>memory = Some 102, disk = id_disk 52 (?n 4)\<rparr>"
    unfolding n(3) using load_number(2) [of 52] by (intro id_step.load) simp_all
  have 4: "id_step \<lparr>memory = Some 102, disk = id_disk 52 (?n 4)\<rparr> (Issue 103) \<lparr>memory = Some 103, disk = id_disk 103 (?n 1)\<rparr>"
    unfolding n(4) using issue_number(2) [of 102] by (intro id_step.issue) simp_all
  have 5: "id_step \<lparr>memory = Some 103, disk = id_disk 103 (?n 1)\<rparr> Die \<lparr>memory = None, disk = id_disk 1 (replicate 5 None)\<rparr>"
    unfolding n(5) using torn_104 by (intro id_step.issue_fatal) simp_all
  have 6: "id_step \<lparr>memory = None, disk = id_disk 1 (replicate 5 None)\<rparr> Load \<lparr>memory = Some 51, disk = id_disk 1 [None, None, None]\<rparr>"
    unfolding n(6) using load_number(2) [of 1] by (intro id_step.load) simp_all
  have 7: "id_step \<lparr>memory = Some 51, disk = id_disk 1 [None, None, None]\<rparr> (Issue 52) \<lparr>memory = Some 52, disk = id_disk 52 []\<rparr>"
    using issue_number(2) [of 51 1 "[]"] by (intro id_step.issue) simp_all
  show ?thesis
    by (rule id_runs(1), rule 1, rule id_runs(1), rule 2, rule id_runs(1), rule stop_at, rule id_runs(1), rule 3,
        rule id_runs(1), rule 4, rule id_runs(1), rule 5, rule id_runs(1), rule 6, rule id_runs(1), rule 7, rule id_runs(2))
qed

end
