(* ===== verification/Go_SQL.thy ===== *)
theory Go_SQL
  imports Go_Prelude
begin

text \<open>
  The part of Go's \<^verbatim>\<open>database/sql\<close> the programs use inside transactions. A program sends
  operations and reads answers; the database is a parameter, a relation between its states,
  about which theorems assume the documented behaviour of transactions and row locks. The
  locale \<open>txn_clients\<close> holds the argument that all clients of such a database share: what each
  of them knows about the database survives its own steps and those of the others.
\<close>

section \<open>Operations and answers\<close>

text \<open>A statement has its text and its arguments, of a type the program chooses.\<close>

datatype 'v db_op = Begin | QueryRow string "'v list" | Exec string "'v list" | Commit | Rollback

text \<open>
  The answers: a row, as the program scans it; the result of \<^verbatim>\<open>Exec\<close> holds what
  \<^verbatim>\<open>RowsAffected()\<close> returns.
\<close>

datatype 'r db_answer = Ok | Err go_error | NoRows | Row 'r | Result "int result"

text \<open>A database: its state, the client, the operation, the answer and the new state.\<close>

type_synonym ('d, 'c, 'v, 'r) database = "'d \<Rightarrow> 'c \<Rightarrow> 'v db_op \<Rightarrow> 'r db_answer \<Rightarrow> 'd \<Rightarrow> bool"

text \<open>
  The answers an operation can have, by the types of \<^verbatim>\<open>database/sql\<close>. In the programs an
  answer that does not fit leaves the call where it is; no step gives one.
\<close>

fun fits :: "'v db_op \<Rightarrow> 'r db_answer \<Rightarrow> bool" where
  "fits (QueryRow s xs) a \<longleftrightarrow> (\<forall>r. a \<noteq> Result r) \<and> a \<noteq> Ok"
| "fits (Exec s xs) a \<longleftrightarrow> (\<exists>r. a = Result r) \<or> (\<exists>e. a = Err e)"
| "fits q a \<longleftrightarrow> a = Ok \<or> (\<exists>e. a = Err e)"

text \<open>The interleaving of the calls of the clients \<open>U\<close> on one database.\<close>

inductive sys_step :: "'c set \<Rightarrow> ('d, 'c, 'v, 'r) database \<Rightarrow> ('c \<Rightarrow> 's \<Rightarrow> 'v db_op option) \<Rightarrow>
    ('s \<Rightarrow> 'r db_answer \<Rightarrow> 's) \<Rightarrow>
    'd \<times> ('c \<Rightarrow> 's) \<Rightarrow> 'c \<times> 'v db_op \<times> 'r db_answer \<Rightarrow> 'd \<times> ('c \<Rightarrow> 's) \<Rightarrow> bool"
  for U db opf nxt where
  step: "u \<in> U \<Longrightarrow> opf u (cs u) = Some q \<Longrightarrow> db d u q a d' \<Longrightarrow> fits q a \<Longrightarrow>
    sys_step U db opf nxt (d, cs) (u, q, a) (d', cs(u := nxt (cs u) a))"

text \<open>
  Opening a database: \<^verbatim>\<open>sql.Open\<close> for a driver and a connection string, the two limits of the
  handle's connections, and \<^verbatim>\<open>Ping\<close>.
\<close>

record 'p sql_driver =
  Open :: "string \<Rightarrow> string \<Rightarrow> 'p result"
  SetMaxOpenConns :: "nat \<Rightarrow> 'p \<Rightarrow> 'p"
  SetMaxIdleConns :: "nat \<Rightarrow> 'p \<Rightarrow> 'p"
  Ping :: "'p \<Rightarrow> go_error option"

section \<open>What a database promises\<close>

text \<open>
  The view of a database the promises are about: the committed row of a key, what a client's
  transaction has written and not committed, the rows it has locked, and whether the server has
  ended the transaction on its own (the victim of a deadlock, a lost connection).
\<close>

record ('d, 'c, 'k, 'w) view =
  row :: "'d \<Rightarrow> 'k \<Rightarrow> 'w"
  pend :: "'d \<Rightarrow> 'c \<Rightarrow> 'k \<Rightarrow> 'w option"
  locks :: "'d \<Rightarrow> 'c \<Rightarrow> 'k set"
  gone :: "'d \<Rightarrow> 'c \<Rightarrow> bool"

text \<open>
  Transactions: others' transactions are left alone, or the server ends them, which drops their
  writes and locks; only a commit changes the committed rows, by what the transaction wrote (a
  commit that reports an error may have done so or not); a commit or rollback ends the transaction, a
  begin starts an empty one; a write locks its row; a statement keeps the locks, unless it
  fails and the transaction with it; a lock that is granted is held by no one else; and in a
  transaction that the server has ended, statements and the commit fail and change no row.
\<close>

definition txn_call :: "('d, 'c, 'k, 'w) view \<Rightarrow> 'd \<Rightarrow> 'c \<Rightarrow> 'v db_op \<Rightarrow> 'r db_answer \<Rightarrow> 'd \<Rightarrow> bool" where
  "txn_call V d u q a d' \<longleftrightarrow>
     (\<forall>v. v \<noteq> u \<longrightarrow>
        pend V d' v = pend V d v \<and> locks V d' v = locks V d v \<and> gone V d' v = gone V d v \<or>
        pend V d' v = Map.empty \<and> locks V d' v = {} \<and> gone V d' v) \<and>
     (q \<noteq> Commit \<longrightarrow> row V d' = row V d) \<and>
     (q = Commit \<longrightarrow>
        row V d' = (\<lambda>i. case pend V d u i of None \<Rightarrow> row V d i | Some r \<Rightarrow> r) \<or>
        a \<noteq> Ok \<and> row V d' = row V d) \<and>
     (q \<in> {Begin, Commit, Rollback} \<longrightarrow> pend V d' u = Map.empty) \<and>
     (\<forall>i. pend V d' u i \<noteq> None \<longrightarrow> pend V d u i \<noteq> None \<or> i \<in> locks V d' u) \<and>
     (q \<notin> {Begin, Commit, Rollback} \<longrightarrow>
        locks V d u \<subseteq> locks V d' u \<or> (\<exists>e. a = Err e) \<and> pend V d' u = Map.empty) \<and>
     (\<forall>i \<in> locks V d' u - locks V d u. \<forall>v. v \<noteq> u \<longrightarrow> i \<notin> locks V d' v) \<and>
     (gone V d u \<and> q \<notin> {Begin, Rollback} \<longrightarrow> (\<exists>e. a = Err e) \<and> row V d' = row V d)"

definition transactions :: "('d, 'c, 'v, 'r) database \<Rightarrow> ('d, 'c, 'k, 'w) view \<Rightarrow> bool" where
  "transactions db V \<longleftrightarrow> (\<forall>d u q a d'. db d u q a d' \<longrightarrow> txn_call V d u q a d')"

text \<open>A database on which no transaction is open.\<close>

definition idle_db :: "('d, 'c, 'k, 'w) view \<Rightarrow> 'd \<Rightarrow> bool" where
  "idle_db V d \<longleftrightarrow> (\<forall>u. pend V d u = Map.empty \<and> locks V d u = {})"

section \<open>Locks and pending writes\<close>

definition txn_inv :: "('d, 'c, 'k, 'w) view \<Rightarrow> 'd \<Rightarrow> bool" where
  "txn_inv V d \<longleftrightarrow>
     (\<forall>u v i. u \<noteq> v \<longrightarrow> i \<in> locks V d u \<longrightarrow> i \<notin> locks V d v) \<and>
     (\<forall>u i. pend V d u i \<noteq> None \<longrightarrow> i \<in> locks V d u)"

lemma transactionsD:
  assumes "transactions db V" and "db d u q a d'"
  shows other: "v \<noteq> u \<Longrightarrow>
      pend V d' v = pend V d v \<and> locks V d' v = locks V d v \<and> gone V d' v = gone V d v \<or>
      pend V d' v = Map.empty \<and> locks V d' v = {} \<and> gone V d' v"
    and row_same: "q \<noteq> Commit \<Longrightarrow> row V d' = row V d"
    and row_commit: "q = Commit \<Longrightarrow>
      row V d' = (\<lambda>i. case pend V d u i of None \<Rightarrow> row V d i | Some r \<Rightarrow> r) \<or> a \<noteq> Ok \<and> row V d' = row V d"
    and pend_empty: "q \<in> {Begin, Commit, Rollback} \<Longrightarrow> pend V d' u = Map.empty"
    and write_locks: "pend V d' u i \<noteq> None \<Longrightarrow> pend V d u i \<noteq> None \<or> i \<in> locks V d' u"
    and locks_kept: "q \<notin> {Begin, Commit, Rollback} \<Longrightarrow>
      locks V d u \<subseteq> locks V d' u \<or> (\<exists>e. a = Err e) \<and> pend V d' u = Map.empty"
    and locks_free: "i \<in> locks V d' u \<Longrightarrow> i \<notin> locks V d u \<Longrightarrow> v \<noteq> u \<Longrightarrow> i \<notin> locks V d' v"
    and gone_fails: "gone V d u \<Longrightarrow> q \<notin> {Begin, Rollback} \<Longrightarrow> (\<exists>e. a = Err e) \<and> row V d' = row V d"
proof -
  have "txn_call V d u q a d'" using assms unfolding transactions_def by blast
  note T = this [unfolded txn_call_def]
  show "v \<noteq> u \<Longrightarrow>
      pend V d' v = pend V d v \<and> locks V d' v = locks V d v \<and> gone V d' v = gone V d v \<or>
      pend V d' v = Map.empty \<and> locks V d' v = {} \<and> gone V d' v" using T by simp
  show "q \<noteq> Commit \<Longrightarrow> row V d' = row V d" using T by simp
  show "q = Commit \<Longrightarrow>
      row V d' = (\<lambda>i. case pend V d u i of None \<Rightarrow> row V d i | Some r \<Rightarrow> r) \<or> a \<noteq> Ok \<and> row V d' = row V d" using T by simp
  show "q \<in> {Begin, Commit, Rollback} \<Longrightarrow> pend V d' u = Map.empty" using T by simp
  show "pend V d' u i \<noteq> None \<Longrightarrow> pend V d u i \<noteq> None \<or> i \<in> locks V d' u" using T by simp
  show "q \<notin> {Begin, Commit, Rollback} \<Longrightarrow>
      locks V d u \<subseteq> locks V d' u \<or> (\<exists>e. a = Err e) \<and> pend V d' u = Map.empty" using T by simp
  show "i \<in> locks V d' u \<Longrightarrow> i \<notin> locks V d u \<Longrightarrow> v \<noteq> u \<Longrightarrow> i \<notin> locks V d' v" using T by simp
  show "gone V d u \<Longrightarrow> q \<notin> {Begin, Rollback} \<Longrightarrow> (\<exists>e. a = Err e) \<and> row V d' = row V d" using T by simp
qed

text \<open>Only the commit of a transaction that is still there changes rows.\<close>

lemma row_unchanged:
  assumes "transactions db V" "db d u q a d'" and "q \<noteq> Commit \<or> gone V d u"
  shows "row V d' = row V d"
proof (cases "q = Commit")
  case True
  with transactionsD(8) [OF assms(1,2)] assms(3) show ?thesis by simp
qed (rule transactionsD(2) [OF assms(1,2)])

text \<open>The locks of the others can only become fewer.\<close>

lemma other_locks: "transactions db V \<Longrightarrow> db d u q a d' \<Longrightarrow> v \<noteq> u \<Longrightarrow> i \<in> locks V d' v \<Longrightarrow> i \<in> locks V d v"
  using transactionsD(1) [of db V d u q a d' v] by auto

lemma txn_inv_step:
  assumes T: "transactions db V" "db d u q a d'" and inv: "txn_inv V d"
  shows "txn_inv V d'"
proof -
  note others = other_locks [OF T] and new = transactionsD(7) [OF T] and wr = transactionsD(5) [OF T]
  have mine: "i \<notin> locks V d' w" if "w \<noteq> u" "i \<in> locks V d' u" for w i
  proof (cases "i \<in> locks V d u")
    case True
    with inv that(1) have "i \<notin> locks V d w" unfolding txn_inv_def by blast
    with others [OF that(1)] show ?thesis by blast
  qed (use new [OF that(2) _ that(1)] in blast)
  have "i \<notin> locks V d' w" if "v \<noteq> w" "i \<in> locks V d' v" for v w i
  proof (cases "v = u \<or> w = u")
    case False
    then have "i \<in> locks V d v" using others that(2) by blast
    with inv that(1) have "i \<notin> locks V d w" unfolding txn_inv_def by blast
    with others False show ?thesis by blast
  qed (use mine that in auto)
  moreover have "i \<in> locks V d' v" if p: "pend V d' v i \<noteq> None" for v i
  proof (cases "v = u")
    case True
    with p transactionsD(4) [OF T] have "q \<notin> {Begin, Commit, Rollback}" by force
    with transactionsD(6) [OF T] p True have "locks V d u \<subseteq> locks V d' u" by auto
    with wr [of i] p True inv show ?thesis unfolding txn_inv_def by blast
  next
    case False
    with p transactionsD(1) [OF T False] inv show ?thesis unfolding txn_inv_def by auto
  qed
  ultimately show ?thesis unfolding txn_inv_def by blast
qed

text \<open>A locked row does not change under the steps of others.\<close>

lemma row_locked:
  assumes T: "transactions db V" "db d v q a d'" and inv: "txn_inv V d" and i: "i \<in> locks V d u" and "u \<noteq> v"
  shows "row V d' i = row V d i"
proof (cases "q = Commit")
  case True
  have "pend V d v i = None" using inv i assms(5) unfolding txn_inv_def by blast
  with transactionsD(3) [OF T True] show ?thesis by auto
next
  case False
  with transactionsD(2) [OF T] show ?thesis by simp
qed

lemma commit_other_row:
  assumes T: "transactions db V" "db d v Commit a d'" and "pend V d v = [j \<mapsto> r]" and "i \<noteq> j"
  shows "row V d' i = row V d i"
  using transactionsD(3) [OF T refl] assms(3,4) by auto

lemma txn_inv_idle: "idle_db V d \<Longrightarrow> txn_inv V d"
  by (simp add: txn_inv_def idle_db_def)

section \<open>Clients of a database\<close>

text \<open>
  What clients need to show: as long as the promises \<open>G\<close> hold, what a client at some place of its
  program knows (\<open>ok\<close>) holds after its own step, at the new place, and is not disturbed by a
  step of another client that is itself where its knowledge says.
\<close>

locale txn_clients =
  fixes G :: "'d \<Rightarrow> bool"
    and U :: "'c set"
    and db :: "('d, 'c, 'v, 'r) database"
    and V :: "('d, 'c, 'k, 'w) view"
    and opf :: "'c \<Rightarrow> 's \<Rightarrow> 'v db_op option"
    and nxt :: "'s \<Rightarrow> 'r db_answer \<Rightarrow> 's"
    and ok :: "'d \<Rightarrow> 'c \<Rightarrow> 's \<Rightarrow> bool"
  assumes promised: "G d \<Longrightarrow> transactions db V"
    and own_step: "G d \<Longrightarrow> db d u q a d' \<Longrightarrow> ok d u c \<Longrightarrow> opf u c = Some q \<Longrightarrow> fits q a \<Longrightarrow> ok d' u (nxt c a)"
    and other_step: "G d \<Longrightarrow> db d v q a d' \<Longrightarrow> txn_inv V d \<Longrightarrow> u \<noteq> v \<Longrightarrow> ok d u c \<Longrightarrow> ok d v cv \<Longrightarrow>
      opf v cv = Some q \<Longrightarrow> ok d' u c"
begin

definition clients_inv :: "'d \<times> ('c \<Rightarrow> 's) \<Rightarrow> bool" where
  "clients_inv s \<longleftrightarrow> txn_inv V (fst s) \<and> (\<forall>u. ok (fst s) u (snd s u))"

lemma clients_start: "idle_db V d \<Longrightarrow> (\<And>u. ok d u (cs u)) \<Longrightarrow> clients_inv (d, cs)"
  by (simp add: clients_inv_def txn_inv_idle)

lemma clients_ok: "clients_inv (d, cs) \<Longrightarrow> ok d u (cs u)"
  by (simp add: clients_inv_def)

lemma clients_step:
  assumes "sys_step U db opf nxt s l t" and "G (fst s)" and "clients_inv s"
  shows "clients_inv t"
  using assms(1)
proof cases
  case (step u cs q d a d')
  have G: "G d" and inv: "txn_inv V d" and ok: "\<And>w. ok d w (cs w)"
    using assms(2,3) step by (simp_all add: clients_inv_def)
  note call = \<open>db d u q a d'\<close> and op = \<open>opf u (cs u) = Some q\<close> and fit = \<open>fits q a\<close>
  have "ok d' w ((cs(u := nxt (cs u) a)) w)" for w
  proof (cases "w = u")
    case True
    with own_step [OF G call ok op fit] show ?thesis by simp
  next
    case False
    with other_step [OF G call inv False ok ok op] show ?thesis by simp
  qed
  with txn_inv_step [OF promised [OF G] call inv] step show ?thesis by (simp add: clients_inv_def)
qed

end

section \<open>Databases in memory\<close>

text \<open>
  The material of reference databases that keep the promises: rows in memory, a lock granted
  when no one else holds it, writes kept apart until the commit.
\<close>

record ('c, 'k, 'w) mem =
  m_row :: "'k \<Rightarrow> 'w"
  m_pend :: "'c \<Rightarrow> 'k \<Rightarrow> 'w option"
  m_lock :: "'c \<Rightarrow> 'k set"

definition mem_view :: "(('c, 'k, 'w) mem, 'c, 'k, 'w) view" where
  "mem_view = \<lparr>row = m_row, pend = m_pend, locks = m_lock, gone = (\<lambda>_ _. False)\<rparr>"

definition mem_free :: "('c, 'k, 'w) mem \<Rightarrow> 'c \<Rightarrow> 'k \<Rightarrow> bool" where
  "mem_free d u i \<longleftrightarrow> (\<forall>v. v \<noteq> u \<longrightarrow> i \<notin> m_lock d v)"

definition mem_lock :: "'c \<Rightarrow> 'k \<Rightarrow> ('c, 'k, 'w) mem \<Rightarrow> ('c, 'k, 'w) mem" where
  "mem_lock u i d = d\<lparr>m_lock := (m_lock d)(u := insert i (m_lock d u))\<rparr>"

definition mem_write :: "'c \<Rightarrow> 'k \<Rightarrow> 'w \<Rightarrow> ('c, 'k, 'w) mem \<Rightarrow> ('c, 'k, 'w) mem" where
  "mem_write u i r d = (mem_lock u i d)\<lparr>m_pend := (m_pend d)(u := (m_pend d u)(i \<mapsto> r))\<rparr>"

definition mem_end :: "'c \<Rightarrow> ('c, 'k, 'w) mem \<Rightarrow> ('c, 'k, 'w) mem" where
  "mem_end u d = d\<lparr>m_pend := (m_pend d)(u := Map.empty), m_lock := (m_lock d)(u := {})\<rparr>"

definition mem_commit :: "'c \<Rightarrow> ('c, 'k, 'w) mem \<Rightarrow> ('c, 'k, 'w) mem" where
  "mem_commit u d = (mem_end u d)\<lparr>m_row := (\<lambda>i. case m_pend d u i of None \<Rightarrow> m_row d i | Some r \<Rightarrow> r)\<rparr>"

definition mem_idle :: "('k \<Rightarrow> 'w) \<Rightarrow> ('c, 'k, 'w) mem" where
  "mem_idle r = \<lparr>m_row = r, m_pend = (\<lambda>_. Map.empty), m_lock = (\<lambda>_. {})\<rparr>"

lemma mem_view_sel [simp]:
  "row mem_view = m_row" "pend mem_view = m_pend" "locks mem_view = m_lock" "\<not> gone mem_view d u"
  by (simp_all add: mem_view_def)

lemmas mem_defs = mem_free_def mem_lock_def mem_write_def mem_end_def mem_commit_def

text \<open>Each of them is a call that keeps the promise of transactions.\<close>

lemma mem_calls:
  "q \<in> {Begin, Rollback} \<Longrightarrow> txn_call mem_view d u q a (mem_end u d)"
  "txn_call mem_view d u Commit a (mem_commit u d)"
  "q \<notin> {Begin, Commit, Rollback} \<Longrightarrow> txn_call mem_view d u q a d"
  "q \<notin> {Begin, Commit, Rollback} \<Longrightarrow> mem_free d u i \<Longrightarrow> txn_call mem_view d u q a (mem_lock u i d)"
  "q \<notin> {Begin, Commit, Rollback} \<Longrightarrow> mem_free d u i \<Longrightarrow> txn_call mem_view d u q a (mem_write u i r d)"
  "txn_call mem_view d u q (Err e) (mem_end u d)"
  by (simp_all add: txn_call_def mem_defs cong: option.case_cong) auto

lemma mem_idle_db: "idle_db mem_view (mem_idle r)"
  by (simp add: idle_db_def mem_idle_def)

end
