(* ===== verification/Batch_Id_Generator.thy ===== *)
theory Batch_Id_Generator
  imports Go_SQL Go_HTTP
begin

text \<open>
  The id service of src/id-generators/amazon-way: a request gets the next batch of a hundred
  ids of its service, from a counter in MySQL that is read with a lock, written and committed
  in one transaction. Requests are served concurrently; the database is a parameter.
\<close>

section \<open>Values\<close>

record IDRange =
  Min_id :: int
  Max_id :: int

definition ServiceName :: string where
  "ServiceName = ''service_name''"

definition BatchSize :: int where
  "BatchSize = 100"

text \<open>The pool of connections, opened before \<^verbatim>\<open>main\<close>: the server does not start without a database that answers.\<close>

definition generator_init :: "'p sql_driver \<Rightarrow> 'p process" where
  "generator_init sql =
     (case Open sql ''mysql'' ''root@tcp(127.0.0.1:3306)/id_generator?charset=utf8'' of
        Inl err \<Rightarrow> Fatal
      | Inr dbPool \<Rightarrow>
          (let dbPool = SetMaxIdleConns sql 10 (SetMaxOpenConns sql 20 dbPool)
           in case Ping sql dbPool of Some err \<Rightarrow> Fatal | None \<Rightarrow> Continue dbPool))"

lemma generator_init_Continue:
  assumes "generator_init sql = Continue p"
  shows "Ping sql p = None \<and> (\<exists>q. p = SetMaxIdleConns sql 10 (SetMaxOpenConns sql 20 q))"
  using assms by (auto simp: generator_init_def Let_def split: sum.splits option.splits)

text \<open>
  A value of a column or an argument, and \<^verbatim>\<open>Scan\<close> into an \<^verbatim>\<open>int64\<close>: the value is formatted
  and parsed again, NULL is an error.
\<close>

datatype sql_value = IntV int | StrV string | NullV

fun scan_int64 :: "sql_value \<Rightarrow> int result" where
  "scan_int64 (IntV n) = ParseInt (FormatInt n)"
| "scan_int64 (StrV s) = ParseInt s"
| "scan_int64 NullV = Inl (ErrMsg ''converting NULL to int64 is unsupported'')"

section \<open>Responses\<close>

definition homeHandler :: "Writer \<Rightarrow> Writer outcome" where
  "homeHandler w = write_all 200 (text_bytes ''ID Generator Service is running.'') w"

text \<open>The JSON encoding of a range, with the newline that \<^verbatim>\<open>Encode\<close> adds.\<close>

definition json_range :: "IDRange \<Rightarrow> string" where
  "json_range r =
     ''{\"min\":'' @ FormatInt (Min_id r) @ '',\"max\":'' @ FormatInt (Max_id r) @ ''}'' @ [CHR 0x0A]"

text \<open>
  \<^verbatim>\<open>writeJSONResponse\<close>. The write of the encoded range fails after some bytes when the client
  has gone away: \<open>Some n\<close>.
\<close>

definition writeJSONResponse :: "nat option \<Rightarrow> IDRange \<Rightarrow> Writer \<Rightarrow> Writer outcome" where
  "writeJSONResponse broken result w =
     (let w = w\<lparr>w_header := header_Set ''Content-Type'' ''application/json'' (w_header w)\<rparr>
      in case broken of
           None \<Rightarrow> Return (Write (text_bytes (json_range result)) w)
         | Some n \<Rightarrow> http_Error ''Error writing response'' 500 (Write (take n (text_bytes (json_range result))) w))"

section \<open>A request\<close>

definition select_value :: string where
  "select_value = ''SELECT value FROM ids WHERE service_name = ? FOR UPDATE''"

definition insert_value :: string where
  "insert_value = ''INSERT INTO ids(service_name, value) VALUES(?, ?)''"

definition update_value :: string where
  "update_value = ''UPDATE ids SET value = ? WHERE service_name = ?''"

text \<open>
  Where a call of \<^verbatim>\<open>generateHandler\<close> is: before which operation, with the variables it has set.
  \<open>GRollback\<close> is an error return on which the deferred rollback still runs; after a commit,
  also a failed one, that rollback finds the transaction done and sends nothing.
\<close>

datatype gen_call =
    GRejected
  | GBegin string
  | GSelect string
  | GInsert string
  | GUpdate string int
  | GCommit string IDRange
  | GRollback
  | GFailed
  | GServed string IDRange

definition generate_start :: "url_values \<Rightarrow> gen_call" where
  "generate_start queryParams =
     (if url_Get queryParams ServiceName = [] then GRejected else GBegin (url_Get queryParams ServiceName))"

definition lowerValue :: "int \<Rightarrow> int" where
  "lowerValue svcCounter = wrap64 (svcCounter + 1)"

definition upperValue :: "int \<Rightarrow> int" where
  "upperValue svcCounter = wrap64 (svcCounter + BatchSize)"

fun gen_op :: "'i \<Rightarrow> gen_call \<Rightarrow> sql_value db_op option" where
  "gen_op i (GBegin svc) = Some Begin"
| "gen_op i (GSelect svc) = Some (QueryRow select_value [StrV svc])"
| "gen_op i (GInsert svc) = Some (Exec insert_value [StrV svc, IntV BatchSize])"
| "gen_op i (GUpdate svc c) = Some (Exec update_value [IntV (upperValue c), StrV svc])"
| "gen_op i (GCommit svc r) = Some Commit"
| "gen_op i GRollback = Some Rollback"
| "gen_op i GRejected = None"
| "gen_op i GFailed = None"
| "gen_op i (GServed svc r) = None"

fun gen_next :: "gen_call \<Rightarrow> sql_value db_answer \<Rightarrow> gen_call" where
  "gen_next (GBegin svc) Ok = GSelect svc"
| "gen_next (GBegin svc) (Err e) = GFailed"
| "gen_next (GSelect svc) (Row v) = (case scan_int64 v of Inl e \<Rightarrow> GRollback | Inr c \<Rightarrow> GUpdate svc c)"
| "gen_next (GSelect svc) NoRows = GInsert svc"
| "gen_next (GSelect svc) (Err e) = GRollback"
| "gen_next (GInsert svc) (Err e) = GRollback"
| "gen_next (GInsert svc) (Result r) = GCommit svc \<lparr>Min_id = 1, Max_id = BatchSize\<rparr>"
| "gen_next (GUpdate svc c) (Err e) = GRollback"
| "gen_next (GUpdate svc c) (Result r) = GCommit svc \<lparr>Min_id = lowerValue c, Max_id = upperValue c\<rparr>"
| "gen_next (GCommit svc r) (Err e) = GFailed"
| "gen_next (GCommit svc r) Ok = GServed svc r"
| "gen_next GRollback a = GFailed"
| "gen_next c a = c"

text \<open>What the call has written to its response; the status comes before the body's headers.\<close>

fun generate_response :: "nat option \<Rightarrow> gen_call \<Rightarrow> Writer outcome" where
  "generate_response broken GRejected = http_Error ''Missing service_name parameter'' 400 new_writer"
| "generate_response broken GRollback = WriteHeader 500 new_writer"
| "generate_response broken GFailed = WriteHeader 500 new_writer"
| "generate_response broken (GServed svc r) =
     (case WriteHeader 200 new_writer of Return w \<Rightarrow> writeJSONResponse broken r w | Panic \<Rightarrow> Panic)"
| "generate_response broken c = Return new_writer"

section \<open>What the database promises about the statements\<close>

text \<open>
  A service name stands for the row \<open>key\<close> gives it (the collation of the column may identify
  names). Selecting the row for update returns its committed value and holds its lock. The
  column is a unique key: an insert succeeds only when there is no row, and holds the lock of
  the new one. An update of a row that is there writes it.
\<close>

definition id_statements ::
    "(string \<Rightarrow> 'k) \<Rightarrow> ('d, 'i, sql_value, sql_value) database \<Rightarrow> ('d, 'i, 'k, int option) view \<Rightarrow> bool" where
  "id_statements key db V \<longleftrightarrow>
     (\<forall>d i s a d'. db d i (QueryRow select_value [StrV s]) a d' \<longrightarrow> pend V d i = Map.empty \<longrightarrow>
        pend V d' i = Map.empty \<and>
        (\<forall>v. a = Row v \<longrightarrow> key s \<in> locks V d' i \<and> (\<exists>n. row V d (key s) = Some n \<and> v = IntV n))) \<and>
     (\<forall>d i s n r d'. db d i (Exec insert_value [StrV s, IntV n]) (Result r) d' \<longrightarrow> pend V d i = Map.empty \<longrightarrow>
        row V d (key s) = None \<and> pend V d' i = [key s \<mapsto> Some n]) \<and>
     (\<forall>d i s n r d'. db d i (Exec update_value [IntV n, StrV s]) (Result r) d' \<longrightarrow> row V d (key s) \<noteq> None \<longrightarrow>
        pend V d' i = (pend V d i)(key s \<mapsto> Some n))"

lemma id_statementsD:
  assumes "id_statements key db V"
  shows "db d i (QueryRow select_value [StrV s]) a d' \<Longrightarrow> pend V d i = Map.empty \<Longrightarrow> pend V d' i = Map.empty"
    and "db d i (QueryRow select_value [StrV s]) (Row v) d' \<Longrightarrow> pend V d i = Map.empty \<Longrightarrow>
      key s \<in> locks V d' i \<and> (\<exists>n. row V d (key s) = Some n \<and> v = IntV n)"
    and "db d i (Exec insert_value [StrV s, IntV n]) (Result r) d' \<Longrightarrow> pend V d i = Map.empty \<Longrightarrow>
      row V d (key s) = None \<and> pend V d' i = [key s \<mapsto> Some n]"
    and "db d i (Exec update_value [IntV n, StrV s]) (Result r) d' \<Longrightarrow> row V d (key s) \<noteq> None \<Longrightarrow>
      pend V d' i = (pend V d i)(key s \<mapsto> Some n)"
  using assms unfolding id_statements_def by blast+

section \<open>Ids are given out once\<close>

fun counter :: "int option \<Rightarrow> int" where
  "counter None = 0"
| "counter (Some n) = n"

text \<open>
  What a call knows, for the counters \<open>B\<close> at the start: between select and update it holds the
  row's lock and the row is as read; before the commit its range follows the counter; and a
  range that was given out is between the counter's first value and the present one.
\<close>

fun gen_ok :: "(string \<Rightarrow> 'k) \<Rightarrow> ('k \<Rightarrow> int) \<Rightarrow> ('d, 'i, 'k, int option) view \<Rightarrow> 'd \<Rightarrow> 'i \<Rightarrow> gen_call \<Rightarrow> bool" where
  "gen_ok key B V d i (GSelect s) \<longleftrightarrow> gone V d i \<or> pend V d i = Map.empty"
| "gen_ok key B V d i (GInsert s) \<longleftrightarrow> gone V d i \<or> pend V d i = Map.empty"
| "gen_ok key B V d i (GUpdate s c) \<longleftrightarrow> gone V d i \<or>
     pend V d i = Map.empty \<and> key s \<in> locks V d i \<and> row V d (key s) = Some c"
| "gen_ok key B V d i (GCommit s r) \<longleftrightarrow> gone V d i \<or>
     pend V d i = [key s \<mapsto> Some (Max_id r)] \<and> key s \<in> locks V d i \<and>
     Min_id r = counter (row V d (key s)) + 1 \<and> Max_id r = counter (row V d (key s)) + 100"
| "gen_ok key B V d i (GServed s r) \<longleftrightarrow>
     B (key s) < Min_id r \<and> Max_id r = Min_id r + 99 \<and> Max_id r \<le> counter (row V d (key s))"
| "gen_ok key B V d i _ \<longleftrightarrow> True"

text \<open>The counters leave room for so many more batches.\<close>

definition room :: "('k \<Rightarrow> int) \<Rightarrow> ('d, 'i, 'k, int option) view \<Rightarrow> nat \<Rightarrow> 'd \<Rightarrow> bool" where
  "room B V k d \<longleftrightarrow>
     (\<forall>x. 0 \<le> B x \<and> B x \<le> counter (row V d x) \<and> counter (row V d x) + 100 * int k < 2 ^ 63)"

definition ids_good where
  "ids_good key db V \<longleftrightarrow> transactions db V \<and> id_statements key db V"

lemma scan_int64_IntV:
  assumes "scan_int64 (IntV n) = Inr c"
  shows "c = n"
proof (cases "- (2 ^ 63) \<le> n \<and> n < 2 ^ 63")
  case True
  with assms ParseInt_FormatInt [of n] show ?thesis by simp
next
  case False
  then have "ParseInt (FormatInt n) = Inl (ErrMsg ''value out of range'')"
    using dec_digits by (auto simp: ParseInt_def FormatInt_def dec_no_sign Let_def list_all_iff)
  with assms show ?thesis by simp
qed

text \<open>The answers to the select, the insert and the update, one by one.\<close>

lemma gen_select_step:
  assumes good: "ids_good key db V" and call: "db d i (QueryRow select_value [StrV s]) a d'"
    and p: "pend V d i = Map.empty" and fit: "fits (QueryRow select_value [StrV s]) a"
  shows "gen_ok key B V d' i (gen_next (GSelect s) a)"
proof -
  have T: "transactions db V" and S: "id_statements key db V" using good by (simp_all add: ids_good_def)
  have p': "pend V d' i = Map.empty" by (rule id_statementsD(1) [OF S call p])
  show ?thesis
  proof (cases a)
    case (Row v)
    with id_statementsD(2) [OF S call [unfolded Row] p]
    obtain n where "key s \<in> locks V d' i" "row V d (key s) = Some n" "v = IntV n" by blast
    with transactionsD(2) [OF T call] p' show ?thesis
      by (auto simp: Row simp del: scan_int64.simps dest: scan_int64_IntV split: sum.splits)
  qed (use fit p' in simp_all)
qed

lemma gen_insert_step:
  assumes good: "ids_good key db V" and call: "db d i (Exec insert_value [StrV s, IntV BatchSize]) a d'"
    and p: "pend V d i = Map.empty" and fit: "fits (Exec insert_value [StrV s, IntV BatchSize]) a"
  shows "gen_ok key B V d' i (gen_next (GInsert s) a)"
proof (cases a)
  case (Result r)
  have T: "transactions db V" and S: "id_statements key db V" using good by (simp_all add: ids_good_def)
  have new: "row V d (key s) = None" "pend V d' i = [key s \<mapsto> Some BatchSize]"
    using id_statementsD(3) [OF S call [unfolded Result] p] by simp_all
  have "key s \<in> locks V d' i" using transactionsD(5) [OF T call, of "key s"] new p by simp
  with new transactionsD(2) [OF T call] show ?thesis by (simp add: Result BatchSize_def)
qed (use fit in simp_all)

lemma gen_update_step:
  assumes good: "ids_good key db V" and room: "room B V (Suc k) d"
    and call: "db d i (Exec update_value [IntV (upperValue n), StrV s]) a d'"
    and ok: "gen_ok key B V d i (GUpdate s n)" and live: "\<not> gone V d i" and fit: "fits (Exec update_value [IntV (upperValue n), StrV s]) a"
  shows "gen_ok key B V d' i (gen_next (GUpdate s n) a)"
proof (cases a)
  case (Result x)
  have T: "transactions db V" and S: "id_statements key db V" using good by (simp_all add: ids_good_def)
  have r: "row V d (key s) = Some n" and p: "pend V d i = Map.empty" and l: "key s \<in> locks V d i"
    using ok live by simp_all
  have "0 \<le> B (key s)" "B (key s) \<le> n" "n + 100 * (int k + 1) < 2 ^ 63"
    using room r unfolding room_def by (metis counter.simps(2) of_nat_Suc add.commute)+
  then have b: "upperValue n = n + 100" "lowerValue n = n + 1"
    by (simp_all add: upperValue_def lowerValue_def BatchSize_def)
  have "pend V d' i = [key s \<mapsto> Some (upperValue n)]"
    using id_statementsD(4) [OF S call [unfolded Result]] r p by simp
  moreover have "row V d' = row V d" "locks V d i \<subseteq> locks V d' i" using transactionsD(2,6) [OF T call] Result by auto
  ultimately show ?thesis using l r by (auto simp: Result b)
qed (use fit in simp_all)

lemma gen_own_step:
  assumes good: "ids_good key db V" and room: "room B V (Suc k) d" and call: "db d i q a d'"
    and ok: "gen_ok key B V d i c" and op: "gen_op i c = Some q" and fit: "fits q a"
  shows "gen_ok key B V d' i (gen_next c a)"
proof -
  have T: "transactions db V" using good by (simp add: ids_good_def)
  have failed: "gen_ok key B V d' i (gen_next c (Err e))" for e by (cases c) (use op in simp_all)
  have err: "\<exists>e. a = Err e" if "gone V d i" "q \<notin> {Begin, Rollback}" using transactionsD(8) [OF T call] that by blast
  show ?thesis
  proof (cases c)
    case (GBegin s)
    with op fit transactionsD(4) [OF T call] show ?thesis by (cases a) auto
  next
    case (GSelect s)
    with gen_select_step [OF good] call ok op fit failed err show ?thesis by (cases "gone V d i") auto
  next
    case (GInsert s)
    with gen_insert_step [OF good] call ok op fit failed err show ?thesis by (cases "gone V d i") auto
  next
    case (GUpdate s n)
    with gen_update_step [OF good room] call ok op fit failed err show ?thesis by (cases "gone V d i") auto
  next
    case (GCommit s r)
    with op have q: "q = Commit" by simp
    have B: "B (key s) \<le> counter (row V d (key s))" using room by (simp add: room_def)
    show ?thesis
    proof (cases a)
      case Ok
      then have "\<not> gone V d i" using err q by auto
      with Ok transactionsD(3) [OF T call q] ok B GCommit show ?thesis by auto
    qed (use fit q GCommit in simp_all)
  qed (use op in simp_all)
qed

text \<open>The step of another call changes a row only by the commit of that call's range.\<close>

lemma gen_row_step:
  assumes T: "transactions db V" "db d j q a d'" and ok: "gen_ok key B V d j c" and op: "gen_op j c = Some q"
  shows "row V d' x = row V d x \<or>
    (\<exists>s r. c = GCommit s r \<and> x = key s \<and> row V d' x = Some (counter (row V d x) + 100))"
proof (cases "q = Commit \<and> \<not> gone V d j")
  case True
  then have q: "q = Commit" by simp
  with op obtain s r where c: "c = GCommit s r" by (cases c) simp_all
  with ok True have p: "pend V d j = [key s \<mapsto> Some (Max_id r)]" "Max_id r = counter (row V d (key s)) + 100"
    by simp_all
  show ?thesis
  proof (cases "x = key s")
    case x: True
    with transactionsD(3) [OF T q] p c show ?thesis by auto
  next
    case False
    with commit_other_row [OF T(1) T(2) [unfolded q] p(1)] show ?thesis by simp
  qed
next
  case False
  with row_unchanged [OF T] show ?thesis by simp
qed

lemma gen_counter_mono:
  assumes "transactions db V" "db d j q a d'" and "gen_ok key B V d j c" and "gen_op j c = Some q"
  shows "counter (row V d x) \<le> counter (row V d' x)" and "counter (row V d' x) \<le> counter (row V d x) + 100"
  using gen_row_step [OF assms, of x] by auto

lemma gen_other_step:
  assumes T: "transactions db V" "db d j q a d'" and inv: "txn_inv V d" and ij: "i \<noteq> j"
    and ok: "gen_ok key B V d i c" and okj: "gen_ok key B V d j cj" and op: "gen_op j cj = Some q"
  shows "gen_ok key B V d' i c"
proof -
  note same = transactionsD(1) [OF T ij]
  have locked: "row V d' x = row V d x" if "x \<in> locks V d i" for x
    by (rule row_locked [OF T inv that ij])
  note mono = gen_counter_mono(1) [OF T okj op]
  show ?thesis using ok locked same by (cases c) (auto intro: order_trans [OF _ mono])
qed

lemma room_step:
  assumes "transactions db V" "db d j q a d'" and "gen_ok key B V d j c" and "gen_op j c = Some q"
    and "room B V (Suc k) d"
  shows "room B V k d'"
  unfolding room_def
proof
  fix x
  have "0 \<le> B x" "B x \<le> counter (row V d x)" "counter (row V d x) + 100 * (int k + 1) < 2 ^ 63"
    using assms(5) unfolding room_def by (metis of_nat_Suc add.commute)+
  with gen_counter_mono [OF assms(1-4), of x]
  show "0 \<le> B x \<and> B x \<le> counter (row V d' x) \<and> counter (row V d' x) + 100 * int k < 2 ^ 63"
    by (simp add: algebra_simps)
qed

interpretation ids: txn_clients "\<lambda>d. ids_good key db V \<and> (\<exists>k. room B V (Suc k) d)" UNIV db V gen_op gen_next
    "gen_ok key B V" for key db V B
  by unfold_locales (auto simp: ids_good_def intro: gen_own_step gen_other_step)

text \<open>Of two ranges of a row that were given out, one is below the other.\<close>

definition separate :: "(string \<Rightarrow> 'k) \<Rightarrow> ('i \<Rightarrow> gen_call) \<Rightarrow> bool" where
  "separate key cs \<longleftrightarrow>
     (\<forall>i j s t r r'. i \<noteq> j \<longrightarrow> cs i = GServed s r \<longrightarrow> cs j = GServed t r' \<longrightarrow> key s = key t \<longrightarrow>
        Max_id r < Min_id r' \<or> Max_id r' < Min_id r)"

lemma gen_served:
  assumes "gen_op i c = Some q" and "gen_next c a = GServed s r" and "gen_ok key B V d i c"
    and T: "transactions db V" "db d i q a d'"
  shows "counter (row V d (key s)) < Min_id r"
proof -
  from assms(1,2) have c: "c = GCommit s r" and a: "a = Ok"
    by (cases c; cases a; auto split: sum.splits)+
  with transactionsD(8) [OF T] assms(1) have "\<not> gone V d i" by auto
  with c assms(3) show ?thesis by simp
qed

lemma separate_step:
  assumes "separate key cs" and ok: "\<And>j. gen_ok key B V d j (cs j)" and op: "gen_op i (cs i) = Some q"
    and T: "transactions db V" "db d i q a d'"
  shows "separate key (cs(i := gen_next (cs i) a))"
proof -
  have new: "Max_id r' < Min_id r"
    if "gen_next (cs i) a = GServed s r" and "j \<noteq> i" and "cs j = GServed t r'" and "key s = key t" for s r j t r'
    using gen_served [OF op that(1) ok T] ok [of j] that(3,4) by simp
  show ?thesis
    unfolding separate_def
  proof (intro allI impI)
    fix j k s t r r'
    assume jk: "j \<noteq> k" and j: "(cs(i := gen_next (cs i) a)) j = GServed s r"
      and k: "(cs(i := gen_next (cs i) a)) k = GServed t r'" and "key s = key t"
    consider "j = i" | "k = i" | "j \<noteq> i" "k \<noteq> i" by blast
    then show "Max_id r < Min_id r' \<or> Max_id r' < Min_id r"
    proof cases
      case 1
      with new [of s r k t r'] jk j k \<open>key s = key t\<close> show ?thesis by simp
    next
      case 2
      with new [of t r' j s r] jk j k \<open>key s = key t\<close> show ?thesis by simp
    next
      case 3
      with j k jk \<open>key s = key t\<close> assms(1) show ?thesis unfolding separate_def by simp
    qed
  qed
qed

definition ids_inv where
  "ids_inv key db V B k s \<longleftrightarrow>
     (ids_good key db V \<longrightarrow> room B V k (fst s) \<and> txn_clients.clients_inv V (gen_ok key B V) s \<and> separate key (snd s))"

lemma ids_inv_step:
  assumes "sys_step UNIV db gen_op gen_next s l t" and "ids_inv key db V B (Suc k) s"
  shows "ids_inv key db V B k t"
  unfolding ids_inv_def
proof
  assume good: "ids_good key db V"
  with assms(2) have inv: "room B V (Suc k) (fst s)" "txn_clients.clients_inv V (gen_ok key B V) s" "separate key (snd s)"
    by (simp_all add: ids_inv_def)
  have "txn_clients.clients_inv V (gen_ok key B V) t"
    using ids.clients_step [OF assms(1) _ inv(2)] good inv(1) by blast
  moreover have "room B V k (fst t) \<and> separate key (snd t)"
    using assms(1)
  proof cases
    case (step i cs q d a d')
    have ok: "gen_ok key B V d j (cs j)" for j using inv(2) step by (simp add: ids.clients_ok)
    have T: "transactions db V" using good by (simp add: ids_good_def)
    show ?thesis
      using room_step [OF T step(6) ok step(5)] separate_step [OF _ ok step(5) T step(6)] inv step by simp
  qed
  ultimately show "room B V k (fst t) \<and> txn_clients.clients_inv V (gen_ok key B V) t \<and> separate key (snd t)" by blast
qed

interpretation ids_sys: counted_system "sys_step UNIV db gen_op gen_next" "ids_inv key db V B" for db key V B
  by unfold_locales (rule ids_inv_step)

text \<open>
  C13. However the requests interleave, whichever operations fail and whichever transactions the server
  ends, the batches given out for a
  service have a hundred ids each, above every id the counter had reached before, and no id is
  in two of them, as long as the counters are far enough from the largest \<^verbatim>\<open>int64\<close> for the
  number of operations.
\<close>

theorem batches_disjoint:
  assumes "run (sys_step UNIV db gen_op gen_next) (d, \<lambda>i. generate_start (queries i)) ls (d', cs)"
    and "idle_db V d" and "transactions db V" and "id_statements key db V"
    and "\<forall>x. 0 \<le> counter (row V d x) \<and> counter (row V d x) + 100 * int (length ls) < 2 ^ 63"
    and "cs i = GServed s r"
  shows "Max_id r = Min_id r + 99 \<and> counter (row V d (key s)) < Min_id r \<and>
    Max_id r \<le> counter (row V d' (key s)) \<and>
    (\<forall>j t r'. j \<noteq> i \<longrightarrow> cs j = GServed t r' \<longrightarrow> key t = key s \<longrightarrow>
       {Min_id r..Max_id r} \<inter> {Min_id r'..Max_id r'} = {})"
proof -
  let ?B = "\<lambda>x. counter (row V d x)"
  have good: "ids_good key db V" using assms by (simp add: ids_good_def)
  have "gen_ok key ?B V d i (generate_start (queries i))" for i by (simp add: generate_start_def)
  then have "ids_inv key db V ?B (length ls + 0) (d, \<lambda>i. generate_start (queries i))"
    using assms(5) ids.clients_start [OF assms(2)] by (simp add: ids_inv_def room_def separate_def generate_start_def)
  then have "ids_inv key db V ?B 0 (d', cs)" by (rule ids_sys.counted_run [OF assms(1)])
  with good have inv: "txn_clients.clients_inv V (gen_ok key ?B V) (d', cs)" and sep: "separate key cs"
    by (simp_all add: ids_inv_def)
  have "gen_ok key ?B V d' i (cs i)" by (rule ids.clients_ok [OF inv])
  moreover have "{Min_id r..Max_id r} \<inter> {Min_id r'..Max_id r'} = {}"
    if "j \<noteq> i" and "cs j = GServed t r'" and "key t = key s" for j t r'
    using sep assms(6) that unfolding separate_def by fastforce
  ultimately show ?thesis using assms(6) by auto
qed

section \<open>The course of a request\<close>

text \<open>One call and the answers it gets.\<close>

fun gen_talk :: "gen_call \<Rightarrow> sql_value db_op \<times> sql_value db_answer \<Rightarrow> gen_call \<Rightarrow> bool" where
  "gen_talk c (q, a) c' \<longleftrightarrow> gen_op () c = Some q \<and> fits q a \<and> c' = gen_next c a"

text \<open>The operations that may still come.\<close>

fun gen_left :: "gen_call \<Rightarrow> nat" where
  "gen_left (GBegin s) = 4"
| "gen_left (GSelect s) = 3"
| "gen_left (GInsert s) = 2"
| "gen_left (GUpdate s c) = 2"
| "gen_left (GCommit s r) = 1"
| "gen_left GRollback = 1"
| "gen_left _ = 0"

lemma gen_talk_left: "gen_talk c l c' \<Longrightarrow> gen_left c' < gen_left c"
  by (cases l; cases c; cases "snd l") (auto split: sum.splits)

lemma gen_run_left: "run gen_talk c ls c' \<Longrightarrow> length ls + gen_left c' \<le> gen_left c"
  by (induction rule: run.induct) (auto dest: gen_talk_left)

lemma gen_op_None: "gen_op i c = None \<longleftrightarrow> gen_left c = 0"
  by (cases c) simp_all

text \<open>A call inside its transaction, and how it leaves it.\<close>

definition in_txn :: "gen_call \<Rightarrow> bool" where
  "in_txn c \<longleftrightarrow> gen_left c \<noteq> 0 \<and> (\<forall>s. c \<noteq> GBegin s)"

definition txn_end :: "sql_value db_op \<times> sql_value db_answer \<Rightarrow> gen_call \<Rightarrow> bool" where
  "txn_end l c \<longleftrightarrow> fst l \<in> {Commit, Rollback} \<and> (l = (Commit, Ok) \<longleftrightarrow> (\<exists>s r. c = GServed s r))"

lemma in_txn_talk: "gen_talk c l c' \<Longrightarrow> in_txn c \<Longrightarrow> in_txn c' \<or> gen_left c' = 0 \<and> txn_end l c'"
  by (cases l; cases c; cases "snd l") (auto simp: in_txn_def txn_end_def split: sum.splits)

lemma in_txn_run:
  "run gen_talk c ls c' \<Longrightarrow> in_txn c \<Longrightarrow> gen_left c' = 0 \<Longrightarrow> ls \<noteq> [] \<and> txn_end (last ls) c'"
proof (induction rule: run.induct)
  case (run_Cons c l d ls c')
  from in_txn_talk [OF run_Cons.hyps(1) run_Cons.prems(1)] show ?case
  proof
    assume "in_txn d"
    with run_Cons show ?thesis by simp
  next
    assume d: "gen_left d = 0 \<and> txn_end l d"
    with run_Cons.hyps(2) have "ls = [] \<and> d = c'"
      by (cases ls) (auto dest: gen_talk_left gen_run_left)
    with d show ?thesis by simp
  qed
qed (simp add: in_txn_def)

text \<open>
  C40. A request ends after at most four operations, whatever the database answers: it is
  rejected before any of them, or its transaction could not begin, or it ends its transaction
  with a commit or a rollback, and it gives out a range exactly when the commit succeeded.
\<close>

theorem generate_ends:
  assumes "run gen_talk (generate_start query) ls c" and "gen_op () c = None"
  shows "length ls \<le> 4 \<and>
    (ls = [] \<and> c = GRejected \<or> (\<exists>e. ls = [(Begin, Err e)]) \<and> c = GFailed \<or>
     2 \<le> length ls \<and> hd ls = (Begin, Ok) \<and> fst (last ls) \<in> {Commit, Rollback} \<and>
     (last ls = (Commit, Ok) \<longleftrightarrow> (\<exists>s r. c = GServed s r)))"
proof (cases ls)
  case Nil
  with assms show ?thesis by (auto simp: generate_start_def split: if_splits)
next
  case (Cons l ls')
  with assms(1) obtain d where d: "gen_talk (generate_start query) l d" "run gen_talk d ls' c" by auto
  have fin: "gen_left c = 0" by (rule assms(2) [THEN gen_op_None [THEN iffD1]])
  obtain s where st: "generate_start query = GBegin s"
    using d(1) by (cases l) (auto simp: generate_start_def split: if_splits)
  have len: "length ls \<le> 4" using gen_run_left [OF assms(1)] st by simp
  from d(1) st consider e where "l = (Begin, Err e)" "d = GFailed" | "l = (Begin, Ok)" "d = GSelect s"
    by (cases l) auto
  then show ?thesis
  proof cases
    case 1
    with d(2) have "ls' = [] \<and> c = GFailed" by (cases ls') (auto dest: gen_talk_left)
    with 1 Cons show ?thesis by simp
  next
    case 2
    then have "ls' \<noteq> [] \<and> txn_end (last ls') c" using in_txn_run [OF d(2)] fin by (simp add: in_txn_def)
    with 2 Cons len show ?thesis by (cases ls') (auto simp: txn_end_def)
  qed
qed

section \<open>The answer of a request\<close>

lemma FormatInt_append_inject:
  assumes "\<not> is_digit c" and "c \<noteq> CHR ''-''"
  shows "FormatInt m @ c # s = FormatInt n @ c # t \<longleftrightarrow> m = n \<and> s = t"
proof -
  have sign: "dec k @ u \<noteq> CHR ''-'' # v" for k u v
    using dec_no_sign(1) [of k] by (cases "dec k") simp_all
  show ?thesis
    using dec_append_inject [OF assms(1,1)] sign by (auto simp: FormatInt_def dest: sym)
qed

lemma FormatInt_inject [simp]: "FormatInt m = FormatInt n \<longleftrightarrow> m = n"
  using FormatInt_append_inject [of "CHR '',''" m "[]" n "[]"] by (auto simp: is_digit_def)

lemma json_range_inject: "json_range r = json_range r' \<longleftrightarrow> r = r'"
proof -
  have "\<not> is_digit (CHR '','')" by (simp add: is_digit_def)
  from FormatInt_append_inject [OF this] show ?thesis
    by (cases r; cases r') (auto simp: json_range_def)
qed

text \<open>
  A served request is answered with status 200 and the JSON object of its range, from which
  the range can be read back; the content type is set only after the status line was written, so
  the client gets none of the headers the handler set.
\<close>

theorem served_response:
  "\<exists>w. generate_response None (GServed s r) = Return w \<and> status w = Some 200 \<and>
     w_body w = text_bytes (json_range r) \<and> (\<forall>r'. json_range r' = json_range r \<longrightarrow> r' = r) \<and>
     w_header w ''Content-Type'' = [''application/json''] \<and> sent_header w ''Content-Type'' = []"
proof -
  have "CanonicalHeaderKey ''Content-Type'' = ''Content-Type''" by code_simp
  then show ?thesis
    by (simp add: WriteHeader_def writeJSONResponse_def Write_def new_writer_def header_Set_def json_range_inject)
qed

text \<open>The other answers: status 500 without a body for a failure, 400 for a missing name.\<close>

lemma failed_response:
  "\<exists>w. generate_response b GFailed = Return w \<and> status w = Some 500 \<and> w_body w = []"
  by (simp add: WriteHeader_def new_writer_def)

section \<open>A database that keeps the promises\<close>

type_synonym id_mem = "(nat, string, int option) mem"

inductive id_db :: "(id_mem, nat, sql_value, sql_value) database" where
  i_begin: "id_db d i Begin Ok (mem_end i d)"
| i_row: "m_row d s = Some n \<Longrightarrow> mem_free d i s \<Longrightarrow>
    id_db d i (QueryRow select_value [StrV s]) (Row (IntV n)) (mem_lock i s d)"
| i_no_row: "m_row d s = None \<Longrightarrow> mem_free d i s \<Longrightarrow> id_db d i (QueryRow select_value [StrV s]) NoRows d"
| i_insert: "m_row d s = None \<Longrightarrow> mem_free d i s \<Longrightarrow>
    id_db d i (Exec insert_value [StrV s, IntV n]) (Result (Inr 1)) (mem_write i s (Some n) d)"
| i_duplicate: "id_db d i (Exec insert_value [StrV s, IntV n]) (Err e) d"
| i_update: "m_row d s \<noteq> None \<Longrightarrow> mem_free d i s \<Longrightarrow>
    id_db d i (Exec update_value [IntV n, StrV s]) (Result (Inr 1)) (mem_write i s (Some n) d)"
| i_commit: "id_db d i Commit Ok (mem_commit i d)"
| i_rollback: "id_db d i Rollback Ok (mem_end i d)"

lemma id_sql_distinct [simp]: "insert_value \<noteq> update_value" "update_value \<noteq> insert_value"
  by (simp_all add: insert_value_def update_value_def)

lemma id_db_transactions: "transactions id_db mem_view"
  unfolding transactions_def by (auto elim!: id_db.cases intro!: mem_calls(1-5))

lemma id_db_statements: "id_statements (\<lambda>s. s) id_db mem_view"
  unfolding id_statements_def
  by (intro conjI allI impI) (auto elim!: id_db.cases simp: mem_defs)

lemma id_step:
  assumes "id_db d i q a d'" and "gen_op i (cs i) = Some q" and "fits q a" and "cs' = cs(i := gen_next (cs i) a)"
  shows "sys_step UNIV id_db gen_op gen_next (d, cs) (i, q, a) (d', cs')"
  unfolding assms(4) using assms(1-3) by (intro sys_step.step) simp_all

text \<open>Two requests that overlap: the first makes the row, the second finds it.\<close>

definition svc_a :: url_values where
  "svc_a = (\<lambda>_. [])(ServiceName := [''a''])"

lemma svc_a_start [simp]: "generate_start svc_a = GBegin ''a''"
  by (simp add: generate_start_def svc_a_def url_Get_def)

lemma two_requests:
  "\<exists>ls d' cs. run (sys_step UNIV id_db gen_op gen_next) (mem_idle (\<lambda>_. None), \<lambda>i. generate_start svc_a) ls (d', cs) \<and>
     length ls = 8 \<and> cs 1 = GServed ''a'' \<lparr>Min_id = 1, Max_id = 100\<rparr> \<and> cs 2 = GServed ''a'' \<lparr>Min_id = 101, Max_id = 200\<rparr>"
proof -
  let ?S = "sys_step UNIV id_db gen_op gen_next"
  let ?c = "\<lambda>x y. (\<lambda>_. GBegin ''a'')(1 := x, 2 := y)"
  obtain d0 :: id_mem where d0: "d0 = mem_idle (\<lambda>_. None)" by blast
  obtain d1 where d1: "d1 = mem_end 1 d0" by blast
  obtain d2 where d2: "d2 = mem_end 2 d1" by blast
  obtain d3 where d3: "d3 = mem_write 1 ''a'' (Some BatchSize) d2" by blast
  obtain d4 where d4: "d4 = mem_commit 1 d3" by blast
  obtain d5 where d5: "d5 = mem_lock 2 ''a'' d4" by blast
  obtain d6 where d6: "d6 = mem_write 2 ''a'' (Some (upperValue 100)) d5" by blast
  note ds = d0 d1 d2 d3 d4 d5 d6 mem_defs mem_idle_def BatchSize_def
  have r2: "m_row d2 ''a'' = None" "mem_free d2 1 ''a''" by (simp_all add: ds)
  have r4: "m_row d4 ''a'' = Some 100" "mem_free d4 2 ''a''" by (simp_all add: ds)
  have r5: "m_row d5 ''a'' \<noteq> None" "mem_free d5 2 ''a''" by (simp_all add: ds)
  let ?r1 = "\<lparr>Min_id = 1, Max_id = 100\<rparr>" and ?r2 = "\<lparr>Min_id = 101, Max_id = 200\<rparr>"
  have scan: "scan_int64 (IntV 100) = Inr 100" using ParseInt_FormatInt [of 100] by simp
  have 1: "?S (d0, \<lambda>_. GBegin ''a'') (1, Begin, Ok) (d1, ?c (GSelect ''a'') (GBegin ''a''))"
    unfolding d1 by (rule id_step [OF i_begin]) auto
  have 2: "?S (d1, ?c (GSelect ''a'') (GBegin ''a'')) (2, Begin, Ok) (d2, ?c (GSelect ''a'') (GSelect ''a''))"
    unfolding d2 by (rule id_step [OF i_begin]) auto
  have 3: "?S (d2, ?c (GSelect ''a'') (GSelect ''a'')) (1, QueryRow select_value [StrV ''a''], NoRows)
      (d2, ?c (GInsert ''a'') (GSelect ''a''))"
    by (rule id_step [OF i_no_row [OF r2]]) auto
  have 4: "?S (d2, ?c (GInsert ''a'') (GSelect ''a'')) (1, Exec insert_value [StrV ''a'', IntV BatchSize], Result (Inr 1))
      (d3, ?c (GCommit ''a'' ?r1) (GSelect ''a''))"
    unfolding d3 by (rule id_step [OF i_insert [OF r2]]) (auto simp: BatchSize_def)
  have 5: "?S (d3, ?c (GCommit ''a'' ?r1) (GSelect ''a'')) (1, Commit, Ok) (d4, ?c (GServed ''a'' ?r1) (GSelect ''a''))"
    unfolding d4 by (rule id_step [OF i_commit]) auto
  have 6: "?S (d4, ?c (GServed ''a'' ?r1) (GSelect ''a'')) (2, QueryRow select_value [StrV ''a''], Row (IntV 100))
      (d5, ?c (GServed ''a'' ?r1) (GUpdate ''a'' 100))"
    unfolding d5 by (rule id_step [OF i_row [OF r4]]) (auto simp: scan simp del: scan_int64.simps)
  have 7: "?S (d5, ?c (GServed ''a'' ?r1) (GUpdate ''a'' 100)) (2, Exec update_value [IntV (upperValue 100), StrV ''a''], Result (Inr 1))
      (d6, ?c (GServed ''a'' ?r1) (GCommit ''a'' ?r2))"
    unfolding d6 by (rule id_step [OF i_update [OF r5]]) (auto simp: lowerValue_def upperValue_def BatchSize_def)
  have 8: "?S (d6, ?c (GServed ''a'' ?r1) (GCommit ''a'' ?r2)) (2, Commit, Ok)
      (mem_commit 2 d6, ?c (GServed ''a'' ?r1) (GServed ''a'' ?r2))"
    by (rule id_step [OF i_commit]) auto
  have "\<exists>ls. run ?S (d0, \<lambda>_. GBegin ''a'') ls (mem_commit 2 d6, ?c (GServed ''a'' ?r1) (GServed ''a'' ?r2)) \<and> length ls = 8"
    by (intro exI conjI) (rule run_Cons, rule 1, rule run_Cons, rule 2, rule run_Cons, rule 3, rule run_Cons, rule 4,
      rule run_Cons, rule 5, rule run_Cons, rule 6, rule run_Cons, rule 7, rule run_Cons, rule 8, rule run_Nil, simp)
  then obtain ls where ls: "run ?S (d0, \<lambda>_. GBegin ''a'') ls (mem_commit 2 d6, ?c (GServed ''a'' ?r1) (GServed ''a'' ?r2))"
    "length ls = 8" by blast
  show ?thesis
    using ls d0 by (intro exI [of _ ls] exI [of _ "mem_commit 2 d6"] exI [of _ "?c (GServed ''a'' ?r1) (GServed ''a'' ?r2)"]) simp
qed

theorem batches_disjoint_witness:
  "\<exists>ls d' cs. run (sys_step UNIV id_db gen_op gen_next) (mem_idle (\<lambda>_. None), \<lambda>i. generate_start svc_a) ls (d', cs) \<and>
     cs 2 = GServed ''a'' \<lparr>Min_id = 101, Max_id = 200\<rparr> \<and> 200 \<le> counter (row mem_view d' ''a'')"
proof -
  obtain ls d' cs where r: "run (sys_step UNIV id_db gen_op gen_next) (mem_idle (\<lambda>_. None), \<lambda>i. generate_start svc_a) ls (d', cs)"
    and len: "length ls = 8" and c: "cs 2 = GServed ''a'' \<lparr>Min_id = 101, Max_id = 200\<rparr>"
    using two_requests by blast
  have "\<forall>x. 0 \<le> counter (row mem_view (mem_idle (\<lambda>_. None) :: id_mem) x) \<and>
      counter (row mem_view (mem_idle (\<lambda>_. None) :: id_mem) x) + 100 * int (length ls) < 2 ^ 63"
    by (simp add: len mem_idle_def)
  from batches_disjoint [OF r mem_idle_db id_db_transactions id_db_statements this c]
  have "200 \<le> counter (row mem_view d' ''a'')" by simp
  with r c show ?thesis by blast
qed

theorem generate_ends_witness:
  "length [(Begin, Ok), (QueryRow select_value [StrV ''a''], Err EIO), (Rollback, Ok :: sql_value db_answer)] \<le> 4"
proof -
  have r: "run gen_talk (generate_start svc_a)
      [(Begin, Ok), (QueryRow select_value [StrV ''a''], Err EIO), (Rollback, Ok)] GFailed"
    by simp
  show ?thesis by (rule conjunct1 [OF generate_ends [OF r]]) simp
qed

end
