(* ===== verification/Web_Handlers.thy ===== *)
theory Web_Handlers
  imports Go_HTTP
begin

text \<open>
  The small HTTP servers: the counting server of src/http-server, the demonstration backend of
  src/load-balancer/backend_server and the handler around the chat server of
  src/communication-mechanisms/websockets, whose Socket.IO library is a parameter.
\<close>

section \<open>The counting server\<close>

text \<open>The section under the mutex: the count a request sees, and the next one.\<close>

definition count_request :: "int \<Rightarrow> int \<times> int" where
  "count_request count = (count, wrap64 (count + 1))"

definition web_handler :: "string \<Rightarrow> Writer \<Rightarrow> Writer outcome" where
  "web_handler path w =
     (if path \<noteq> ''/'' then NotFound w else Return (Write (text_bytes (''Hello from Golang server'' @ [CHR 0x0A])) w))"

definition web_faviconHandler :: "Writer \<Rightarrow> Writer outcome" where
  "web_faviconHandler w = NotFound w"

text \<open>A request in turn: \<^verbatim>\<open>handler\<close> with its section, and the counts of a sequence of requests.\<close>

definition web_request :: "string \<Rightarrow> int \<Rightarrow> int \<times> int \<times> Writer outcome" where
  "web_request path count = (let (currentCount, count) = count_request count in (currentCount, count, web_handler path new_writer))"

fun request_counts :: "string list \<Rightarrow> int \<Rightarrow> int list" where
  "request_counts [] count = []"
| "request_counts (p # ps) count = fst (web_request p count) # request_counts ps (fst (snd (web_request p count)))"

lemma request_counts:
  "0 \<le> count \<Longrightarrow> count + int (length ps) < 2 ^ 63 \<Longrightarrow>
    request_counts ps count = map (\<lambda>i. count + int i) [0..<length ps]"
proof (induction ps arbitrary: count)
  case (Cons p ps)
  have "map (\<lambda>i. count + int i) [0..<Suc (length ps)] = count # map (\<lambda>i. count + 1 + int i) [0..<length ps]"
    unfolding upt_conv_Cons [OF zero_less_Suc] list.map by (simp add: map_Suc_upt [symmetric] comp_def add.commute add.left_commute del: map_Suc_upt upt_Suc)
  with Cons show ?case by (simp add: web_request_def count_request_def)
qed simp

section \<open>The demonstration backend\<close>

definition backend_response :: "string \<Rightarrow> Writer \<Rightarrow> Writer outcome" where
  "backend_response port w = write_all 200 (text_bytes (''Response from server on port '' @ port @ [CHR 0x0A])) w"

section \<open>The chat server's outer handler\<close>

text \<open>The headers for other origins, and the answer to a preflight request; \<open>serve\<close> is the mux behind it.\<close>

definition cors_headers :: "headers \<Rightarrow> headers" where
  "cors_headers h =
     header_Set ''Access-Control-Allow-Headers'' ''Content-Type''
       (header_Set ''Access-Control-Allow-Methods'' ''GET, POST, OPTIONS''
         (header_Set ''Access-Control-Allow-Origin'' ''*'' h))"

definition loggedMux :: "(Writer \<Rightarrow> Writer outcome) \<Rightarrow> string \<Rightarrow> Writer \<Rightarrow> Writer outcome" where
  "loggedMux serve meth w =
     (let w = w\<lparr>w_header := cors_headers (w_header w)\<rparr>
      in if meth = ''OPTIONS'' then WriteHeader 200 w else serve w)"

text \<open>A preflight request is answered with status 200, the headers and no body.\<close>

lemma preflight:
  "\<exists>w. loggedMux serve ''OPTIONS'' new_writer = Return w \<and> status w = Some 200 \<and> w_body w = [] \<and>
     sent_header w ''Access-Control-Allow-Origin'' = [''*'']"
proof -
  have "CanonicalHeaderKey ''Access-Control-Allow-Origin'' = ''Access-Control-Allow-Origin''"
    "CanonicalHeaderKey ''Access-Control-Allow-Methods'' = ''Access-Control-Allow-Methods''"
    "CanonicalHeaderKey ''Access-Control-Allow-Headers'' = ''Access-Control-Allow-Headers''" by code_simp+
  then show ?thesis by (simp add: loggedMux_def WriteHeader_def new_writer_def cors_headers_def header_Set_def)
qed

end
