(* ===== verification/Chat_Room.thy ===== *)
theory Chat_Room
  imports Web_Handlers "HOL-Library.Multiset"
begin

text \<open>
  The chat server of src/communication-mechanisms/websockets: what its event handlers do with the
  Socket.IO server. The Socket.IO library, which keeps the connections and their rooms and runs the
  handlers of different connections side by side, is a parameter; the theorem assumes what the
  library documents about rooms.
\<close>

section \<open>The Socket.IO server as the program sees it\<close>

text \<open>
  The calls the handlers make, on a state of the library: the context of a connection, joining
  a room, and a broadcast of an event to a room of a namespace. \<open>Accept\<close> and \<open>Drop\<close> are the
  library's own bookkeeping of a connection before and after it calls the program.
\<close>

record chat_message =
  Username :: string
  Message :: string

type_synonym sid = nat

record 'r socketio =
  Accept :: "sid \<Rightarrow> 'r \<Rightarrow> 'r"
  Drop :: "sid \<Rightarrow> 'r \<Rightarrow> 'r"
  SetContext :: "sid \<Rightarrow> string \<Rightarrow> 'r \<Rightarrow> 'r"
  Join_room :: "sid \<Rightarrow> string \<Rightarrow> 'r \<Rightarrow> 'r"
  BroadcastToRoom :: "string \<Rightarrow> string \<Rightarrow> string \<Rightarrow> chat_message \<Rightarrow> 'r \<Rightarrow> 'r"

section \<open>The handlers\<close>

definition chatRoom :: string where
  "chatRoom = ''chat''"

text \<open>The origin check of both transports.\<close>

definition CheckOrigin :: "string \<Rightarrow> bool" where
  "CheckOrigin remoteAddr = True"

text \<open>
  The calls of the library that a handler makes, each of which the library carries out as one
  step, and what they do for the connection they are made for.
\<close>

datatype room_call =
    CallSetContext string
  | CallJoin string
  | CallBroadcast string string string chat_message

fun perform :: "'r socketio \<Rightarrow> sid \<Rightarrow> room_call \<Rightarrow> 'r \<Rightarrow> 'r" where
  "perform L s (CallSetContext c) r = SetContext L s c r"
| "perform L s (CallJoin room) r = Join_room L s room r"
| "perform L s (CallBroadcast namespace room event msg) r = BroadcastToRoom L namespace room event msg r"

text \<open>
  The handlers, as the calls they make in turn. \<^verbatim>\<open>OnConnect\<close> returns nil, so the library keeps the
  connection; \<^verbatim>\<open>OnError\<close> and \<^verbatim>\<open>OnDisconnect\<close> only log.
\<close>

definition OnConnect :: "room_call list \<times> go_error option" where
  "OnConnect = ([CallSetContext '''', CallJoin chatRoom], None)"

definition OnEvent_message :: "chat_message \<Rightarrow> room_call list" where
  "OnEvent_message msg = [CallBroadcast '''' chatRoom ''message'' msg]"

definition OnError :: "go_error \<Rightarrow> room_call list" where
  "OnError e = []"

definition OnDisconnect :: "string \<Rightarrow> room_call list" where
  "OnDisconnect reason = []"

text \<open>
  The server: the state of the library, and the handlers that are running, each with its connection
  and the calls it has still to make. The library starts the handler that is registered for
  an event; any running handler may make its next call at any time.
\<close>

record 'r chat =
  library :: 'r
  running :: "(sid \<times> room_call list) multiset"

datatype chat_event =
    Connected sid
  | Received sid chat_message
  | Errored sid go_error
  | Disconnected sid string
  | Called sid room_call

inductive chat_step :: "'r socketio \<Rightarrow> 'r chat \<Rightarrow> chat_event \<Rightarrow> 'r chat \<Rightarrow> bool" for L where
  connect: "OnConnect = (calls, None) \<Longrightarrow>
    chat_step L s (Connected c) (s\<lparr>library := Accept L c (library s), running := add_mset (c, calls) (running s)\<rparr>)"
| message: "chat_step L s (Received c m) (s\<lparr>running := add_mset (c, OnEvent_message m) (running s)\<rparr>)"
| error: "chat_step L s (Errored c e) (s\<lparr>running := add_mset (c, OnError e) (running s)\<rparr>)"
| disconnect: "chat_step L s (Disconnected c reason)
    (s\<lparr>library := Drop L c (library s), running := add_mset (c, OnDisconnect reason) (running s)\<rparr>)"
| call: "running s = add_mset (c, x # xs) H \<Longrightarrow>
    chat_step L s (Called c x) (s\<lparr>library := perform L c x (library s), running := add_mset (c, xs) H\<rparr>)"

definition chat_start :: "'r \<Rightarrow> 'r chat" where
  "chat_start r = \<lparr>library = r, running = {#}\<rparr>"

section \<open>What the library promises\<close>

text \<open>
  The members of a room of the default namespace, and the events written to a connection, without
  their order. A broadcast reaches the members of the room at that moment, once each, and nobody
  else; a connection that ends leaves its rooms.
\<close>

record 'r room_view =
  room_members :: "'r \<Rightarrow> string \<Rightarrow> sid set"
  sent_to :: "'r \<Rightarrow> sid \<Rightarrow> (string \<times> chat_message) multiset"

definition keeps_rooms :: "'r socketio \<Rightarrow> 'r room_view \<Rightarrow> bool" where
  "keeps_rooms L V \<longleftrightarrow>
     (\<forall>s r. room_members V (Accept L s r) = room_members V r \<and> sent_to V (Accept L s r) = sent_to V r) \<and>
     (\<forall>s x r. room_members V (SetContext L s x r) = room_members V r \<and> sent_to V (SetContext L s x r) = sent_to V r) \<and>
     (\<forall>s r. room_members V (Drop L s r) = (\<lambda>m. room_members V r m - {s}) \<and> sent_to V (Drop L s r) = sent_to V r) \<and>
     (\<forall>s m r. room_members V (Join_room L s m r) = (room_members V r)(m := insert s (room_members V r m)) \<and>
        sent_to V (Join_room L s m r) = sent_to V r) \<and>
     (\<forall>m e x r. room_members V (BroadcastToRoom L '''' m e x r) = room_members V r \<and>
        sent_to V (BroadcastToRoom L '''' m e x r) =
          (\<lambda>s. if s \<in> room_members V r m then add_mset (e, x) (sent_to V r s) else sent_to V r s))"

lemma keeps_roomsD:
  assumes "keeps_rooms L V"
  shows "room_members V (Accept L s r) = room_members V r" "sent_to V (Accept L s r) = sent_to V r"
    and "room_members V (SetContext L s c r) = room_members V r" "sent_to V (SetContext L s c r) = sent_to V r"
    and "room_members V (Drop L s r) = (\<lambda>m. room_members V r m - {s})" "sent_to V (Drop L s r) = sent_to V r"
    and "room_members V (Join_room L s m r) = (room_members V r)(m := insert s (room_members V r m))"
      "sent_to V (Join_room L s m r) = sent_to V r"
    and "room_members V (BroadcastToRoom L '''' m e x r) = room_members V r"
      "sent_to V (BroadcastToRoom L '''' m e x r) =
         (\<lambda>s. if s \<in> room_members V r m then add_mset (e, x) (sent_to V r s) else sent_to V r s)"
  using assms unfolding keeps_rooms_def by (blast+)

section \<open>The chat room\<close>

text \<open>
  The specification: a room with the clients in it and what each of them has heard. A client enters
  when its connection is put into the room, and leaves when the connection ends; what is said in
  the room is heard by all who are in it.
\<close>

record room =
  present :: "sid set"
  heard :: "sid \<Rightarrow> chat_message multiset"

fun room_step :: "room \<Rightarrow> chat_event \<Rightarrow> room \<Rightarrow> bool" where
  "room_step R (Called c (CallJoin room)) R' \<longleftrightarrow> room = chatRoom \<and> R' = R\<lparr>present := insert c (present R)\<rparr>"
| "room_step R (Called c (CallBroadcast namespace room event msg)) R' \<longleftrightarrow> room = chatRoom \<and> event = ''message'' \<and>
     R' = R\<lparr>heard := (\<lambda>d. if d \<in> present R then add_mset msg (heard R d) else heard R d)\<rparr>"
| "room_step R (Disconnected c reason) R' \<longleftrightarrow> R' = R\<lparr>present := present R - {c}\<rparr>"
| "room_step R _ R' \<longleftrightarrow> R' = R"

definition room_of :: "'r room_view \<Rightarrow> 'r chat \<Rightarrow> room" where
  "room_of V s = \<lparr>present = room_members V (library s) chatRoom, heard = (\<lambda>c. image_mset snd (sent_to V (library s) c))\<rparr>"

text \<open>The running handlers make no other calls than those of the program.\<close>

definition program_call :: "room_call \<Rightarrow> bool" where
  "program_call x \<longleftrightarrow> x = CallSetContext '''' \<or> x = CallJoin chatRoom \<or> (\<exists>m. x = CallBroadcast '''' chatRoom ''message'' m)"

definition chat_inv :: "'r chat \<Rightarrow> bool" where
  "chat_inv s \<longleftrightarrow> (\<forall>h \<in># running s. list_all program_call (snd h))"

lemmas handler_defs = OnConnect_def OnEvent_message_def OnError_def OnDisconnect_def

lemma chat_inv_step:
  assumes "chat_step L s ev t" and "chat_inv s" and "keeps_rooms L V"
  shows "chat_inv t \<and> room_step (room_of V s) ev (room_of V t)"
  using assms(1)
proof cases
  case (call c x xs H)
  note L = keeps_roomsD [OF assms(3)]
  have "program_call x" and inv: "chat_inv t" using assms(2) by (auto simp: chat_inv_def call)
  then have "room_step (room_of V s) ev (room_of V t)"
    unfolding call(1,2) program_call_def
    by (elim disjE exE) (simp_all add: room_of_def L fun_eq_iff)
  with inv show ?thesis ..
qed (use assms(2) in \<open>auto simp: chat_inv_def room_of_def handler_defs program_call_def keeps_roomsD [OF assms(3)]\<close>)

interpretation chat_sys: refinement "\<lambda>s. \<exists>r. s = chat_start r"
    "\<lambda>s ev t. chat_step L s ev t \<and> keeps_rooms L V" chat_inv "room_of V" room_step for L V
proof unfold_locales
  show "chat_inv s" if "\<exists>r. s = chat_start r" for s :: "'a chat"
    using that by (auto simp: chat_start_def chat_inv_def)
qed (blast dest: chat_inv_step)+

text \<open>
  What clients ask for: to be let in, and to have something said. \<open>asked\<close> is what an event asks
  for, \<open>granted\<close> what a call does about it, \<open>owed\<close> what the running handlers have still to do.
\<close>

datatype request = Enter sid | Say chat_message

fun asked :: "chat_event \<Rightarrow> request multiset" where
  "asked (Connected c) = {#Enter c#}"
| "asked (Received c m) = {#Say m#}"
| "asked _ = {#}"

fun grants :: "sid \<Rightarrow> room_call \<Rightarrow> request multiset" where
  "grants c (CallJoin room) = {#Enter c#}"
| "grants c (CallBroadcast namespace room event msg) = {#Say msg#}"
| "grants c (CallSetContext x) = {#}"

fun granted :: "chat_event \<Rightarrow> request multiset" where
  "granted (Called c x) = grants c x"
| "granted _ = {#}"

definition owed :: "'r chat \<Rightarrow> request multiset" where
  "owed s = (\<Sum>h \<in># running s. \<Sum>x \<in># mset (snd h). grants (fst h) x)"

lemma owed_step: "chat_step L s ev t \<Longrightarrow> owed s + asked ev = granted ev + owed t"
  by (cases rule: chat_step.cases) (auto simp: owed_def handler_defs)

lemma owed_run:
  "run (chat_step L) s ls t \<Longrightarrow> owed s + (\<Sum>ev \<in># mset ls. asked ev) = (\<Sum>ev \<in># mset ls. granted ev) + owed t"
proof (induction rule: run.induct)
  case (run_Cons s l t ls u)
  have "owed s + (\<Sum>ev \<in># mset (l # ls). asked ev) = granted l + (owed t + (\<Sum>ev \<in># mset ls. asked ev))"
    using owed_step [OF run_Cons.hyps(1)] by (simp add: add.assoc [symmetric])
  with run_Cons.IH show ?case by (simp add: add.assoc)
qed simp

text \<open>
  C16. The handlers of the chat server implement a chat room, on a library that keeps its rooms and
  from an empty server on, however the handlers of different connections interleave: what happens
  to the library is a run of the room, in which a client hears what is said while it is in,
  itself included, once each and nothing else; and every client that connects is let in once and
  every message that arrives is said once, except for what running handlers have still to do.
  The server says nothing of its own.
\<close>

theorem chat_delivers:
  assumes "run (chat_step L) (chat_start r) ls t" and "keeps_rooms L V"
    and "room_members V r chatRoom = {}" and "sent_to V r = (\<lambda>_. {#})"
  shows "run room_step \<lparr>present = {}, heard = (\<lambda>_. {#})\<rparr> ls (room_of V t) \<and>
    (\<Sum>ev \<in># mset ls. asked ev) = (\<Sum>ev \<in># mset ls. granted ev) + owed t"
proof
  have "run (\<lambda>s ev t. chat_step L s ev t \<and> keeps_rooms L V) (chat_start r) ls t"
    using assms(1,2) by (induction rule: run.induct) auto
  from chat_sys.init_refines [OF _ this] assms(3,4)
  show "run room_step \<lparr>present = {}, heard = (\<lambda>_. {#})\<rparr> ls (room_of V t)"
    by (simp add: chat_start_def room_of_def)
  show "(\<Sum>ev \<in># mset ls. asked ev) = (\<Sum>ev \<in># mset ls. granted ev) + owed t"
    using owed_run [OF assms(1)] by (simp add: owed_def chat_start_def)
qed

section \<open>A library in memory\<close>

record mem_rooms =
  mr_members :: "string \<Rightarrow> sid set"
  mr_sent :: "sid \<Rightarrow> (string \<times> chat_message) multiset"

definition mem_socketio :: "mem_rooms socketio" where
  "mem_socketio = \<lparr>Accept = (\<lambda>s r. r), Drop = (\<lambda>s r. r\<lparr>mr_members := (\<lambda>m. mr_members r m - {s})\<rparr>),
     SetContext = (\<lambda>s c r. r),
     Join_room = (\<lambda>s m r. r\<lparr>mr_members := (mr_members r)(m := insert s (mr_members r m))\<rparr>),
     BroadcastToRoom = (\<lambda>n m e x r. r\<lparr>mr_sent := (\<lambda>s. if s \<in> mr_members r m then add_mset (e, x) (mr_sent r s) else mr_sent r s)\<rparr>)\<rparr>"

definition mem_rooms_view :: "mem_rooms room_view" where
  "mem_rooms_view = \<lparr>room_members = mr_members, sent_to = mr_sent\<rparr>"

lemma mem_keeps_rooms: "keeps_rooms mem_socketio mem_rooms_view"
  by (simp add: keeps_rooms_def mem_socketio_def mem_rooms_view_def cong: if_cong)

abbreviation nobody :: mem_rooms where
  "nobody \<equiv> \<lparr>mr_members = (\<lambda>_. {}), mr_sent = (\<lambda>_. {#})\<rparr>"

text \<open>Client 1 connects and says something, while the handler of client 2 has not let it in.\<close>

definition demo_said :: chat_message where
  "demo_said = \<lparr>Username = ''ann'', Message = ''hello''\<rparr>"

definition demo_events :: "chat_event list" where
  "demo_events = [Connected 1, Called 1 (CallSetContext ''''), Connected 2, Called 1 (CallJoin chatRoom),
     Received 1 demo_said, Called 2 (CallSetContext ''''), Called 1 (CallBroadcast '''' chatRoom ''message'' demo_said)]"

lemma demo_chat: "\<exists>t. run (chat_step mem_socketio) (chat_start nobody) demo_events t"
proof -
  let ?L = mem_socketio
  note step = chat_step.call [where L = ?L]
  let ?s = "\<lambda>r H. \<lparr>library = r, running = H\<rparr>"
  let ?j = "[CallJoin chatRoom]" and ?say = "CallBroadcast '''' chatRoom ''message'' demo_said"
  let ?c = "CallSetContext '''' # ?j"
  let ?r = "perform ?L 1 (CallJoin chatRoom) nobody"
  let ?r' = "perform ?L 1 ?say ?r"
  have keep: "Accept ?L c r = r" "SetContext ?L c x r = r" for c x r by (simp_all add: mem_socketio_def)
  have 1: "chat_step ?L (chat_start nobody) (Connected 1) (?s nobody {#(1, ?c)#})"
    using chat_step.connect [of ?c ?L "chat_start nobody" 1] by (simp add: OnConnect_def chat_start_def keep)
  have 2: "chat_step ?L (?s nobody {#(1, ?c)#}) (Called 1 (CallSetContext '''')) (?s nobody {#(1, ?j)#})"
    using step [of "?s nobody {#(1, ?c)#}" 1 "CallSetContext ''''" ?j "{#}"] by (simp add: keep)
  have 3: "chat_step ?L (?s nobody {#(1, ?j)#}) (Connected 2) (?s nobody {#(2, ?c), (1, ?j)#})"
    using chat_step.connect [of ?c ?L "?s nobody {#(1, ?j)#}" 2] by (simp add: OnConnect_def keep)
  have 4: "chat_step ?L (?s nobody {#(2, ?c), (1, ?j)#}) (Called 1 (CallJoin chatRoom)) (?s ?r {#(1, []), (2, ?c)#})"
    using step [of "?s nobody {#(2, ?c), (1, ?j)#}" 1 "CallJoin chatRoom" "[]" "{#(2, ?c)#}"] by (simp add: add_mset_commute)
  have 5: "chat_step ?L (?s ?r {#(1, []), (2, ?c)#}) (Received 1 demo_said) (?s ?r {#(1, [?say]), (1, []), (2, ?c)#})"
    using chat_step.message [of ?L "?s ?r {#(1, []), (2, ?c)#}" 1 demo_said] by (simp add: OnEvent_message_def)
  have 6: "chat_step ?L (?s ?r {#(1, [?say]), (1, []), (2, ?c)#}) (Called 2 (CallSetContext '''')) (?s ?r {#(2, ?j), (1, [?say]), (1, [])#})"
    using step [of "?s ?r {#(1, [?say]), (1, []), (2, ?c)#}" 2 "CallSetContext ''''" ?j "{#(1, [?say]), (1, [])#}"]
    by (simp add: add_mset_commute keep)
  have 7: "chat_step ?L (?s ?r {#(2, ?j), (1, [?say]), (1, [])#}) (Called 1 ?say) (?s ?r' {#(1, []), (2, ?j), (1, [])#})"
    using step [of "?s ?r {#(2, ?j), (1, [?say]), (1, [])#}" 1 ?say "[]" "{#(2, ?j), (1, [])#}"] by (simp add: add_mset_commute)
  have "run (chat_step ?L) (chat_start nobody) demo_events (?s ?r' {#(1, []), (2, ?j), (1, [])#})"
    unfolding demo_events_def
    by (rule run_Cons, rule 1, rule run_Cons, rule 2, rule run_Cons, rule 3, rule run_Cons, rule 4,
        rule run_Cons, rule 5, rule run_Cons, rule 6, rule run_Cons, rule 7, rule run_Nil)
  then show ?thesis by blast
qed

theorem chat_delivers_witness:
  "\<exists>t. run (chat_step mem_socketio) (chat_start nobody) demo_events t \<and>
     heard (room_of mem_rooms_view t) 1 = {#demo_said#} \<and> heard (room_of mem_rooms_view t) 2 = {#} \<and>
     owed t = {#Enter 2#}"
proof -
  obtain t where r: "run (chat_step mem_socketio) (chat_start nobody) demo_events t" using demo_chat by blast
  note d = chat_delivers [OF r mem_keeps_rooms]
  from d have "run room_step \<lparr>present = {}, heard = (\<lambda>_. {#})\<rparr> demo_events (room_of mem_rooms_view t)"
    by (simp add: mem_rooms_view_def)
  then have "heard (room_of mem_rooms_view t) 1 = {#demo_said#} \<and> heard (room_of mem_rooms_view t) 2 = {#}"
    by (simp add: demo_events_def)
  moreover from d have "owed t = {#Enter 2#}"
    by (simp add: mem_rooms_view_def demo_events_def add_mset_commute)
  ultimately show ?thesis using r by blast
qed

end
