(* ===== verification/Go_Strings.thy ===== *)
theory Go_Strings
  imports Go_Prelude
begin

text \<open>
  The functions of Go's \<^verbatim>\<open>strings\<close> and \<^verbatim>\<open>fmt\<close> packages that programs build and take
  apart text with: \<^verbatim>\<open>Join\<close>, \<^verbatim>\<open>Split\<close> at one character, \<^verbatim>\<open>TrimSpace\<close>, and values
  of an interface type with what \<^verbatim>\<open>%s\<close> prints of them.
\<close>

section \<open>Join and Split\<close>

fun Join :: "string list \<Rightarrow> string \<Rightarrow> string" where
  "Join [] sep = []"
| "Join [x] sep = x"
| "Join (x # y # xs) sep = x @ sep @ Join (y # xs) sep"

text \<open>\<^verbatim>\<open>strings.Split\<close> at a separator of one character: always at least one part.\<close>

fun Split_from :: "string \<Rightarrow> string \<Rightarrow> char \<Rightarrow> string list" where
  "Split_from part [] c = [part]"
| "Split_from part (x # s) c = (if x = c then part # Split_from [] s c else Split_from (part @ [x]) s c)"

definition Split :: "string \<Rightarrow> char \<Rightarrow> string list" where
  "Split s c = Split_from [] s c"

lemma Split_from_append:
  "c \<notin> set x \<Longrightarrow> Split_from part (x @ s) c = Split_from (part @ x) s c"
  by (induction x arbitrary: part) auto

text \<open>Joined parts are split again, when no part contains the separator.\<close>

lemma Split_Join:
  assumes "xs \<noteq> []" and "\<forall>x \<in> set xs. c \<notin> set x"
  shows "Split (Join xs [c]) c = xs"
  using assms
proof (induction xs "[c]" rule: Join.induct)
  case (2 x)
  then show ?case using Split_from_append [of c x "[]" "[]"] by (simp add: Split_def)
next
  case (3 x y xs)
  then show ?case
    using Split_from_append [of c x "[]" "c # Join (y # xs) [c]"] by (simp add: Split_def)
qed simp

section \<open>TrimSpace\<close>

text \<open>The encodings of the white space characters of \<^verbatim>\<open>unicode.IsSpace\<close>.\<close>

definition space_runes :: "string list" where
  "space_runes =
    [[CHR 0x09], [CHR 0x0A], [CHR 0x0B], [CHR 0x0C], [CHR 0x0D], [CHR 0x20], [CHR 0xC2, CHR 0x85],
     [CHR 0xC2, CHR 0xA0], [CHR 0xE1, CHR 0x9A, CHR 0x80], [CHR 0xE2, CHR 0x80, CHR 0x80],
     [CHR 0xE2, CHR 0x80, CHR 0x81], [CHR 0xE2, CHR 0x80, CHR 0x82], [CHR 0xE2, CHR 0x80, CHR 0x83],
     [CHR 0xE2, CHR 0x80, CHR 0x84], [CHR 0xE2, CHR 0x80, CHR 0x85], [CHR 0xE2, CHR 0x80, CHR 0x86],
     [CHR 0xE2, CHR 0x80, CHR 0x87], [CHR 0xE2, CHR 0x80, CHR 0x88], [CHR 0xE2, CHR 0x80, CHR 0x89],
     [CHR 0xE2, CHR 0x80, CHR 0x8A], [CHR 0xE2, CHR 0x80, CHR 0xA8], [CHR 0xE2, CHR 0x80, CHR 0xA9],
     [CHR 0xE2, CHR 0x80, CHR 0xAF], [CHR 0xE2, CHR 0x81, CHR 0x9F], [CHR 0xE3, CHR 0x80, CHR 0x80]]"

text \<open>Dropping encodings from a list off the front of a string, as often as one is there.\<close>

function strip :: "string list \<Rightarrow> string \<Rightarrow> string" where
  "strip rs s =
     (case find (\<lambda>r. r \<noteq> [] \<and> take (length r) s = r) rs of
        None \<Rightarrow> s
      | Some r \<Rightarrow> strip rs (drop (length r) s))"
  by pat_completeness auto
termination
proof (relation "measure (length \<circ> snd)")
  fix rs :: "string list" and s r
  assume "find (\<lambda>r. r \<noteq> [] \<and> take (length r) s = r) rs = Some r"
  then have "r \<noteq> []" "take (length r) s = r" by (auto simp: find_Some_iff)
  then have "s \<noteq> []" "0 < length r" by auto
  then show "((rs, drop (length r) s), rs, s) \<in> measure (length \<circ> snd)" by simp
qed simp

declare strip.simps [simp del]

definition TrimSpace :: "string \<Rightarrow> string" where
  "TrimSpace s = rev (strip (map rev space_runes) (rev (strip space_runes s)))"

definition space_byte :: "char \<Rightarrow> bool" where
  "space_byte c \<longleftrightarrow> (of_char c :: nat) \<in> {9, 10, 11, 12, 13, 32} \<or> 128 \<le> (of_char c :: nat)"

lemma space_runes_bytes: "r \<in> set space_runes \<Longrightarrow> c \<in> set r \<Longrightarrow> space_byte c"
  by (auto simp: space_runes_def space_byte_def)

lemma strip_id:
  assumes "\<And>r c. r \<in> set rs \<Longrightarrow> c \<in> set r \<Longrightarrow> c \<noteq> hd s" and "s \<noteq> []"
  shows "strip rs s = s"
proof -
  have "find (\<lambda>r. r \<noteq> [] \<and> take (length r) s = r) rs = None"
    using assms by (force simp: find_None_iff neq_Nil_conv)
  then show ?thesis by (simp add: strip.simps [of rs s])
qed

lemma set_strip: "c \<in> set s \<Longrightarrow> c \<in> set (strip rs s) \<or> (\<exists>r \<in> set rs. c \<in> set r)"
proof (induction rs s rule: strip.induct)
  case (1 rs s)
  show ?case
  proof (cases "find (\<lambda>r. r \<noteq> [] \<and> take (length r) s = r) rs")
    case None
    with 1 show ?thesis by (simp add: strip.simps [of rs s])
  next
    case (Some r)
    then have r: "r \<in> set rs" "take (length r) s = r" by (auto simp: find_Some_iff in_set_conv_nth)
    have "c \<in> set (take (length r) s) \<or> c \<in> set (drop (length r) s)"
      using "1.prems" by (metis Un_iff append_take_drop_id set_append)
    with 1(1) [OF Some] r Some show ?thesis by (auto simp: strip.simps [of rs s])
  qed
qed

text \<open>Only white space is dropped, and text without it is kept.\<close>

lemma set_TrimSpace: "c \<in> set s \<Longrightarrow> space_byte c \<or> c \<in> set (TrimSpace s)"
  using set_strip [of c s space_runes] set_strip [of c "rev (strip space_runes s)" "map rev space_runes"]
  by (auto simp: TrimSpace_def dest: space_runes_bytes)

lemma TrimSpace_id:
  assumes "\<forall>c \<in> set s. \<not> space_byte c"
  shows "TrimSpace s = s"
proof (cases "s = []")
  case True
  then show ?thesis by (simp add: TrimSpace_def space_runes_def strip.simps [of _ "[]"])
next
  case False
  have "strip space_runes s = s"
    by (rule strip_id) (use assms False space_runes_bytes hd_in_set in blast)+
  moreover have "strip (map rev space_runes) (rev s) = rev s"
  proof (rule strip_id)
    fix r c assume "r \<in> set (map rev space_runes)" and "c \<in> set r"
    then have "space_byte c" by (auto dest: space_runes_bytes)
    moreover have "hd (rev s) \<in> set s" using False by (simp add: hd_rev)
    ultimately show "c \<noteq> hd (rev s)" using assms by auto
  qed (use False in simp)
  ultimately show ?thesis by (simp add: TrimSpace_def)
qed

section \<open>Interface values\<close>

text \<open>
  A value of type \<^verbatim>\<open>interface{}\<close>: nil, a string, a pointer to a string (its address and what
  it points to) or an integer, with \<^verbatim>\<open>%s\<close> of it.
\<close>

datatype iface = Nil_if | Str string | Ptr nat string | Int_if int

fun hex :: "nat \<Rightarrow> string" where
  "hex n = (if n < 16 then [''0123456789abcdef'' ! n] else hex (n div 16) @ [''0123456789abcdef'' ! (n mod 16)])"

declare hex.simps [simp del]

fun fmt_s :: "iface \<Rightarrow> string" where
  "fmt_s Nil_if = ''%!s(<nil>)''"
| "fmt_s (Str s) = s"
| "fmt_s (Ptr a s) = ''%!s(*string=0x'' @ hex a @ '')''"
| "fmt_s (Int_if n) = ''%!s(int='' @ FormatInt n @ '')''"

text \<open>A type assertion \<^verbatim>\<open>x.(string)\<close> panics on any other value.\<close>

fun as_string :: "iface \<Rightarrow> string outcome" where
  "as_string (Str s) = Return s"
| "as_string _ = Panic"

end
