(* ===== verification/Go_Mux.thy ===== *)
theory Go_Mux
  imports Go_HTTP Go_Strings "HOL-Library.Sublist"
begin

text \<open>
  The request multiplexer of Go's \<^verbatim>\<open>net/http\<close>, for the patterns the programs register: an exact
  path, or a path ending in a slash that stands for everything below it. Paths are taken as
  they are in the request line, without percent encoding.
\<close>

section \<open>Clean paths\<close>

text \<open>\<^verbatim>\<open>path.Clean\<close> of a rooted path: empty parts and dots go, two dots take the part before them along.\<close>

fun clean_parts :: "string list \<Rightarrow> string list \<Rightarrow> string list" where
  "clean_parts acc [] = rev acc"
| "clean_parts acc (x # xs) =
     (if x = [] \<or> x = ''.'' then clean_parts acc xs
      else if x = ''..'' then clean_parts (tl acc) xs
      else clean_parts (x # acc) xs)"

definition rooted :: "string list \<Rightarrow> string" where
  "rooted parts = CHR ''/'' # Join parts ''/''"

definition path_Clean :: "string \<Rightarrow> string" where
  "path_Clean p = rooted (clean_parts [] (Split p (CHR ''/'')))"

definition cleanPath :: "string \<Rightarrow> string" where
  "cleanPath p =
     (if p = [] then ''/''
      else (let p = (if hd p \<noteq> CHR ''/'' then CHR ''/'' # p else p);
                np = path_Clean p
            in if last p = CHR ''/'' \<and> np \<noteq> ''/'' then np @ ''/'' else np))"

section \<open>Matching\<close>

type_synonym 'h ServeMux = "(string \<times> 'h) list"

definition pattern_matches :: "string \<Rightarrow> string \<Rightarrow> bool" where
  "pattern_matches pat path \<longleftrightarrow> path = pat \<or> pat \<noteq> [] \<and> last pat = CHR ''/'' \<and> prefix pat path"

text \<open>The longest of the patterns that match.\<close>

definition longer :: "string \<times> 'h \<Rightarrow> string \<times> 'h \<Rightarrow> string \<times> 'h" where
  "longer b e = (if length (fst b) < length (fst e) then e else b)"

definition mux_match :: "'h ServeMux \<Rightarrow> string \<Rightarrow> 'h option" where
  "mux_match mux path =
     (case filter (\<lambda>e. pattern_matches (fst e) path) mux of
        [] \<Rightarrow> None
      | e # es \<Rightarrow> Some (snd (foldl longer e es)))"

text \<open>
  What becomes of a request: its handler, a permanent redirect to another path, or the answer
  404. The path of a \<^verbatim>\<open>CONNECT\<close> request is not cleaned.
\<close>

datatype 'h route = To 'h | Redirect string | NoRoute

definition registered :: "'h ServeMux \<Rightarrow> string \<Rightarrow> bool" where
  "registered mux p \<longleftrightarrow> p \<in> fst ` set mux"

definition mux_Handler :: "'h ServeMux \<Rightarrow> string \<Rightarrow> string \<Rightarrow> 'h route" where
  "mux_Handler mux meth path =
     (let p = (if meth = ''CONNECT'' then path else cleanPath path)
      in if \<not> registered mux p \<and> registered mux (p @ ''/'') then Redirect (p @ ''/'')
         else if p \<noteq> path then Redirect p
         else (case mux_match mux p of None \<Rightarrow> NoRoute | Some h \<Rightarrow> To h))"

section \<open>A redirect leads to a path that stays\<close>

text \<open>The parts that remain are proper names without slashes.\<close>

definition proper :: "string \<Rightarrow> bool" where
  "proper x \<longleftrightarrow> x \<noteq> [] \<and> x \<noteq> ''.'' \<and> x \<noteq> ''..'' \<and> CHR ''/'' \<notin> set x"

lemma Split_from_parts: "c \<notin> set part \<Longrightarrow> \<forall>x \<in> set (Split_from part s c). c \<notin> set x"
  by (induction part s c rule: Split_from.induct) auto

lemma set_tl: "x \<in> set (tl xs) \<Longrightarrow> x \<in> set xs"
  by (cases xs) auto

lemma clean_parts_proper:
  "\<forall>x \<in> set xs. CHR ''/'' \<notin> set x \<Longrightarrow> \<forall>x \<in> set acc. proper x \<Longrightarrow> \<forall>x \<in> set (clean_parts acc xs). proper x"
proof (induction acc xs rule: clean_parts.induct)
  case (2 acc x xs)
  have xs: "\<forall>y \<in> set xs. CHR ''/'' \<notin> set y" and x: "CHR ''/'' \<notin> set x" using 2(4) by simp_all
  consider "x = [] \<or> x = ''.''" | "x = ''..''" | "proper x" using x by (auto simp: proper_def)
  then show ?case
  proof cases
    case 1
    then show ?thesis using 2(1) [OF _ xs 2(5)] by simp
  next
    case two: 2
    have acc: "\<forall>y \<in> set (tl acc). proper y" using 2(5) by (blast dest: set_tl)
    have nd: "\<not> (x = [] \<or> x = ''.'')" and e: "clean_parts acc (x # xs) = clean_parts (tl acc) xs" by (simp_all add: two)
    show ?thesis unfolding e by (rule 2(2) [OF nd two xs acc])
  next
    case 3
    then have nd: "\<not> (x = [] \<or> x = ''.'')" "x \<noteq> ''..''" by (simp_all add: proper_def)
    then have e: "clean_parts acc (x # xs) = clean_parts (x # acc) xs" by simp
    have acc: "\<forall>y \<in> set (x # acc). proper y" using 3 2(5) by simp
    show ?thesis unfolding e by (rule 2(3) [OF nd xs acc])
  qed
qed simp

lemma clean_parts_id: "\<forall>x \<in> set xs. proper x \<Longrightarrow> clean_parts acc xs = rev acc @ xs"
  by (induction acc xs rule: clean_parts.induct) (auto simp: proper_def)

lemma clean_parts_snoc: "clean_parts acc (xs @ [[]]) = clean_parts acc xs"
  by (induction acc xs rule: clean_parts.induct) auto

lemma Split_rooted:
  assumes "xs \<noteq> []" and "\<forall>x \<in> set xs. proper x"
  shows "Split (rooted xs) (CHR ''/'') = [] # xs"
  using Split_Join [OF assms(1), of "CHR ''/''"] assms(2) by (auto simp: Split_def rooted_def proper_def)

lemma Split_snoc: "Split_from part (s @ [c]) c = Split_from part s c @ [[]]"
  by (induction part s c rule: Split_from.induct) auto

lemma path_Clean_rooted:
  assumes "\<forall>x \<in> set xs. proper x"
  shows "path_Clean (rooted xs) = rooted xs" and "path_Clean (rooted xs @ ''/'') = rooted xs"
proof -
  show clean: "path_Clean (rooted xs) = rooted xs"
  proof (cases "xs = []")
    case False
    with Split_rooted [OF False assms] clean_parts_id [OF assms, of "[]"] show ?thesis by (simp add: path_Clean_def)
  qed (simp add: path_Clean_def rooted_def Split_def)
  have "clean_parts [] (Split (rooted xs @ ''/'') (CHR ''/'')) = clean_parts [] (Split (rooted xs) (CHR ''/''))"
    by (simp add: Split_def Split_snoc clean_parts_snoc)
  with clean show "path_Clean (rooted xs @ ''/'') = rooted xs" by (simp add: path_Clean_def)
qed

lemma last_rooted: "\<forall>x \<in> set xs. proper x \<Longrightarrow> xs \<noteq> [] \<Longrightarrow> last (rooted xs) \<noteq> CHR ''/''"
proof -
  have "last (Join xs sep) = last (last xs) \<and> Join xs sep \<noteq> []" if "\<forall>x \<in> set xs. proper x" "xs \<noteq> []" for sep
    using that by (induction xs sep rule: Join.induct) (auto simp: proper_def)
  moreover assume "\<forall>x \<in> set xs. proper x" and "xs \<noteq> []"
  moreover from this have "proper (last xs)" by simp
  ultimately show ?thesis by (metis last_ConsR last_in_set proper_def rooted_def)
qed

lemma cleanPath_forms: "\<exists>xs. (\<forall>x \<in> set xs. proper x) \<and> (cleanPath p = rooted xs \<or> xs \<noteq> [] \<and> cleanPath p = rooted xs @ ''/'')"
proof (cases "p = []")
  case True
  then show ?thesis by (intro exI [of _ "[]"]) (simp add: cleanPath_def rooted_def)
next
  case False
  obtain q where q: "q = (if hd p \<noteq> CHR ''/'' then CHR ''/'' # p else p)" by blast
  obtain xs where xs: "xs = clean_parts [] (Split q (CHR ''/''))" by blast
  have pr: "\<forall>x \<in> set xs. proper x" unfolding xs by (rule clean_parts_proper) (use Split_from_parts [of "CHR ''/''" "[]" q] in \<open>simp_all add: Split_def\<close>)
  have "cleanPath p = (if last q = CHR ''/'' \<and> rooted xs \<noteq> ''/'' then rooted xs @ ''/'' else rooted xs)"
    using False by (simp add: cleanPath_def q xs path_Clean_def Let_def)
  moreover have "xs \<noteq> []" if "rooted xs \<noteq> ''/''" using that by (auto simp: rooted_def)
  ultimately show ?thesis using pr by (intro exI [of _ xs]) auto
qed

lemma cleanPath_rooted:
  assumes "\<forall>x \<in> set xs. proper x"
  shows "cleanPath (rooted xs) = rooted xs" and "xs \<noteq> [] \<Longrightarrow> cleanPath (rooted xs @ ''/'') = rooted xs @ ''/''"
proof -
  have ne: "rooted xs \<noteq> []" "hd (rooted xs) = CHR ''/''" by (simp_all add: rooted_def)
  show "cleanPath (rooted xs) = rooted xs"
    using path_Clean_rooted(1) [OF assms] last_rooted [OF assms] ne
    by (cases "xs = []") (auto simp: cleanPath_def Let_def, auto simp: rooted_def)
  assume "xs \<noteq> []"
  then have "rooted xs \<noteq> ''/''" using last_rooted [OF assms] by auto
  then show "cleanPath (rooted xs @ ''/'') = rooted xs @ ''/''"
    using path_Clean_rooted(2) [OF assms] ne by (simp add: cleanPath_def Let_def)
qed

lemma cleanPath_idem: "cleanPath (cleanPath p) = cleanPath p"
  using cleanPath_forms [of p] cleanPath_rooted by metis

lemma cleanPath_slash: "cleanPath p \<noteq> ''/'' \<Longrightarrow> last (cleanPath p) \<noteq> CHR ''/'' \<Longrightarrow> cleanPath (cleanPath p @ ''/'') = cleanPath p @ ''/''"
proof -
  assume a: "cleanPath p \<noteq> ''/''" "last (cleanPath p) \<noteq> CHR ''/''"
  obtain xs where xs: "\<forall>x \<in> set xs. proper x" "cleanPath p = rooted xs \<or> xs \<noteq> [] \<and> cleanPath p = rooted xs @ ''/''"
    using cleanPath_forms by blast
  with a(2) have r: "cleanPath p = rooted xs" by auto
  with a(1) have "xs \<noteq> []" by (auto simp: rooted_def)
  from cleanPath_rooted(2) [OF xs(1) this] show ?thesis by (simp add: r)
qed

text \<open>So a request is redirected at most once, when the patterns are clean themselves.\<close>

lemma mux_redirects_once:
  assumes "mux_Handler mux meth path = Redirect q" and "meth \<noteq> ''CONNECT''" and "\<forall>p \<in> fst ` set mux. cleanPath p = p"
  shows "\<nexists>q'. mux_Handler mux meth q = Redirect q'"
proof -
  have "cleanPath q = q \<and> (registered mux q \<or> \<not> registered mux (q @ ''/''))"
  proof (cases "\<not> registered mux (cleanPath path) \<and> registered mux (cleanPath path @ ''/'')")
    case True
    then have q: "q = cleanPath path @ ''/''" using assms(1,2) by (simp add: mux_Handler_def)
    with True have "registered mux q" by simp
    then show ?thesis using assms(3) unfolding registered_def by blast
  next
    case False
    then have "q = cleanPath path" using assms(1,2) by (auto simp: mux_Handler_def Let_def split: if_splits option.splits)
    then show ?thesis using False cleanPath_idem by simp
  qed
  then show ?thesis using assms(2) by (auto simp: mux_Handler_def split: option.splits)
qed

section \<open>Exact patterns beside the root\<close>

lemma longer_max:
  "foldl longer e es \<in> set (e # es) \<and> (\<forall>x \<in> set (e # es). length (fst x) \<le> length (fst (foldl longer e es)))"
proof (induction es arbitrary: e)
  case (Cons x es)
  from Cons.IH [of "longer e x"] show ?case by (auto simp: longer_def split: if_splits)
qed simp

lemma mux_match_longest:
  assumes "mux_match mux path = Some h"
  shows "\<exists>p. (p, h) \<in> set mux \<and> pattern_matches p path \<and>
    (\<forall>(p', h') \<in> set mux. pattern_matches p' path \<longrightarrow> length p' \<le> length p)"
proof -
  obtain e es where f: "filter (\<lambda>e. pattern_matches (fst e) path) mux = e # es" and h: "h = snd (foldl longer e es)"
    using assms by (auto simp: mux_match_def split: list.splits)
  have set: "set (e # es) = {x \<in> set mux. pattern_matches (fst x) path}" by (metis f set_filter)
  obtain p where p: "foldl longer e es = (p, h)" using h by (metis prod.collapse)
  with longer_max [of e es] show ?thesis unfolding set by (intro exI [of _ p]) auto
qed

lemma mux_match_Some:
  assumes "(p, h) \<in> set mux" and "pattern_matches p path"
  shows "\<exists>h'. mux_match mux path = Some h'"
proof -
  have "(p, h) \<in> set (filter (\<lambda>e. pattern_matches (fst e) path) mux)" using assms by simp
  then show ?thesis by (cases "filter (\<lambda>e. pattern_matches (fst e) path) mux") (simp_all add: mux_match_def)
qed

lemma clean_hd: "cleanPath p \<noteq> [] \<and> hd (cleanPath p) = CHR ''/''"
  using cleanPath_forms [of p] by (auto simp: rooted_def)

text \<open>With the root and exact paths registered, a clean path goes to its own handler or to the root's.\<close>

lemma mux_flat:
  assumes d: "distinct (map fst mux)" and root: "map_of mux ''/'' = Some h0"
    and flat: "\<forall>p \<in> fst ` set mux. p = ''/'' \<or> p \<noteq> [] \<and> last p \<noteq> CHR ''/''" and clean: "cleanPath path = path"
  shows "mux_Handler mux meth path = To (case map_of mux path of None \<Rightarrow> h0 | Some h \<Rightarrow> h)"
proof -
  have path: "path \<noteq> []" "hd path = CHR ''/''" using clean_hd [of path] clean by simp_all
  have slash: "\<not> registered mux (path @ ''/'')" using flat path(1) unfolding registered_def by fastforce
  have pre: "prefix ''/'' path" using path by (cases path) simp_all
  have match: "pattern_matches p path \<longleftrightarrow> p = path \<or> p = ''/''" if "p \<in> fst ` set mux" for p
    using flat that pre unfolding pattern_matches_def by auto
  have r: "(''/'', h0) \<in> set mux" using root by (rule map_of_SomeD)
  then have m: "pattern_matches ''/'' path" using match [of "''/''"] by force
  obtain h where h: "mux_match mux path = Some h" using mux_match_Some [OF r m] by blast
  obtain p where p: "(p, h) \<in> set mux" "pattern_matches p path"
    "\<forall>(p', h') \<in> set mux. pattern_matches p' path \<longrightarrow> length p' \<le> length p" using mux_match_longest [OF h] by blast
  have pe: "p = path \<or> p = ''/''" using match [of p] p(1,2) by force
  have hp: "map_of mux p = Some h" using d p(1) by simp
  have "(case map_of mux path of None \<Rightarrow> h0 | Some h \<Rightarrow> h) = h"
  proof (cases "map_of mux path")
    case None
    then have "p = ''/''" using pe hp by auto
    with hp root None show ?thesis by simp
  next
    case (Some g)
    have "(path, g) \<in> set mux" using Some by (rule map_of_SomeD)
    moreover have "pattern_matches path path" by (simp add: pattern_matches_def)
    ultimately have len: "length path \<le> length p" using p(3) by blast
    have "p = path" using pe
    proof
      assume "p = ''/''"
      with len path show ?thesis by (cases path) auto
    qed
    with hp Some show ?thesis by simp
  qed
  with h slash clean show ?thesis by (simp add: mux_Handler_def)
qed

end
