(* ===== verification/Web_Routes.thy ===== *)
theory Web_Routes
  imports Load_Balancer_Server Disk_Id_Generator Batch_Id_Generator Chat_Room Go_Mux
begin

text \<open>
  The routes of the HTTP servers: what their main functions register at a \<^verbatim>\<open>ServeMux\<close>, and that a
  request with a clean path reaches the handler its program means. \<open>redirect\<close> stands for the answer
  of \<^verbatim>\<open>http.RedirectHandler\<close>.
\<close>

section \<open>Registration\<close>

text \<open>The load balancer, and a request to it.\<close>

definition lb_mux :: "(string \<Rightarrow> string \<Rightarrow> go_error option) \<Rightarrow> (BackendRequest \<Rightarrow> BackendResponse result) \<Rightarrow>
    (Writer \<Rightarrow> Request \<Rightarrow> LoadBalancer \<Rightarrow> heap \<Rightarrow> LoadBalancer \<times> heap \<times> Writer outcome) ServeMux" where
  "lb_mux NewRequest Do = [(''/health'', \<lambda>w r lb h. (lb, h, healthCheck w)), (''/'', requestHandler NewRequest Do)]"

definition startServer :: "(string \<Rightarrow> string \<Rightarrow> go_error option) \<Rightarrow> (BackendRequest \<Rightarrow> BackendResponse result) \<Rightarrow>
    (string \<Rightarrow> Writer \<Rightarrow> Writer outcome) \<Rightarrow> Writer \<Rightarrow> Request \<Rightarrow> LoadBalancer \<Rightarrow> heap \<Rightarrow> LoadBalancer \<times> heap \<times> Writer outcome" where
  "startServer NewRequest Do redirect w r lb h =
     (case mux_Handler (lb_mux NewRequest Do) (Method r) (Path r) of
        To f \<Rightarrow> f w r lb h
      | Redirect q \<Rightarrow> (lb, h, redirect q w)
      | NoRoute \<Rightarrow> (lb, h, NotFound w))"

text \<open>The identifier server of disk-based.\<close>

definition id_mux :: "(string \<Rightarrow> Writer \<Rightarrow> int \<Rightarrow> os \<Rightarrow> (int \<times> Writer outcome) process \<times> os) ServeMux" where
  "id_mux = [(''/'', handler), (''/periodic'', \<lambda>path. periodicHandler),
     (''/favicon.ico'', \<lambda>path rw counter w. (Continue (counter, faviconHandler rw), w))]"

text \<open>The identifier server of amazon-way: an answer at once, or the start of a transaction.\<close>

definition generator_mux :: "(url_values \<Rightarrow> Writer outcome + gen_call) ServeMux" where
  "generator_mux = [(''/'', \<lambda>q. Inl (homeHandler new_writer)), (''/generate'', \<lambda>q. Inr (generate_start q))]"

text \<open>The counting server of http-server.\<close>

definition hello_mux :: "(string \<Rightarrow> int \<Rightarrow> int \<times> Writer outcome) ServeMux" where
  "hello_mux = [(''/'', \<lambda>path count. (snd (count_request count), web_handler path new_writer)),
     (''/favicon.ico'', \<lambda>path count. (count, web_faviconHandler new_writer))]"

text \<open>The chat server, with the Socket.IO server and the file server as parameters, behind its outer handler.\<close>

definition chat_mux :: "(Writer \<Rightarrow> Writer outcome) \<Rightarrow> (Writer \<Rightarrow> Writer outcome) \<Rightarrow> (Writer \<Rightarrow> Writer outcome) ServeMux" where
  "chat_mux server files = [(''/socket.io/'', server), (''/'', files)]"

definition chat_serve :: "(Writer \<Rightarrow> Writer outcome) \<Rightarrow> (Writer \<Rightarrow> Writer outcome) \<Rightarrow> (string \<Rightarrow> Writer \<Rightarrow> Writer outcome) \<Rightarrow>
    string \<Rightarrow> string \<Rightarrow> Writer \<Rightarrow> Writer outcome" where
  "chat_serve server files redirect meth path =
     loggedMux (\<lambda>w. case mux_Handler (chat_mux server files) meth path of
                       To f \<Rightarrow> f w
                     | Redirect q \<Rightarrow> redirect q w
                     | NoRoute \<Rightarrow> NotFound w) meth"

section \<open>Where requests go\<close>

lemma startServer_clean:
  assumes "cleanPath (Path r) = Path r"
  shows "startServer NewRequest Do redirect w r lb h = serve NewRequest Do w r lb h"
proof -
  have "mux_Handler (lb_mux NewRequest Do) (Method r) (Path r) =
      To (case map_of (lb_mux NewRequest Do) (Path r) of None \<Rightarrow> requestHandler NewRequest Do | Some f \<Rightarrow> f)"
    by (rule mux_flat [OF _ _ _ assms]) (simp_all add: lb_mux_def)
  then show ?thesis by (auto simp: startServer_def serve_def lb_mux_def)
qed

lemma id_mux_clean:
  assumes "cleanPath path = path"
  shows "\<exists>f. mux_Handler id_mux meth path = To f \<and> f path rw n w = serve_id path rw n w"
proof -
  have "mux_Handler id_mux meth path = To (case map_of id_mux path of None \<Rightarrow> handler | Some f \<Rightarrow> f)"
    by (rule mux_flat [OF _ _ _ assms]) (simp_all add: id_mux_def)
  then show ?thesis by (auto simp: id_mux_def serve_id_def)
qed

lemma generator_mux_clean:
  assumes "cleanPath path = path"
  shows "mux_Handler generator_mux meth path =
    To (if path = ''/generate'' then (\<lambda>q. Inr (generate_start q)) else (\<lambda>q. Inl (homeHandler new_writer)))"
proof -
  have "mux_Handler generator_mux meth path =
      To (case map_of generator_mux path of None \<Rightarrow> (\<lambda>q. Inl (homeHandler new_writer)) | Some f \<Rightarrow> f)"
    by (rule mux_flat [OF _ _ _ assms]) (simp_all add: generator_mux_def)
  then show ?thesis by (auto simp: generator_mux_def)
qed

text \<open>
  The counting server: a clean path counts the request unless it asks for the icon, and only the
  root is greeted.
\<close>

lemma hello_mux_clean:
  assumes "cleanPath path = path"
  shows "\<exists>f. mux_Handler hello_mux meth path = To f \<and>
    f path n = (if path = ''/favicon.ico'' then (n, NotFound new_writer)
      else (wrap64 (n + 1), if path = ''/'' then Return (Write (text_bytes (''Hello from Golang server'' @ [CHR 0x0A])) new_writer)
                                else NotFound new_writer))"
proof -
  have "mux_Handler hello_mux meth path =
      To (case map_of hello_mux path of None \<Rightarrow> (\<lambda>path count. (snd (count_request count), web_handler path new_writer)) | Some f \<Rightarrow> f)"
    by (rule mux_flat [OF _ _ _ assms]) (simp_all add: hello_mux_def)
  then show ?thesis by (auto simp: hello_mux_def web_handler_def web_faviconHandler_def count_request_def)
qed

text \<open>
  The chat server: everything below \<^verbatim>\<open>/socket.io/\<close> goes to the Socket.IO server, the path without the
  slash is redirected there, and the rest is a file.
\<close>

lemma chat_mux_clean:
  assumes "cleanPath path = path"
  shows "mux_Handler (chat_mux server files) meth path =
    (if path = ''/socket.io'' then Redirect ''/socket.io/''
     else To (if prefix ''/socket.io/'' path then server else files))"
proof -
  have path: "path \<noteq> []" "hd path = CHR ''/''" using clean_hd [of path] assms by simp_all
  then have "prefix ''/'' path" by (cases path) simp_all
  moreover have "path @ ''/'' = ''/socket.io/'' \<longleftrightarrow> path = ''/socket.io''"
    using append_same_eq [of path "''/''" "''/socket.io''"] by simp
  ultimately show ?thesis using assms path(1)
    by (auto simp: mux_Handler_def chat_mux_def registered_def mux_match_def pattern_matches_def longer_def)
qed

end
