(* ===== verification/Load_Balancer_System.thy ===== *)
theory Load_Balancer_System
  imports Web_Routes
begin

text \<open>
  The load balancer of src/load-balancer/main.go in front of the demonstration backends of
  src/load-balancer/backend_server, as its main function configures it: three servers on the
  ports 9001 to 9003 with the weights 50, 25 and 25. The network between them is a parameter that
  brings a request to the process that listens on the port.
\<close>

section \<open>The backends\<close>

text \<open>The main function of a backend: its port is an argument of the command line.\<close>

definition backend_mux :: "string \<Rightarrow> (Writer \<Rightarrow> Writer outcome) ServeMux" where
  "backend_mux port = [(''/'', backend_response port)]"

definition backend_main :: "(string \<Rightarrow> Writer \<Rightarrow> Writer outcome) \<Rightarrow> string list \<Rightarrow> string \<Rightarrow> string \<Rightarrow> Writer \<Rightarrow> Writer outcome" where
  "backend_main redirect Args meth path w =
     (if length Args \<le> 1 then Panic
      else (case mux_Handler (backend_mux (Args ! 1)) meth path of
              To f \<Rightarrow> f w
            | Redirect q \<Rightarrow> redirect q w
            | NoRoute \<Rightarrow> NotFound w))"

text \<open>Paths that mean the same in a URL and in a request.\<close>

definition plain_path :: "string \<Rightarrow> bool" where
  "plain_path p \<longleftrightarrow> cleanPath p = p \<and>
     list_all (\<lambda>c. upper_char c \<or> lower_char c \<or> is_digit c \<or> c \<in> set ''/._-'') p"

text \<open>
  What is asked of the network: a GET for a plain path on one of the ports is answered, with the
  status and the body that the backend started with that port gives.
\<close>

definition reaches_backends :: "(string \<Rightarrow> Writer \<Rightarrow> Writer outcome) \<Rightarrow> (BackendRequest \<Rightarrow> BackendResponse result) \<Rightarrow> nat set \<Rightarrow> bool" where
  "reaches_backends redirect Do ports \<longleftrightarrow>
     (\<forall>port \<in> ports. \<forall>q path query. req_method q = ''GET'' \<longrightarrow> plain_path path \<longrightarrow> (query = [] \<or> hd query = CHR ''?'') \<longrightarrow>
        req_url q = ''http://localhost:'' @ dec port @ path @ query \<longrightarrow>
        (\<exists>b w. Do q = Inr b \<and> backend_main redirect [''backend_server'', dec port] ''GET'' path new_writer = Return w \<and>
           status w = Some (StatusCode b) \<and> resp_body b = w_body w))"

definition greeting_from :: "nat \<Rightarrow> bytes" where
  "greeting_from port = text_bytes (''Response from server on port '' @ dec port @ [CHR 0x0A])"

lemma backend_answers:
  assumes "cleanPath path = path"
  shows "\<exists>w. backend_main redirect [a, dec port] meth path new_writer = Return w \<and> status w = Some 200 \<and> w_body w = greeting_from port"
proof -
  have "mux_Handler (backend_mux (dec port)) meth path =
      To (case map_of (backend_mux (dec port)) path of None \<Rightarrow> backend_response (dec port) | Some f \<Rightarrow> f)"
    by (rule mux_flat [OF _ _ _ assms]) (simp_all add: backend_mux_def)
  then show ?thesis
    by (simp add: backend_main_def backend_mux_def backend_response_def write_all_def WriteHeader_def Write_def
        new_writer_def greeting_from_def)
qed

section \<open>Requests through the load balancer\<close>

text \<open>Requests handled one after the other by the server that main starts, and their answers.\<close>

fun serve_requests :: "(string \<Rightarrow> string \<Rightarrow> go_error option) \<Rightarrow> (BackendRequest \<Rightarrow> BackendResponse result) \<Rightarrow>
    (string \<Rightarrow> Writer \<Rightarrow> Writer outcome) \<Rightarrow> Request list \<Rightarrow> LoadBalancer \<Rightarrow> heap \<Rightarrow> Writer outcome list" where
  "serve_requests NewRequest Do redirect [] lb h = []"
| "serve_requests NewRequest Do redirect (r # rs) lb h =
     (let (lb1, h1, out) = startServer NewRequest Do redirect new_writer r lb h
      in out # serve_requests NewRequest Do redirect rs lb1 h1)"

definition plain_request :: "Request \<Rightarrow> bool" where
  "plain_request r \<longleftrightarrow> Method r = ''GET'' \<and> plain_path (Path r) \<and> Path r \<noteq> ''/health''"

text \<open>The body of an answer with status 200.\<close>

fun ok_body :: "Writer outcome \<Rightarrow> bytes option" where
  "ok_body (Return w) = (if status w = Some 200 then Some (w_body w) else None)"
| "ok_body Panic = None"

definition port_of :: "ptr option result \<Rightarrow> nat" where
  "port_of c = 8999 + the (projr c)"

lemma main_forward:
  assumes net: "reaches_backends redirect Do {9001, 9002, 9003}" and new: "NewRequest ''GET'' (backendURL (main_servers p) r) = None"
    and r: "plain_request r" and p: "p \<in> {2, 3, 4}"
  shows "\<exists>out. forwardRequest NewRequest Do new_writer r (Some p) main_servers = (main_servers, out) \<and>
    ok_body out = Some (greeting_from (8999 + p))"
proof -
  let ?query = "if RawQuery r \<noteq> [] then ''?'' @ RawQuery r else []"
  have port: "8999 + p \<in> {9001, 9002, 9003}" using p by auto
  have url: "req_url (backendReq (main_servers p) r) = ''http://localhost:'' @ dec (8999 + p) @ Path r @ ?query"
    using p by (auto simp: backendReq_def backendURL_def main_servers_def NewBackendServer_def GetUrl_def GetAPIPort_def)
  have r': "req_method (backendReq (main_servers p) r) = ''GET''" "plain_path (Path r)" "cleanPath (Path r) = Path r"
    using r by (simp_all add: plain_request_def plain_path_def backendReq_def)
  have q: "?query = [] \<or> hd ?query = CHR ''?''" by simp
  obtain b w where b: "Do (backendReq (main_servers p) r) = Inr b"
    and w: "backend_main redirect [''backend_server'', dec (8999 + p)] ''GET'' (Path r) new_writer = Return w"
      "status w = Some (StatusCode b)" "resp_body b = w_body w"
    using net [unfolded reaches_backends_def, rule_format, OF port r'(1,2) q url] by blast
  with backend_answers [OF r'(3), of redirect "''backend_server''" "8999 + p" "''GET''"]
  have ans: "StatusCode b = 200" "resp_body b = greeting_from (8999 + p)" by auto
  from forward_transparent [of NewRequest r main_servers p Do b] new r b ans show ?thesis
    by (simp add: plain_request_def)
qed

text \<open>The answers are the greetings of the servers the smooth algorithm chooses.\<close>

lemma serve_requests_bodies:
  assumes net: "reaches_backends redirect Do {9001, 9002, 9003}" and new: "\<forall>u. NewRequest ''GET'' u = None"
  shows "\<forall>r \<in> set rs. plain_request r \<Longrightarrow> smooth_good a main_servers [2, 3, 4] \<Longrightarrow>
    Algorithm (Config lb) = SmoothWeighted a \<Longrightarrow> Servers (Config lb) = [2, 3, 4] \<Longrightarrow>
    map ok_body (serve_requests NewRequest Do redirect rs lb main_servers) =
      map (\<lambda>c. Some (greeting_from (port_of c))) (snd (calls smooth_getNext main_servers (Some [2, 3, 4]) (length rs) a))"
proof (induction rs arbitrary: a lb)
  case (Cons r rs)
  obtain a' c where c: "smooth_getNext a main_servers (Some [2, 3, 4]) = (a', c)" by (cases "smooth_getNext a main_servers (Some [2, 3, 4])")
  obtain p where p: "p \<in> {2, 3, 4}" "c = Inr (Some p)" using smooth.answers [OF Cons.prems(2)] c by auto
  have good: "smooth_good a' main_servers [2, 3, 4]" using smooth.keeps_good [OF Cons.prems(2)] c by simp
  have r: "plain_request r" using Cons.prems(1) by simp
  then have path: "cleanPath (Path r) = Path r" "Path r \<noteq> ''/health''" by (simp_all add: plain_request_def plain_path_def)
  have accepts: "NewRequest ''GET'' (backendURL (main_servers p) r) = None" using new by simp
  obtain out where out: "forwardRequest NewRequest Do new_writer r (Some p) main_servers = (main_servers, out)"
    "ok_body out = Some (greeting_from (8999 + p))"
    using main_forward [where NewRequest = NewRequest, OF net accepts r p(1)] by blast
  let ?lb = "lb\<lparr>Config := (Config lb)\<lparr>Algorithm := SmoothWeighted a'\<rparr>\<rparr>"
  have "startServer NewRequest Do redirect new_writer r lb main_servers = (?lb, main_servers, out)"
    using startServer_clean [OF path(1)] path(2) Cons.prems(3,4) c p(2) out(1)
    by (simp add: serve_def requestHandler_def)
  moreover have "map ok_body (serve_requests NewRequest Do redirect rs ?lb main_servers) =
      map (\<lambda>c. Some (greeting_from (port_of c))) (snd (calls smooth_getNext main_servers (Some [2, 3, 4]) (length rs) a'))"
    using Cons.prems by (intro Cons.IH [OF _ good]) simp_all
  ultimately show ?case using out(2) by (simp add: c p(2) split_beta port_of_def)
qed simp

lemma count_list_map_inj: "(\<And>y. y \<in> set xs \<Longrightarrow> f y = f x \<Longrightarrow> y = x) \<Longrightarrow> count_list (map f xs) (f x) = count_list xs x"
  by (induction xs) auto

lemma dec_ports: "dec 9002 = ''9002''" "dec 9003 = ''9003''"
  by (simp add: dec.simps digit_char_def, code_simp)+

lemma greetings_distinct:
  "greeting_from 9001 \<noteq> greeting_from 9002" "greeting_from 9001 \<noteq> greeting_from 9003" "greeting_from 9002 \<noteq> greeting_from 9003"
  by (simp_all add: greeting_from_def text_bytes_def dec_9001 dec_ports)

lemma main_share:
  "count_list (snd (calls smooth_getNext main_servers (Some [2, 3, 4]) (100 * n) (projr (NewSmoothWeightRoundRobin main_weights)))) (Inr (Some 2)) = 50 * n"
  "count_list (snd (calls smooth_getNext main_servers (Some [2, 3, 4]) (100 * n) (projr (NewSmoothWeightRoundRobin main_weights)))) (Inr (Some 3)) = 25 * n"
  "count_list (snd (calls smooth_getNext main_servers (Some [2, 3, 4]) (100 * n) (projr (NewSmoothWeightRoundRobin main_weights)))) (Inr (Some 4)) = 25 * n"
proof -
  have ws: "index (map_of main_weights) ''1'' = 50" "index (map_of main_weights) ''2'' = 25" "index (map_of main_weights) ''3'' = 25"
    by (simp_all add: main_weights_def index_def)
  note exact = smooth_exact [OF main_valid(1) _ main_smooth main_listed]
  show "count_list (snd (calls smooth_getNext main_servers (Some [2, 3, 4]) (100 * n) (projr (NewSmoothWeightRoundRobin main_weights)))) (Inr (Some 2)) = 50 * n"
    using exact [OF _ _ main_find(1), of n] by (simp add: main_valid ws)
  show "count_list (snd (calls smooth_getNext main_servers (Some [2, 3, 4]) (100 * n) (projr (NewSmoothWeightRoundRobin main_weights)))) (Inr (Some 3)) = 25 * n"
    using exact [OF _ _ main_find(2), of n] by (simp add: main_valid ws)
  show "count_list (snd (calls smooth_getNext main_servers (Some [2, 3, 4]) (100 * n) (projr (NewSmoothWeightRoundRobin main_weights)))) (Inr (Some 4)) = 25 * n"
    using exact [OF _ _ main_find(3), of n] by (simp add: main_valid ws)
qed

text \<open>
  How often a port's greeting is among the answers of the load balancer that main starts, in
  terms of the choices of its algorithm.
\<close>

lemma answers_from_port:
  assumes "reaches_backends redirect Do {9001, 9002, 9003}" and "\<forall>u. NewRequest ''GET'' u = None"
    and "\<forall>r \<in> set rs. plain_request r" and p: "p \<in> {2, 3, 4}"
  shows "count_list (map ok_body (serve_requests NewRequest Do redirect rs main_lb main_servers)) (Some (greeting_from (8999 + p))) =
    count_list (snd (calls smooth_getNext main_servers (Some [2, 3, 4]) (length rs) (projr (NewSmoothWeightRoundRobin main_weights)))) (Inr (Some p))"
proof -
  let ?a = "projr (NewSmoothWeightRoundRobin main_weights)"
  let ?f = "\<lambda>c. Some (greeting_from (port_of c))"
  have lb: "Algorithm (Config main_lb) = SmoothWeighted ?a" "Servers (Config main_lb) = [2, 3, 4]"
    by (simp_all add: main_lb_def NewLoadBalancer_def)
  then have good: "smooth_good ?a main_servers [2, 3, 4]" using main_good by simp
  have "y = Inr (Some p)" if y: "y \<in> set (snd (calls smooth_getNext main_servers (Some [2, 3, 4]) (length rs) ?a))" and eq: "?f y = ?f (Inr (Some p))" for y
  proof -
    obtain q where q: "q \<in> {2, 3, 4}" "y = Inr (Some q)" using subsetD [OF smooth.calls_answer [OF good, of "length rs"] y] by auto
    with eq p greetings_distinct show ?thesis by (auto simp: port_of_def)
  qed
  note inj = count_list_map_inj [of _ ?f "Inr (Some p)", OF this]
  from inj serve_requests_bodies [where NewRequest = NewRequest, OF assms(1,2,3) good lb] show ?thesis by (simp add: port_of_def)
qed

text \<open>A network on which the three backends answer.\<close>

definition demo_network :: "BackendRequest \<Rightarrow> BackendResponse result" where
  "demo_network q =
     (let host = take 21 (req_url q)
      in if host = ''http://localhost:9001'' then Inr \<lparr>StatusCode = 200, resp_header = [], resp_body = greeting_from 9001\<rparr>
         else if host = ''http://localhost:9002'' then Inr \<lparr>StatusCode = 200, resp_header = [], resp_body = greeting_from 9002\<rparr>
         else if host = ''http://localhost:9003'' then Inr \<lparr>StatusCode = 200, resp_header = [], resp_body = greeting_from 9003\<rparr>
         else Inl EIO)"

lemma demo_network_reaches: "reaches_backends redirect demo_network {9001, 9002, 9003}"
  unfolding reaches_backends_def
proof (intro ballI allI impI)
  fix port :: nat and q :: BackendRequest and path query
  assume port: "port \<in> {9001, 9002, 9003}" and path: "plain_path path" and url: "req_url q = ''http://localhost:'' @ dec port @ path @ query"
  have "demo_network q = Inr \<lparr>StatusCode = 200, resp_header = [], resp_body = greeting_from port\<rparr>"
    using port by (auto simp: demo_network_def url dec_9001 dec_ports)
  with backend_answers [of path redirect "''backend_server''" port "''GET''"] path
  show "\<exists>b w. demo_network q = Inr b \<and> backend_main redirect [''backend_server'', dec port] ''GET'' path new_writer = Return w \<and>
      status w = Some (StatusCode b) \<and> resp_body b = w_body w"
    by (auto simp: plain_path_def)
qed

definition root_request :: Request where
  "root_request = \<lparr>Method = ''GET'', Path = ''/'', RawQuery = [], Header = [], Body = [], RemoteAddr = [], Host = [], TLS = False\<rparr>"

lemma plain_root_request: "plain_request root_request"
  by (simp add: plain_request_def root_request_def plain_path_def) code_simp

text \<open>
  The URL of the backend is made of the decoded path: a question mark that the client had encoded
  in the path becomes the start of a query, so two different requests are forwarded alike.
\<close>

lemma encoded_question_mark_lost:
  "backendURL server (root_request\<lparr>Path := ''/a?b''\<rparr>) = backendURL server (root_request\<lparr>Path := ''/a'', RawQuery := ''b''\<rparr>)"
  by (simp add: backendURL_def root_request_def)

end
