(* ===== verification/Fair_Primes.thy ===== *)
theory Fair_Primes
  imports Go_Prelude
begin

text \<open>
  The prime counters of src/concurrency-examples/fairness/main.go: ten workers count the
  primes below a bound, either in batches fixed in advance or by drawing the next number
  from a shared counter. The limits are arguments, so that the theorems also speak of
  small instances; the program's own values are \<open>MaxNumber\<close> and \<open>NumWorkers\<close>.
\<close>

section \<open>Testing a number\<close>

definition MaxNumber :: int where
  "MaxNumber = 500000000"

definition NumWorkers :: nat where
  "NumWorkers = 10"

text \<open>\<^verbatim>\<open>atomic.AddInt32\<close> wraps at 32 bits.\<close>

definition wrap32 :: "int \<Rightarrow> int" where
  "wrap32 x = (x + 2 ^ 31) mod 2 ^ 32 - 2 ^ 31"

lemma wrap32_id: "- (2 ^ 31) \<le> x \<Longrightarrow> x < 2 ^ 31 \<Longrightarrow> wrap32 x = x"
  by (simp add: wrap32_def mod_pos_pos_trivial)

text \<open>The loop of \<^verbatim>\<open>isPrime\<close>: no divisor from \<open>i\<close> on whose square is at most \<open>n\<close>.\<close>

function prime_loop :: "int \<Rightarrow> int \<Rightarrow> bool" where
  "prime_loop i n =
     (if 0 < i \<and> i * i \<le> n then (if n mod i = 0 then False else prime_loop (i + 1) n) else True)"
  by pat_completeness auto

termination
proof (relation "measure (\<lambda>(i, n). nat (n + 1 - i))")
  fix i n :: int
  assume *: "0 < i \<and> i * i \<le> n"
  then have "i * 1 \<le> i * i" by (intro mult_left_mono) auto
  with * have "i \<le> n" by linarith
  then show "((i + 1, n), i, n) \<in> measure (\<lambda>(i, n). nat (n + 1 - i))" by auto
qed simp

declare prime_loop.simps [simp del]

text \<open>The verdict and the new value of the counter \<^verbatim>\<open>numPrimes\<close>.\<close>

definition isPrime :: "int \<Rightarrow> int \<Rightarrow> bool \<times> int" where
  "isPrime n numPrimes =
     (if even n then (False, numPrimes)
      else if prime_loop 3 n then (True, wrap32 (numPrimes + 1)) else (False, numPrimes))"

definition prime_number :: "int \<Rightarrow> bool" where
  "prime_number n \<longleftrightarrow> 2 \<le> n \<and> (\<forall>d. 0 < d \<longrightarrow> d dvd n \<longrightarrow> d = 1 \<or> d = n)"

lemma prime_loop_correct:
  "0 < i \<Longrightarrow> prime_loop i n \<longleftrightarrow> (\<forall>d. i \<le> d \<longrightarrow> d * d \<le> n \<longrightarrow> \<not> d dvd n)"
proof (induction i n rule: prime_loop.induct)
  case (1 i n)
  show ?case
  proof (cases "i * i \<le> n")
    case False
    have "\<not> d * d \<le> n" if "i \<le> d" for d
      using that False 1(2) mult_mono [of i d i d] by linarith
    with False show ?thesis by (subst prime_loop.simps) auto
  next
    case le: True
    show ?thesis
    proof (cases "i dvd n")
      case True
      with le 1(2) show ?thesis by (subst prime_loop.simps) (auto simp: dvd_eq_mod_eq_0)
    next
      case False
      then have step: "prime_loop i n \<longleftrightarrow> prime_loop (i + 1) n"
        using le 1(2) by (subst prime_loop.simps) (simp add: dvd_eq_mod_eq_0)
      have rest: "prime_loop (i + 1) n \<longleftrightarrow> (\<forall>d. i + 1 \<le> d \<longrightarrow> d * d \<le> n \<longrightarrow> \<not> d dvd n)"
        using le False 1(2) by (intro 1(1)) (simp_all add: dvd_eq_mod_eq_0)
      have "d = i \<or> i + 1 \<le> d" if "i \<le> d" for d using that by linarith
      with False show ?thesis unfolding step rest by fastforce
    qed
  qed
qed

lemma two_prime: "prime_number 2"
proof -
  have "d = 1 \<or> d = 2" if "0 < d" "d dvd 2" for d :: int
    using that zdvd_imp_le [of d 2] by auto
  then show ?thesis by (simp add: prime_number_def)
qed

text \<open>A composite number has a divisor whose square is at most the number.\<close>

lemma composite_small_divisor:
  assumes "2 \<le> n" and "\<not> prime_number n"
  obtains d where "2 \<le> d" and "d * d \<le> n" and "d dvd n"
proof -
  obtain d where d: "0 < d" "d dvd n" "d \<noteq> 1" "d \<noteq> n"
    using assms by (auto simp: prime_number_def)
  then obtain e where e: "n = d * e" by (auto elim: dvdE)
  have "0 < d * e" using e assms(1) by linarith
  with d(1) have "0 < e" by (simp add: zero_less_mult_iff)
  moreover have "e \<noteq> 1" using e d(4) by auto
  ultimately have "2 \<le> e" "2 \<le> d" using d by auto
  show thesis
  proof (cases "d \<le> e")
    case True
    then have "d * d \<le> n" unfolding e using d(1) by (intro mult_left_mono) auto
    from that [OF \<open>2 \<le> d\<close> this d(2)] show thesis .
  next
    case False
    then have "e * e \<le> n" unfolding e using \<open>0 < e\<close> by (intro mult_right_mono) auto
    from that [OF \<open>2 \<le> e\<close> this] show thesis by (simp add: e)
  qed
qed

text \<open>The test is right for every number but 2, which it takes for composite.\<close>

lemma isPrime_correct:
  assumes "2 \<le> n"
  shows "fst (isPrime n c) \<longleftrightarrow> prime_number n \<and> n \<noteq> 2"
proof (cases "even n")
  case True
  then have "prime_number n \<longrightarrow> (2 :: int) = 1 \<or> 2 = n"
    unfolding prime_number_def by (metis zero_less_numeral)
  with True show ?thesis by (auto simp: isPrime_def)
next
  case odd: False
  have "prime_loop 3 n \<longleftrightarrow> prime_number n"
  proof
    assume "prime_loop 3 n"
    then have none: "\<forall>d. 3 \<le> d \<longrightarrow> d * d \<le> n \<longrightarrow> \<not> d dvd n" by (simp add: prime_loop_correct)
    show "prime_number n"
    proof (rule ccontr)
      assume "\<not> prime_number n"
      with assms obtain d where "2 \<le> d" "d * d \<le> n" "d dvd n" by (rule composite_small_divisor)
      moreover from this odd have "d \<noteq> 2" by auto
      ultimately show False using none by force
    qed
  next
    assume p: "prime_number n"
    have "\<not> d dvd n" if "3 \<le> d" "d * d \<le> n" for d
    proof
      assume "d dvd n"
      with p that have "d = 1 \<or> d = n" unfolding prime_number_def by (metis less_le_trans zero_less_numeral)
      with that have "d = n" by simp
      with that have "n * n \<le> n * 1" by simp
      then show False using assms by (subst (asm) mult_le_cancel_left) auto
    qed
    then show "prime_loop 3 n" by (simp add: prime_loop_correct)
  qed
  with odd show ?thesis by (auto simp: isPrime_def)
qed

lemma isPrime_counts:
  "snd (isPrime n c) = (if fst (isPrime n c) then wrap32 (c + 1) else c)"
  by (simp add: isPrime_def)

section \<open>Batches\<close>

text \<open>
  The batches of \<^verbatim>\<open>nonFairPrimeCalculator\<close>, as the arguments of its goroutines, and a
  worker's loop over a batch.
\<close>

definition batch :: "int \<Rightarrow> nat \<Rightarrow> nat \<Rightarrow> int \<times> int" where
  "batch maxN workers i =
     (let batchSize = maxN div int workers;
          batchStart = 2 + int i * batchSize
      in (batchStart, if i = workers - 1 then maxN else batchStart + batchSize))"

function calculatePrimesInRange :: "int \<Rightarrow> int \<Rightarrow> int \<Rightarrow> int" where
  "calculatePrimesInRange nstart nend numPrimes =
     (if nstart < nend then calculatePrimesInRange (nstart + 1) nend (snd (isPrime nstart numPrimes))
      else numPrimes)"
  by pat_completeness auto

termination
  by (relation "measure (\<lambda>(i, n, c). nat (n - i))") auto

declare calculatePrimesInRange.simps [simp del]

section \<open>Drawing numbers\<close>

text \<open>
  A worker of \<^verbatim>\<open>calculatePrimesFairly\<close> draws a number, tests it, and stops when the number
  is beyond the bound. Every step makes at most one access to a shared counter.
\<close>

datatype worker = Draw | Test int | Stopped

record prime_state =
  primeStart :: int
  numPrimes :: int
  workers :: "nat \<Rightarrow> worker"

fun worker_step :: "int \<Rightarrow> nat \<Rightarrow> prime_state \<Rightarrow> prime_state" where
  "worker_step maxN w s =
     (case workers s w of
        Draw \<Rightarrow>
          (let currentNumber = wrap32 (primeStart s + 1)
           in s\<lparr>primeStart := currentNumber,
                workers := (workers s)(w := if currentNumber > maxN then Stopped else Test currentNumber)\<rparr>)
      | Test n \<Rightarrow>
          s\<lparr>numPrimes := snd (isPrime n (numPrimes s)), workers := (workers s)(w := Draw)\<rparr>
      | Stopped \<Rightarrow> s)"

text \<open>A step is labelled with the worker that takes it and where that worker was.\<close>

inductive prime_step :: "int \<Rightarrow> nat \<Rightarrow> prime_state \<Rightarrow> nat \<times> worker \<Rightarrow> prime_state \<Rightarrow> bool" for maxN N where
  work: "w < N \<Longrightarrow> workers s w \<noteq> Stopped \<Longrightarrow> prime_step maxN N s (w, workers s w) (worker_step maxN w s)"

definition fair_init :: prime_state where
  "fair_init = \<lparr>primeStart = 1, numPrimes = 0, workers = (\<lambda>_. Draw)\<rparr>"

text \<open>The numbers drawn and not yet tested, and the odd primes among a set of numbers.\<close>

definition testing :: "nat \<Rightarrow> prime_state \<Rightarrow> int set" where
  "testing N s = {n. Test n \<in> workers s ` {..<N}}"

definition odd_primes :: "int set \<Rightarrow> int set" where
  "odd_primes A = {n \<in> A. prime_number n \<and> n \<noteq> 2}"

definition prime_inv :: "int \<Rightarrow> nat \<Rightarrow> prime_state \<Rightarrow> bool" where
  "prime_inv maxN N s \<longleftrightarrow>
     1 \<le> primeStart s \<and> primeStart s \<le> maxN + int (card {w. w < N \<and> workers s w = Stopped}) \<and>
     testing N s \<subseteq> {2..min (primeStart s) maxN} \<and>
     (\<forall>v < N. \<forall>w < N. \<forall>n. workers s v = Test n \<longrightarrow> workers s w = Test n \<longrightarrow> v = w) \<and>
     (\<forall>w < N. workers s w = Stopped \<longrightarrow> maxN \<le> primeStart s) \<and>
     numPrimes s = int (card (odd_primes ({2..min (primeStart s) maxN} - testing N s)))"

text \<open>The numbers whose test is over.\<close>

definition handled :: "int \<Rightarrow> nat \<Rightarrow> prime_state \<Rightarrow> int set" where
  "handled maxN N s = {2..min (primeStart s) maxN} - testing N s"

lemma finite_odd_primes [simp]: "finite A \<Longrightarrow> finite (odd_primes A)"
  by (simp add: odd_primes_def)

lemma odd_primes_insert:
  "odd_primes (insert n A) = (if prime_number n \<and> n \<noteq> 2 then insert n (odd_primes A) else odd_primes A)"
  by (auto simp: odd_primes_def)

lemma card_odd_primes_insert:
  "finite A \<Longrightarrow> n \<notin> A \<Longrightarrow>
    card (odd_primes (insert n A)) = (if prime_number n \<and> n \<noteq> 2 then Suc (card (odd_primes A)) else card (odd_primes A))"
  by (simp add: odd_primes_insert) (simp add: odd_primes_def)

lemma stopped_upd:
  assumes "w < N" and "workers s w \<noteq> Stopped"
  shows "card {v. v < N \<and> ((workers s)(w := Stopped)) v = Stopped} =
    Suc (card {v. v < N \<and> workers s v = Stopped})"
proof -
  have "{v. v < N \<and> ((workers s)(w := Stopped)) v = Stopped} = insert w {v. v < N \<and> workers s v = Stopped}"
    using assms by auto
  with assms show ?thesis by simp
qed

lemma stopped_same:
  assumes "workers s w \<noteq> Stopped" and "x \<noteq> Stopped"
  shows "{v. v < N \<and> ((workers s)(w := x)) v = Stopped} = {v. v < N \<and> workers s v = Stopped}"
  using assms by auto

lemma testingI: "w < N \<Longrightarrow> workers s w = Test n \<Longrightarrow> n \<in> testing N s"
  by (metis testing_def image_eqI lessThan_iff mem_Collect_eq)

lemma image_upd: "w < N \<Longrightarrow> (f(w := x)) ` {..<N} = insert x (f ` ({..<N} - {w}))"
  by auto

lemma image_split: "w < N \<Longrightarrow> f ` {..<N} = insert (f w) (f ` ({..<N} - {w}))"
  by auto

lemma testing_upd:
  assumes w: "w < N" and t: "workers t = (workers s)(w := x)"
  shows "\<forall>n. workers s w \<noteq> Test n \<Longrightarrow> \<forall>n. x \<noteq> Test n \<Longrightarrow> testing N t = testing N s"
    and "\<forall>n. workers s w \<noteq> Test n \<Longrightarrow> x = Test m \<Longrightarrow> testing N t = insert m (testing N s)"
    and "workers s w = Test m \<Longrightarrow> \<forall>n. x \<noteq> Test n \<Longrightarrow> \<forall>v < N. workers s v = Test m \<longrightarrow> v = w \<Longrightarrow>
      testing N t = testing N s - {m}"
proof -
  let ?I = "workers s ` ({..<N} - {w})"
  have new: "testing N t = {n. x = Test n} \<union> {n. Test n \<in> ?I}"
    unfolding testing_def t image_upd [OF w] by auto
  have old: "testing N s = {n. workers s w = Test n} \<union> {n. Test n \<in> ?I}"
    unfolding testing_def image_split [OF w, of "workers s"] by auto
  show "\<forall>n. workers s w \<noteq> Test n \<Longrightarrow> \<forall>n. x \<noteq> Test n \<Longrightarrow> testing N t = testing N s"
    unfolding new old by blast
  show "\<forall>n. workers s w \<noteq> Test n \<Longrightarrow> x = Test m \<Longrightarrow> testing N t = insert m (testing N s)"
    unfolding new old by blast
  assume m: "workers s w = Test m" and x: "\<forall>n. x \<noteq> Test n" and only: "\<forall>v < N. workers s v = Test m \<longrightarrow> v = w"
  have "Test m \<notin> ?I"
  proof
    assume "Test m \<in> ?I"
    then obtain v where v: "Test m = workers s v" "v \<in> {..<N} - {w}" by (rule imageE)
    from v(2) have "v < N" "v \<noteq> w" by simp_all
    with only v(1) show False by metis
  qed
  with m x show "testing N t = testing N s - {m}" unfolding new old by auto
qed

lemma stopped_le: "card {v. v < N \<and> P v} \<le> N"
  using card_mono [of "{..<N}" "{v. v < N \<and> P v}"] by auto

lemma prime_inv_init: "1 \<le> maxN \<Longrightarrow> prime_inv maxN N fair_init"
  by (auto simp: prime_inv_def fair_init_def testing_def odd_primes_def)

lemma draw_no_wrap:
  assumes "prime_inv maxN N s" and "maxN + int N < 2 ^ 31" and w: "w < N" "workers s w = Draw"
  shows "wrap32 (primeStart s + 1) = primeStart s + 1"
proof -
  let ?S = "{v. v < N \<and> workers s v = Stopped}"
  have "?S \<subseteq> {..<N} - {w}" using w by auto
  then have "card ?S \<le> card ({..<N} - {w})" by (intro card_mono) simp_all
  then have "card ?S < N" using w(1) by simp
  with assms(1,2) show ?thesis by (intro wrap32_id) (auto simp: prime_inv_def)
qed

text \<open>Drawing a number within the bound adds it to the numbers drawn and under test.\<close>

lemma draw_inv:
  assumes inv: "prime_inv maxN N s" and M: "maxN + int N < 2 ^ 31" and w: "w < N" "workers s w = Draw"
  shows "prime_inv maxN N (worker_step maxN w s) \<and> handled maxN N (worker_step maxN w s) = handled maxN N s"
proof -
  let ?v = "primeStart s + 1" and ?S = "{v. v < N \<and> workers s v = Stopped}"
  from inv have start: "1 \<le> primeStart s" "primeStart s \<le> maxN + int (card ?S)"
    and sub: "testing N s \<subseteq> {2..min (primeStart s) maxN}"
    and inj: "\<forall>u < N. \<forall>w < N. \<forall>n. workers s u = Test n \<longrightarrow> workers s w = Test n \<longrightarrow> u = w"
    and stop: "\<forall>w < N. workers s w = Stopped \<longrightarrow> maxN \<le> primeStart s"
    and cnt: "numPrimes s = int (card (odd_primes ({2..min (primeStart s) maxN} - testing N s)))"
    by (simp_all add: prime_inv_def)
  have wrap: "wrap32 ?v = ?v" by (rule draw_no_wrap [OF inv M w])
  show ?thesis
  proof (cases "?v > maxN")
    case True
    let ?t = "s\<lparr>primeStart := ?v, workers := (workers s)(w := Stopped)\<rparr>"
    have t: "worker_step maxN w s = ?t" using w True by (simp add: wrap Let_def)
    have test: "testing N ?t = testing N s" using w by (intro testing_upd(1) [of w N _ s Stopped]) simp_all
    have range: "min ?v maxN = min (primeStart s) maxN" using True by simp
    have card: "card {v. v < N \<and> ((workers s)(w := Stopped)) v = Stopped} = Suc (card ?S)"
      using w by (intro stopped_upd) simp_all
    show ?thesis
      unfolding t prime_inv_def handled_def test
      using start sub inj stop cnt True range card by simp
  next
    case False
    let ?t = "s\<lparr>primeStart := ?v, workers := (workers s)(w := Test ?v)\<rparr>"
    have t: "worker_step maxN w s = ?t" using w False by (simp add: wrap Let_def)
    have test: "testing N ?t = insert ?v (testing N s)" using w by (intro testing_upd(2) [of w N _ s "Test ?v"]) simp_all
    have range: "{2..min ?v maxN} = insert ?v {2..min (primeStart s) maxN}"
      using False start by auto
    have diff: "insert ?v {2..min (primeStart s) maxN} - insert ?v (testing N s) = {2..min (primeStart s) maxN} - testing N s"
      by auto
    have "?v \<notin> testing N s" using sub by auto
    then have new: "workers s u \<noteq> Test ?v" if "u < N" for u using that testingI by metis
    have ps: "primeStart ?t = ?v" "numPrimes ?t = numPrimes s" "workers ?t = (workers s)(w := Test ?v)" by simp_all
    have stopped: "{u. u < N \<and> ((workers s)(w := Test ?v)) u = Stopped} = ?S"
      using w by (intro stopped_same) simp_all
    show ?thesis
      unfolding t prime_inv_def handled_def test ps range diff stopped
    proof (intro conjI)
      show "1 \<le> ?v" "?v \<le> maxN + int (card ?S)" using start False by simp_all
      show "insert ?v (testing N s) \<subseteq> insert ?v {2..min (primeStart s) maxN}" using sub by auto
      show "\<forall>u < N. \<forall>x < N. \<forall>n. ((workers s)(w := Test ?v)) u = Test n \<longrightarrow> ((workers s)(w := Test ?v)) x = Test n \<longrightarrow> u = x"
        using inj new by (metis fun_upd_apply worker.inject)
      show "\<forall>x < N. ((workers s)(w := Test ?v)) x = Stopped \<longrightarrow> maxN \<le> ?v"
        using stop by (metis False fun_upd_apply worker.distinct(5) not_less zle_add1_eq_le linorder_not_less)
    qed (use cnt in simp_all)
  qed
qed

text \<open>Testing a number counts it when it is an odd prime.\<close>

lemma test_inv:
  assumes inv: "prime_inv maxN N s" and M: "maxN + int N < 2 ^ 31" and w: "w < N" "workers s w = Test n"
  shows "prime_inv maxN N (worker_step maxN w s) \<and> n \<notin> handled maxN N s \<and>
    handled maxN N (worker_step maxN w s) = insert n (handled maxN N s)"
proof -
  let ?A = "{2..min (primeStart s) maxN}" and ?t = "worker_step maxN w s"
  from inv have start: "1 \<le> primeStart s" "primeStart s \<le> maxN + int (card {v. v < N \<and> workers s v = Stopped})"
    and sub: "testing N s \<subseteq> ?A"
    and inj: "\<forall>u < N. \<forall>w < N. \<forall>n. workers s u = Test n \<longrightarrow> workers s w = Test n \<longrightarrow> u = w"
    and stop: "\<forall>w < N. workers s w = Stopped \<longrightarrow> maxN \<le> primeStart s"
    and cnt: "numPrimes s = int (card (odd_primes (?A - testing N s)))"
    by (simp_all add: prime_inv_def)
  have n: "n \<in> testing N s" "n \<in> ?A" using sub testingI [OF w] by blast+
  have "v = w" if "v < N" "workers s v = Test n" for v using inj that w by metis
  then have only: "\<forall>v < N. workers s v = Test n \<longrightarrow> v = w" by blast
  have upd: "workers ?t = (workers s)(w := Draw)" "primeStart ?t = primeStart s" using w by simp_all
  have test: "testing N ?t = testing N s - {n}"
    by (rule testing_upd(3) [OF w(1) upd(1) w(2) _ only]) simp
  have diff: "?A - (testing N s - {n}) = insert n (?A - testing N s)" using n by auto
  then have card: "card (odd_primes (?A - (testing N s - {n}))) =
      (if prime_number n \<and> n \<noteq> 2 then Suc (card (odd_primes (?A - testing N s))) else card (odd_primes (?A - testing N s)))"
    using n by (simp add: card_odd_primes_insert)
  have "card (odd_primes (?A - testing N s)) \<le> card ?A"
    by (intro card_mono) (auto simp: odd_primes_def)
  also have "\<dots> \<le> nat maxN" by auto
  finally have "wrap32 (numPrimes s + 1) = numPrimes s + 1"
    using M cnt n w(1) by (intro wrap32_id) auto
  then have "numPrimes ?t = int (card (odd_primes (?A - (testing N s - {n}))))"
    using w n card cnt isPrime_correct [of n "numPrimes s"] isPrime_counts [of n "numPrimes s"] by simp
  moreover have "{v. v < N \<and> ((workers s)(w := Draw)) v = Stopped} = {v. v < N \<and> workers s v = Stopped}"
    using w by (intro stopped_same) simp_all
  ultimately have "prime_inv maxN N ?t"
    unfolding prime_inv_def test upd
    using start sub inj stop by (auto simp del: worker_step.simps)
  with n diff show ?thesis by (simp add: handled_def test upd del: worker_step.simps)
qed

lemma prime_step_inv:
  assumes "prime_step maxN N s l t" and "prime_inv maxN N s" and "maxN + int N < 2 ^ 31"
  shows "prime_inv maxN N t"
  using assms
proof (cases rule: prime_step.cases)
  case (work w)
  with assms draw_inv [of maxN N s w] test_inv [of maxN N s w] show ?thesis
    by (cases "workers s w") (simp_all del: worker_step.simps)
qed

text \<open>The numbers that a schedule tests, in order.\<close>

fun tested :: "(nat \<times> worker) list \<Rightarrow> int list" where
  "tested [] = []"
| "tested ((w, Test n) # ls) = n # tested ls"
| "tested (l # ls) = tested ls"

lemma tested_handled:
  assumes "run (prime_step maxN N) s ls t" and "prime_inv maxN N s" and "maxN + int N < 2 ^ 31"
  shows "distinct (tested ls) \<and> set (tested ls) \<inter> handled maxN N s = {} \<and>
    handled maxN N t = handled maxN N s \<union> set (tested ls)"
  using assms
proof (induction rule: run.induct)
  case (run_Cons s l t ls u)
  note IH = run_Cons.IH [OF prime_step_inv [OF run_Cons.hyps(1) run_Cons.prems] run_Cons.prems(2)]
  from run_Cons.hyps(1) show ?case
  proof cases
    case (work w)
    show ?thesis
    proof (cases "workers s w")
      case Draw
      with IH work draw_inv [OF run_Cons.prems work(3) Draw] show ?thesis by (simp del: worker_step.simps)
    next
      case (Test n)
      with IH work test_inv [OF run_Cons.prems work(3) Test] show ?thesis by (auto simp del: worker_step.simps)
    qed (use work in simp)
  qed
qed simp

interpretation fair: inv_system "\<lambda>s. s = fair_init" "prime_step maxN N"
    "\<lambda>s. 1 \<le> maxN \<and> maxN + int N < 2 ^ 31 \<longrightarrow> prime_inv maxN N s" for maxN N
  by unfold_locales (use prime_inv_init prime_step_inv in blast)+

text \<open>
  C34. However the workers interleave, when all have stopped every number from 2 to the bound was
  tested exactly once and no other, and the counter is one less than the number of primes up to
  the bound: only the prime 2 is not counted.
\<close>

theorem fair_counts_all_but_two:
  assumes "run (prime_step maxN N) fair_init ls t" and "\<forall>w < N. workers t w = Stopped"
    and "0 < N" and "2 \<le> maxN" and "maxN + int N < 2 ^ 31"
  shows "distinct (tested ls) \<and> set (tested ls) = {2..maxN} \<and>
    numPrimes t + 1 = int (card {n. n \<le> maxN \<and> prime_number n})"
proof -
  have inv: "prime_inv maxN N t"
    using fair.inv_reachable [OF refl assms(1)] assms(4,5) by simp
  have "testing N t = {}" using assms(2) by (auto simp: testing_def)
  moreover have "maxN \<le> primeStart t" using inv assms(2,3) by (auto simp: prime_inv_def)
  ultimately have handled: "handled maxN N t = {2..maxN}" and "numPrimes t = int (card (odd_primes {2..maxN}))"
    using inv by (simp_all add: handled_def prime_inv_def min_absorb2)
  moreover have "{n. n \<le> maxN \<and> prime_number n} = insert 2 (odd_primes {2..maxN})"
    using assms(4) two_prime by (auto simp: odd_primes_def prime_number_def)
  moreover have "2 \<notin> odd_primes {2..maxN}" by (simp add: odd_primes_def)
  moreover have "handled maxN N fair_init = {}" by (simp add: handled_def fair_init_def)
  ultimately show ?thesis
    using tested_handled [OF assms(1) prime_inv_init assms(5)] assms(4) by simp
qed

text \<open>The work left: two steps for every number still to draw, one for every number under test.\<close>

fun under_test :: "worker \<Rightarrow> int" where
  "under_test (Test n) = 1"
| "under_test _ = 0"

definition work_left :: "int \<Rightarrow> nat \<Rightarrow> prime_state \<Rightarrow> int" where
  "work_left maxN N s = 2 * (maxN + int N - primeStart s) +
     (\<Sum>w < N. under_test (workers s w))"

lemma sum_upd:
  fixes f :: "nat \<Rightarrow> int"
  assumes "w < N"
  shows "(\<Sum>v < N. if v = w then y else f v) = (\<Sum>v < N. f v) - f w + y"
proof -
  have "(\<Sum>v < N. if v = w then y else f v) = (\<Sum>v < N. f v + (if v = w then y - f w else 0))"
    by (rule sum.cong) auto
  with assms show ?thesis by (simp add: sum.distrib)
qed

lemma work_left_decreases:
  assumes "prime_step maxN N s l t" and "prime_inv maxN N s" and "maxN + int N < 2 ^ 31"
  shows "work_left maxN N t + 1 \<le> work_left maxN N s"
  using assms(1)
proof cases
  case (work w)
  have upd: "(\<Sum>v < N. under_test (((workers s)(w := x)) v)) =
      (\<Sum>v < N. under_test (workers s v)) - under_test (workers s w) + under_test x" for x
    using sum_upd [OF work(3), of "under_test x" "\<lambda>v. under_test (workers s v)"]
    by (simp add: if_distrib fun_upd_def cong: if_cong)
  show ?thesis
  proof (cases "workers s w")
    case Draw
    from draw_no_wrap [OF assms(2,3) work(3) Draw] show ?thesis
      unfolding work(2) work_left_def using Draw by (simp add: Let_def upd del: fun_upd_apply)
  next
    case (Test n)
    then show ?thesis
      unfolding work(2) work_left_def by (simp add: upd del: fun_upd_apply)
  qed (use work(4) in simp)
qed

lemma run_bounded:
  assumes "run (prime_step maxN N) s ls t" and "prime_inv maxN N s" and "maxN + int N < 2 ^ 31"
  shows "int (length ls) + work_left maxN N t \<le> work_left maxN N s"
  using assms
proof (induction rule: run.induct)
  case (run_Cons s w t ls u)
  from work_left_decreases [OF run_Cons.hyps(1) run_Cons.prems] run_Cons.IH
    prime_step_inv [OF run_Cons.hyps(1) run_Cons.prems] run_Cons.prems(2)
  show ?case by simp
qed simp

lemma work_left_nonneg: "prime_inv maxN N s \<Longrightarrow> 0 \<le> work_left maxN N s"
proof -
  assume "prime_inv maxN N s"
  then have "primeStart s \<le> maxN + int N"
    using stopped_le [of N "\<lambda>w. workers s w = Stopped"] by (simp add: prime_inv_def)
  moreover have "0 \<le> (\<Sum>w < N. under_test (workers s w))"
  proof (intro sum_nonneg)
    show "0 \<le> under_test (workers s w)" for w by (cases "workers s w") simp_all
  qed
  ultimately show ?thesis by (simp add: work_left_def)
qed

text \<open>
  C35. The workers finish: no schedule takes more than \<open>2 * (maxN + N)\<close> steps, and as long as
  some worker has not stopped, a step is possible; so every maximal schedule ends with all
  workers stopped and \<^verbatim>\<open>wg.Wait\<close> returns.
\<close>

theorem fair_workers_finish:
  assumes "run (prime_step maxN N) fair_init ls t" and "1 \<le> maxN" and "maxN + int N < 2 ^ 31"
  shows "int (length ls) \<le> 2 * (maxN + int N) \<and>
    ((\<forall>w < N. workers t w = Stopped) \<or> (\<exists>l u. prime_step maxN N t l u))"
proof -
  have inv: "prime_inv maxN N t" using fair.inv_reachable [OF refl assms(1)] assms(2,3) by simp
  have "work_left maxN N fair_init \<le> 2 * (maxN + int N)"
    by (simp add: work_left_def fair_init_def)
  with run_bounded [OF assms(1) prime_inv_init [OF assms(2)] assms(3)] work_left_nonneg [OF inv]
  have "int (length ls) \<le> 2 * (maxN + int N)" by simp
  then show ?thesis by (blast intro: prime_step.work)
qed

text \<open>One worker and the bound 3: it draws 2, 3 and 4 and counts the prime 3.\<close>

lemma small_run:
  "run (prime_step 3 1) fair_init [(0, Draw), (0, Test 2), (0, Draw), (0, Test 3), (0, Draw)]
     \<lparr>primeStart = 4, numPrimes = 1, workers = (\<lambda>_. Draw)(0 := Stopped)\<rparr>"
proof -
  have p: "snd (isPrime 2 0) = 0" "snd (isPrime 3 0) = 1"
    by (simp_all add: isPrime_def prime_loop.simps [of 3 3] wrap32_id)
  have step: "prime_step 3 1 s (0, workers s 0) (worker_step 3 0 s)" if "workers s 0 \<noteq> Stopped" for s
    using that by (intro prime_step.work) simp_all
  let ?s = "\<lambda>a c x. \<lparr>primeStart = a, numPrimes = c, workers = (\<lambda>_. Draw)(0 := x)\<rparr>"
  have 1: "prime_step 3 1 fair_init (0, Draw) (?s 2 0 (Test 2))"
    using step [of fair_init] by (simp add: fair_init_def wrap32_id)
  have 2: "prime_step 3 1 (?s 2 0 (Test 2)) (0, Test 2) (?s 2 0 Draw)"
    using step [of "?s 2 0 (Test 2)"] by (simp add: p)
  have 3: "prime_step 3 1 (?s 2 0 Draw) (0, Draw) (?s 3 0 (Test 3))"
    using step [of "?s 2 0 Draw"] by (simp add: wrap32_id)
  have 4: "prime_step 3 1 (?s 3 0 (Test 3)) (0, Test 3) (?s 3 1 Draw)"
    using step [of "?s 3 0 (Test 3)"] by (simp add: p)
  have 5: "prime_step 3 1 (?s 3 1 Draw) (0, Draw) (?s 4 1 Stopped)"
    using step [of "?s 3 1 Draw"] by (simp add: wrap32_id)
  from 1 2 3 4 5 show ?thesis by (blast intro: run_Cons run_Nil)
qed

theorem fair_counts_all_but_two_witness:
  "\<exists>ls t. run (prime_step 3 1) fair_init ls t \<and> workers t 0 = Stopped \<and> tested ls = [2, 3] \<and>
     set (tested ls) = {2..3} \<and> numPrimes t + 1 = int (card {n. n \<le> 3 \<and> prime_number n})"
  using fair_counts_all_but_two [OF small_run] small_run by (intro exI conjI) (assumption | simp)+

theorem fair_workers_finish_witness:
  "\<exists>ls t. run (prime_step 3 1) fair_init ls t \<and> length ls = 5 \<and> int (length ls) \<le> 2 * (3 + int 1) \<and>
     (workers t 0 = Stopped \<or> (\<exists>l u. prime_step 3 1 t l u))"
  using fair_workers_finish [OF small_run] small_run by (intro exI conjI) (assumption | simp)+

section \<open>The batches\<close>

lemma calculatePrimesInRange_Cons:
  "a < b \<Longrightarrow> calculatePrimesInRange a b c = calculatePrimesInRange (a + 1) b (snd (isPrime a c))"
  by (subst calculatePrimesInRange.simps) simp

text \<open>A worker's loop over a range counts its odd primes.\<close>

lemma range_counts:
  "2 \<le> a \<Longrightarrow> 0 \<le> c \<Longrightarrow> c + (b - a) < 2 ^ 31 \<Longrightarrow>
    calculatePrimesInRange a b c = c + int (card (odd_primes {a..<b}))"
proof (induction a b c rule: calculatePrimesInRange.induct)
  case (1 a b c)
  show ?case
  proof (cases "a < b")
    case True
    have split: "{a..<b} = insert a {a + 1..<b}" using True by auto
    have "wrap32 (c + 1) = c + 1" using "1.prems" True by (intro wrap32_id) auto
    then have cnt: "snd (isPrime a c) = c + (if prime_number a \<and> a \<noteq> 2 then 1 else 0)"
      using isPrime_correct [of a c] isPrime_counts [of a c] "1.prems"(1) by simp
    have "calculatePrimesInRange a b c = calculatePrimesInRange (a + 1) b (snd (isPrime a c))"
      using True by (rule calculatePrimesInRange_Cons)
    also have "\<dots> = snd (isPrime a c) + int (card (odd_primes {a + 1..<b}))"
      using "1.prems" True cnt by (intro "1.IH") auto
    finally show ?thesis by (simp add: split card_odd_primes_insert cnt)
  next
    case False
    then show ?thesis by (subst calculatePrimesInRange.simps) (simp add: odd_primes_def)
  qed
qed

lemma le_div_mult:
  fixes b k m :: int
  assumes "0 < b"
  shows "k \<le> m div b \<longleftrightarrow> k * b \<le> m"
proof -
  have m: "m = m div b * b + m mod b" "0 \<le> m mod b" "m mod b < b" using assms by simp_all
  show ?thesis
  proof
    assume "k \<le> m div b"
    then have "k * b \<le> m div b * b" using assms by (intro mult_right_mono) auto
    with m show "k * b \<le> m" by linarith
  next
    assume le: "k * b \<le> m"
    show "k \<le> m div b"
    proof (rule ccontr)
      assume "\<not> k \<le> m div b"
      then have "(m div b + 1) * b \<le> k * b" using assms by (intro mult_right_mono) auto
      then have "m div b * b + b \<le> k * b" by (simp add: distrib_right)
      with m le show False by linarith
    qed
  qed
qed

text \<open>Every number from 2 up to the bound lies in the batch of exactly one worker.\<close>

lemma batches_partition:
  assumes "0 < N" and "int N \<le> maxN" and n: "2 \<le> n" "n < maxN"
  shows "\<exists>!i. i < N \<and> fst (batch maxN N i) \<le> n \<and> n < snd (batch maxN N i)"
proof -
  let ?b = "maxN div int N" and ?q = "(n - 2) div (maxN div int N)"
  have b: "0 < ?b" using assms by (simp add: pos_imp_zdiv_pos_iff)
  have member: "fst (batch maxN N i) \<le> n \<and> n < snd (batch maxN N i) \<longleftrightarrow> int i = ?q \<or> (i = N - 1 \<and> int i \<le> ?q)"
    if "i < N" for i
  proof -
    have le: "int i * ?b \<le> n - 2 \<longleftrightarrow> int i \<le> ?q"
      using le_div_mult [OF b, of "int i" "n - 2"] by simp
    have lt: "n - 2 < (int i + 1) * ?b \<longleftrightarrow> ?q < int i + 1"
      using le_div_mult [OF b, of "int i + 1" "n - 2"] by linarith
    show ?thesis
      using le lt n by (auto simp: batch_def Let_def algebra_simps)
  qed
  have q: "0 \<le> ?q" using b n by (simp add: pos_imp_zdiv_nonneg_iff)
  show ?thesis
  proof (intro ex1I [of _ "min (nat ?q) (N - 1)"] conjI)
    let ?i = "min (nat ?q) (N - 1)"
    show i: "?i < N" using assms(1) by simp
    show "fst (batch maxN N ?i) \<le> n" "n < snd (batch maxN N ?i)"
      using member [OF i] q by (auto simp: min_def)
  next
    fix i assume "i < N \<and> fst (batch maxN N i) \<le> n \<and> n < snd (batch maxN N i)"
    then show "i = min (nat ?q) (N - 1)" using member [of i] by auto
  qed
qed

end
