(* ===== verification/Connection_Pool.thy ===== *)
theory Connection_Pool
  imports Go_Prelude "HOL-Library.Multiset"
begin

text \<open>
  The connection pool of src/relational-db/exclusive-locks/db/db.go: a stack of
  connections under a mutex and a buffered channel that counts them. \<^verbatim>\<open>Get\<close> and \<^verbatim>\<open>Put\<close> each
  touch both, in two sections between which other goroutines run. A connection is a number;
  opening one is \<^verbatim>\<open>sql.Open\<close>, which the pool treats as a value.
\<close>

section \<open>The pool\<close>

type_synonym conn = nat

record cpool =
  channel :: nat
  conns :: "conn list"
  maxConn :: nat

text \<open>The loop of \<^verbatim>\<open>newPool\<close>: \<^verbatim>\<open>newConn\<close> panics when \<^verbatim>\<open>sql.Open\<close> fails.\<close>

fun newPool_loop :: "(nat \<Rightarrow> conn option) \<Rightarrow> nat \<Rightarrow> nat \<Rightarrow> cpool \<Rightarrow> cpool outcome" where
  "newPool_loop newConn i 0 pool = Return pool"
| "newPool_loop newConn i (Suc n) pool =
     (case newConn i of
        None \<Rightarrow> Panic
      | Some c \<Rightarrow> newPool_loop newConn (Suc i) n (pool\<lparr>conns := conns pool @ [c], channel := channel pool + 1\<rparr>))"

definition newPool :: "(nat \<Rightarrow> conn option) \<Rightarrow> nat \<Rightarrow> cpool outcome" where
  "newPool newConn m = newPool_loop newConn 0 m \<lparr>channel = 0, conns = [], maxConn = m\<rparr>"

text \<open>The two sections of \<^verbatim>\<open>Put\<close>: appending under the mutex, and the send, which blocks when the channel is full.\<close>

definition Put_append :: "conn \<Rightarrow> cpool \<Rightarrow> cpool" where
  "Put_append c pool = pool\<lparr>conns := conns pool @ [c]\<rparr>"

definition Put_send :: "cpool \<Rightarrow> cpool option" where
  "Put_send pool = (if channel pool < maxConn pool then Some (pool\<lparr>channel := channel pool + 1\<rparr>) else None)"

text \<open>
  The two sections of \<^verbatim>\<open>Get\<close>: the receive, which blocks when the channel is empty, and the
  pop under the mutex, which panics when there is no connection (index \<open>-1\<close>).
\<close>

definition Get_receive :: "cpool \<Rightarrow> cpool option" where
  "Get_receive pool = (if 0 < channel pool then Some (pool\<lparr>channel := channel pool - 1\<rparr>) else None)"

definition Get_pop :: "cpool \<Rightarrow> (conn \<times> cpool) outcome" where
  "Get_pop pool =
     (if length (conns pool) = 0 then Panic
      else (let lastIndex = length (conns pool) - 1
            in Return (conns pool ! lastIndex, pool\<lparr>conns := take lastIndex (conns pool)\<rparr>)))"

text \<open>
  \<^verbatim>\<open>Get\<close> and \<^verbatim>\<open>Put\<close> of a goroutine that is alone; \<open>None\<close> is a call that blocks for ever.
\<close>

definition pool_Get :: "cpool \<Rightarrow> (conn \<times> cpool) outcome option" where
  "pool_Get pool = map_option Get_pop (Get_receive pool)"

definition pool_Put :: "conn \<Rightarrow> cpool \<Rightarrow> cpool option" where
  "pool_Put c pool = Put_send (Put_append c pool)"

section \<open>The pool of the program\<close>

definition dsn :: "string \<Rightarrow> string" where
  "dsn dbName = ''root@tcp(127.0.0.1:3306)/'' @ dbName @ ''?charset=utf8''"

definition reset_seats :: string where
  "reset_seats = ''UPDATE seats SET user_id = NULL''"

definition reset_seats_v2 :: string where
  "reset_seats_v2 = ''UPDATE seats_v2 SET user_id = NULL, version = 1''"

text \<open>
  \<^verbatim>\<open>resetSeats\<close>, with \<^verbatim>\<open>Exec\<close> on a connection as a parameter: an error panics, and the deferred
  \<^verbatim>\<open>Put\<close> runs in every case.
\<close>

definition resetSeats :: "(conn \<Rightarrow> string \<Rightarrow> 'd \<Rightarrow> go_error option \<times> 'd) \<Rightarrow> cpool \<Rightarrow> 'd \<Rightarrow> (cpool outcome \<times> 'd) option" where
  "resetSeats exec CommonPool d =
     (case pool_Get CommonPool of
        None \<Rightarrow> None
      | Some Panic \<Rightarrow> Some (Panic, d)
      | Some (Return (c, pool)) \<Rightarrow>
          (case exec c reset_seats d of
             (Some err, d) \<Rightarrow> map_option (\<lambda>p. (Panic, d)) (pool_Put c pool)
           | (None, d) \<Rightarrow>
               (case exec c reset_seats_v2 d of
                  (Some err, d) \<Rightarrow> map_option (\<lambda>p. (Panic, d)) (pool_Put c pool)
                | (None, d) \<Rightarrow> map_option (\<lambda>p. (Return p, d)) (pool_Put c pool))))"

text \<open>\<^verbatim>\<open>Init\<close>, for what \<^verbatim>\<open>sql.Open\<close> gives for the \<open>i\<close>-th connection string.\<close>

definition Init :: "(string \<Rightarrow> nat \<Rightarrow> conn option) \<Rightarrow> (conn \<Rightarrow> string \<Rightarrow> 'd \<Rightarrow> go_error option \<times> 'd) \<Rightarrow> 'd \<Rightarrow> (cpool outcome \<times> 'd) option" where
  "Init sql_Open exec d =
     (case newPool (sql_Open (dsn ''airline_booking'')) 101 of
        Panic \<Rightarrow> Some (Panic, d)
      | Return CommonPool \<Rightarrow> resetSeats exec CommonPool d)"

section \<open>Goroutines\<close>

text \<open>
  The pool and the goroutines between the sections: how many have received and not
  popped, the connections in use, and how many have appended and not sent.
\<close>

record pool_state =
  pool :: cpool
  received :: nat
  in_use :: "conn multiset"
  appended :: nat

datatype pool_event = Receive | Pop conn | PopPanic | Append conn | Send

inductive pool_step :: "pool_state \<Rightarrow> pool_event \<Rightarrow> pool_state \<Rightarrow> bool" where
  receive: "Get_receive (pool s) = Some p \<Longrightarrow>
    pool_step s Receive (s\<lparr>pool := p, received := received s + 1\<rparr>)"
| pop: "0 < received s \<Longrightarrow> Get_pop (pool s) = Return (c, p) \<Longrightarrow>
    pool_step s (Pop c) (s\<lparr>pool := p, received := received s - 1, in_use := add_mset c (in_use s)\<rparr>)"
| pop_panic: "0 < received s \<Longrightarrow> Get_pop (pool s) = Panic \<Longrightarrow> pool_step s PopPanic s"
| append: "c \<in># in_use s \<Longrightarrow>
    pool_step s (Append c) (s\<lparr>pool := Put_append c (pool s), in_use := in_use s - {#c#}, appended := appended s + 1\<rparr>)"
| send: "0 < appended s \<Longrightarrow> Put_send (pool s) = Some p \<Longrightarrow>
    pool_step s Send (s\<lparr>pool := p, appended := appended s - 1\<rparr>)"

inductive_cases pool_stepE: "pool_step s l t"

definition pool_init :: "(nat \<Rightarrow> conn option) \<Rightarrow> nat \<Rightarrow> pool_state \<Rightarrow> bool" where
  "pool_init newConn m s \<longleftrightarrow>
     newPool newConn m = Return (pool s) \<and> received s = 0 \<and> in_use s = {#} \<and> appended s = 0"

text \<open>
  The invariant, for the connections \<open>C\<close> the pool was filled with: every one of them is in
  the stack or in use, and the channel counts the connections that no goroutine between
  two sections accounts for.
\<close>

definition pool_inv :: "conn multiset \<Rightarrow> pool_state \<Rightarrow> bool" where
  "pool_inv C s \<longleftrightarrow>
     mset (conns (pool s)) + in_use s = C \<and> maxConn (pool s) = size C \<and>
     length (conns (pool s)) = channel (pool s) + received s + appended s"

lemma newPool_loop_Return:
  "newPool_loop newConn i n p = Return q \<Longrightarrow>
    conns q = conns p @ map (\<lambda>j. the (newConn j)) [i..<i + n] \<and> channel q = channel p + n \<and> maxConn q = maxConn p"
proof (induction n arbitrary: i p)
  case (Suc n)
  then obtain c where c: "newConn i = Some c" by (cases "newConn i") simp_all
  have "[i..<i + Suc n] = i # [Suc i..<Suc i + n]" by (simp add: upt_conv_Cons del: upt_Suc)
  with Suc.IH [of "Suc i" "p\<lparr>conns := conns p @ [c], channel := channel p + 1\<rparr>"] Suc.prems c show ?case
    by (simp del: upt_Suc)
qed simp

lemma pool_inv_init:
  assumes "pool_init newConn m s"
  shows "pool_inv (mset (map (\<lambda>j. the (newConn j)) [0..<m])) s"
proof -
  have "newPool_loop newConn 0 m \<lparr>channel = 0, conns = [], maxConn = m\<rparr> = Return (pool s)"
    using assms by (simp add: pool_init_def newPool_def)
  from newPool_loop_Return [OF this] assms show ?thesis
    by (simp add: pool_init_def pool_inv_def)
qed

lemma take_last: "xs \<noteq> [] \<Longrightarrow> mset xs = add_mset (xs ! (length xs - 1)) (mset (take (length xs - 1) xs))"
  by (metis append_butlast_last_id butlast_conv_take last_conv_nth mset.simps add.commute
      mset_append mset_single_iff_right union_mset_add_mset_right add_mset_add_single)

lemma pool_inv_step:
  assumes "pool_step s l t" and "pool_inv C s"
  shows "pool_inv C t"
  using assms
proof (induction rule: pool_step.induct)
  case (receive s p)
  then show ?case by (auto simp: pool_inv_def Get_receive_def split: if_splits)
next
  case (pop s c p)
  let ?xs = "conns (pool s)"
  have ne: "?xs \<noteq> []" and c: "c = ?xs ! (length ?xs - 1)" "p = (pool s)\<lparr>conns := take (length ?xs - 1) ?xs\<rparr>"
    using pop.hyps(2) by (auto simp: Get_pop_def Let_def split: if_splits)
  have "mset ?xs = add_mset c (mset (take (length ?xs - 1) ?xs))"
    unfolding c(1) by (rule take_last [OF ne])
  with pop.prems pop.hyps(1) ne show ?case by (auto simp: pool_inv_def c(2) min_def)
next
  case (append c s)
  then show ?case by (auto simp: pool_inv_def Put_append_def ac_simps)
next
  case (send s p)
  then show ?case by (auto simp: pool_inv_def Put_send_def split: if_splits)
qed simp

interpretation pool_sys: inv_system "pool_init newConn m" pool_step
    "pool_inv (mset (map (\<lambda>j. the (newConn j)) [0..<m]))" for newConn m
  by unfold_locales (rule pool_inv_init, assumption, rule pool_inv_step)

text \<open>
  What a state with the invariant can do: a goroutine that has received pops, one that has appended
  sends, and while connections are left one that wants to receive does.
\<close>

lemma pool_inv_pop: "pool_inv C s \<Longrightarrow> 0 < received s \<Longrightarrow> \<exists>c p. Get_pop (pool s) = Return (c, p)"
  by (simp add: pool_inv_def Get_pop_def Let_def)

lemma pool_inv_send:
  assumes "pool_inv C s" and "0 < appended s"
  shows "\<exists>p. Put_send (pool s) = Some p"
proof -
  have "length (conns (pool s)) \<le> size C" using assms(1) unfolding pool_inv_def by (metis le_add1 size_mset size_union)
  with assms show ?thesis by (simp add: pool_inv_def Put_send_def)
qed

lemma pool_inv_receive:
  assumes "pool_inv C s" and "received s + size (in_use s) + appended s < size C"
  shows "\<exists>q. Get_receive (pool s) = Some q"
proof -
  have "length (conns (pool s)) + size (in_use s) = size C"
    using assms(1) unfolding pool_inv_def by (metis size_mset size_union)
  with assms have "0 < channel (pool s)" by (simp add: pool_inv_def)
  then show ?thesis by (simp add: Get_receive_def)
qed

text \<open>
  C36. The pool is safe under every interleaving of any number of goroutines: a connection
  that was opened once is never in use twice nor in use and in the stack, taking one never
  finds the stack empty, and giving one back never blocks, so nobody who holds a
  connection waits.
\<close>

theorem pool_safe:
  assumes "pool_init newConn m s" and "run pool_step s ls t"
    and "distinct (map (\<lambda>j. the (newConn j)) [0..<m])"
  shows "(\<forall>c. count (in_use t) c \<le> 1) \<and> (\<forall>c \<in># in_use t. c \<notin> set (conns (pool t))) \<and>
    (0 < received t \<longrightarrow> (\<exists>c p. Get_pop (pool t) = Return (c, p))) \<and>
    (0 < appended t \<longrightarrow> (\<exists>p. Put_send (pool t) = Some p))"
proof -
  let ?C = "mset (map (\<lambda>j. the (newConn j)) [0..<m])"
  have inv: "pool_inv ?C t" by (rule pool_sys.inv_reachable [OF assms(1,2)])
  have one: "count ?C c \<le> 1" for c
    using assms(3) by (simp add: distinct_count_atmost_1 del: mset_map)
  have split: "count (mset (conns (pool t))) c + count (in_use t) c \<le> 1" for c
    using one [of c] inv unfolding pool_inv_def by (metis count_union)
  have "c \<notin> set (conns (pool t))" if "c \<in># in_use t" for c
  proof
    assume "c \<in> set (conns (pool t))"
    then have "0 < count (mset (conns (pool t))) c" by simp
    moreover from that have "0 < count (in_use t) c" by simp
    ultimately show False using split [of c] by linarith
  qed
  moreover have "count (in_use t) c \<le> 1" for c using split [of c] by linarith
  ultimately show ?thesis using pool_inv_pop [OF inv] pool_inv_send [OF inv] by blast
qed

text \<open>A pool of two connections, one taken and given back.\<close>

definition two_pool :: "conn list \<Rightarrow> nat \<Rightarrow> cpool" where
  "two_pool cs n = \<lparr>channel = n, conns = cs, maxConn = 2\<rparr>"

lemma two_pool_run:
  "run pool_step \<lparr>pool = two_pool [5, 6] 2, received = 0, in_use = {#}, appended = 0\<rparr>
     [Receive, Pop 6, Append 6] \<lparr>pool = two_pool [5, 6] 1, received = 0, in_use = {#}, appended = 1\<rparr>"
proof -
  let ?s = "\<lambda>p r u a. \<lparr>pool = p, received = r, in_use = u, appended = a\<rparr>"
  have 1: "pool_step (?s (two_pool [5, 6] 2) 0 {#} 0) Receive (?s (two_pool [5, 6] 1) 1 {#} 0)"
    using pool_step.receive [of "?s (two_pool [5, 6] 2) 0 {#} 0" "two_pool [5, 6] 1"]
    by (simp add: Get_receive_def two_pool_def)
  have 2: "pool_step (?s (two_pool [5, 6] 1) 1 {#} 0) (Pop 6) (?s (two_pool [5] 1) 0 {#6#} 0)"
    using pool_step.pop [of "?s (two_pool [5, 6] 1) 1 {#} 0" 6 "two_pool [5] 1"]
    by (simp add: Get_pop_def two_pool_def)
  have 3: "pool_step (?s (two_pool [5] 1) 0 {#6#} 0) (Append 6) (?s (two_pool [5, 6] 1) 0 {#} 1)"
    using pool_step.append [of 6 "?s (two_pool [5] 1) 0 {#6#} 0"]
    by (simp add: Put_append_def two_pool_def)
  from 1 2 3 show ?thesis by (blast intro: run_Cons run_Nil)
qed

theorem pool_safe_witness: "\<exists>p. Put_send (two_pool [5, 6] 1) = Some p"
proof -
  have "pool_init (\<lambda>j. Some (5 + j)) 2 \<lparr>pool = two_pool [5, 6] 2, received = 0, in_use = {#}, appended = 0\<rparr>"
    by (simp add: pool_init_def newPool_def two_pool_def numeral_2_eq_2)
  moreover have "distinct (map (\<lambda>j. the (Some (5 + j))) [0..<2 :: nat])"
    by (simp add: numeral_2_eq_2)
  ultimately show ?thesis using pool_safe [OF _ two_pool_run] by fastforce
qed

section \<open>After the start\<close>

text \<open>A connection that is taken and given back leaves the pool as it was.\<close>

lemma pool_Get_Put:
  assumes "0 < channel p" and "channel p \<le> maxConn p" and "conns p \<noteq> []"
  shows "\<exists>c q. pool_Get p = Some (Return (c, q)) \<and> pool_Put c q = Some p"
proof -
  let ?n = "length (conns p) - 1"
  have "take ?n (conns p) @ [conns p ! ?n] = conns p"
    using assms(3) by (metis append_butlast_last_id butlast_conv_take last_conv_nth)
  with assms show ?thesis
    by (simp add: pool_Get_def pool_Put_def Get_receive_def Get_pop_def Put_append_def Put_send_def Let_def)
qed

lemma newPool_Return:
  assumes "newPool newConn m = Return p"
  shows "channel p = m" and "maxConn p = m" and "length (conns p) = m"
  using newPool_loop_Return [OF assms [unfolded newPool_def]] by simp_all

text \<open>The pool after \<^verbatim>\<open>Init\<close> is the new one again.\<close>

lemma Init_pool:
  assumes "Init sql_Open exec d = Some (Return p, d')"
  shows "newPool (sql_Open (dsn ''airline_booking'')) 101 = Return p"
proof (cases "newPool (sql_Open (dsn ''airline_booking'')) 101")
  case (Return q)
  have ne: "conns q \<noteq> []" using newPool_Return(3) [OF Return] by auto
  obtain c r where "pool_Get q = Some (Return (c, r))" "pool_Put c r = Some q"
    using pool_Get_Put [of q] newPool_Return [OF Return] ne by auto
  with assms Return show ?thesis by (auto simp: Init_def resetSeats_def split: prod.splits option.splits)
qed (use assms in \<open>simp add: Init_def\<close>)

text \<open>
  \<^verbatim>\<open>Init\<close> never blocks, and it panics only when a connection cannot be opened or one of its two
  statements fails.
\<close>

lemma newPool_loop_Panic: "newPool_loop newConn i n q = Panic \<Longrightarrow> \<exists>j. i \<le> j \<and> j < i + n \<and> newConn j = None"
proof (induction n arbitrary: i q)
  case (Suc n)
  show ?case
  proof (cases "newConn i")
    case (Some c)
    with Suc.prems have "newPool_loop newConn (Suc i) n (q\<lparr>conns := conns q @ [c], channel := channel q + 1\<rparr>) = Panic" by simp
    from Suc.IH [OF this] obtain j where "Suc i \<le> j" "j < Suc i + n" "newConn j = None" by blast
    then show ?thesis by (intro exI [of _ j]) simp
  qed auto
qed simp

lemma Init_result:
  "Init sql_Open exec d \<noteq> None"
  "Init sql_Open exec d = Some (Panic, d') \<Longrightarrow>
     (\<exists>j < 101. sql_Open (dsn ''airline_booking'') j = None) \<or>
     (\<exists>c. fst (exec c reset_seats d) \<noteq> None \<or> fst (exec c reset_seats_v2 (snd (exec c reset_seats d))) \<noteq> None)"
proof -
  have "Init sql_Open exec d \<noteq> None \<and> (Init sql_Open exec d = Some (Panic, d') \<longrightarrow>
     (\<exists>j < 101. sql_Open (dsn ''airline_booking'') j = None) \<or>
     (\<exists>c. fst (exec c reset_seats d) \<noteq> None \<or> fst (exec c reset_seats_v2 (snd (exec c reset_seats d))) \<noteq> None))"
  proof (cases "newPool (sql_Open (dsn ''airline_booking'')) 101")
    case Panic
    with newPool_loop_Panic [of _ 0 101] show ?thesis by (fastforce simp: Init_def newPool_def)
  next
    case (Return q)
    have ne: "conns q \<noteq> []" using newPool_Return(3) [OF Return] by auto
    obtain c r where "pool_Get q = Some (Return (c, r))" "pool_Put c r = Some q"
      using pool_Get_Put [of q] newPool_Return [OF Return] ne by auto
    with Return show ?thesis
      by (auto simp: Init_def resetSeats_def split: prod.splits option.splits) (metis fst_conv option.discI snd_conv)+
  qed
  then show "Init sql_Open exec d \<noteq> None"
    and "Init sql_Open exec d = Some (Panic, d') \<Longrightarrow>
     (\<exists>j < 101. sql_Open (dsn ''airline_booking'') j = None) \<or>
     (\<exists>c. fst (exec c reset_seats d) \<noteq> None \<or> fst (exec c reset_seats_v2 (snd (exec c reset_seats d))) \<noteq> None)" by blast+
qed

text \<open>
  After \<^verbatim>\<open>Init\<close>, a hundred bookings never wait for a connection: the pool has one more than
  there are users, and as long as at most a hundred goroutines are taking, holding or giving back
  a connection, the next \<^verbatim>\<open>Get\<close> receives at once.
\<close>

theorem bookings_never_wait:
  assumes "Init sql_Open exec d = Some (Return p, d')"
    and "run pool_step \<lparr>pool = p, received = 0, in_use = {#}, appended = 0\<rparr> ls t"
    and "received t + size (in_use t) + appended t \<le> 100"
  shows "\<exists>q. Get_receive (pool t) = Some q"
proof -
  let ?s = "\<lparr>pool = p, received = 0, in_use = {#}, appended = 0\<rparr>"
  let ?C = "mset (map (\<lambda>j. the (sql_Open (dsn ''airline_booking'') j)) [0..<101])"
  have "pool_init (sql_Open (dsn ''airline_booking'')) 101 ?s" using Init_pool [OF assms(1)] by (simp add: pool_init_def)
  from pool_sys.inv_reachable [OF this assms(2)] have inv: "pool_inv ?C t" .
  show ?thesis by (rule pool_inv_receive [OF inv]) (use assms(3) in simp)
qed

theorem bookings_never_wait_witness:
  "\<exists>p t q. Init (\<lambda>s i. Some i) (\<lambda>c s d. (None, d)) () = Some (Return p, ()) \<and>
     run pool_step \<lparr>pool = p, received = 0, in_use = {#}, appended = 0\<rparr> [Receive] t \<and> Get_receive (pool t) = Some q"
proof -
  obtain p where new: "newPool (\<lambda>i. Some i) 101 = Return p" by (cases "newPool (\<lambda>i. Some i) 101") (simp, code_simp)
  have ne: "conns p \<noteq> []" using newPool_Return(3) [OF new] by auto
  obtain c r where "pool_Get p = Some (Return (c, r))" "pool_Put c r = Some p" using pool_Get_Put [of p] newPool_Return [OF new] ne by auto
  with new have init: "Init (\<lambda>s i. Some i) (\<lambda>c s d. (None, d)) () = Some (Return p, ())"
    by (simp add: Init_def resetSeats_def)
  let ?s = "\<lparr>pool = p, received = 0, in_use = {#}, appended = 0\<rparr>"
  have "pool_step ?s Receive (?s\<lparr>pool := p\<lparr>channel := channel p - 1\<rparr>, received := received ?s + 1\<rparr>)"
    by (rule pool_step.receive) (simp add: Get_receive_def newPool_Return(1) [OF new])
  then have run: "run pool_step ?s [Receive] (?s\<lparr>pool := p\<lparr>channel := channel p - 1\<rparr>, received := received ?s + 1\<rparr>)"
    by simp
  from bookings_never_wait [OF init run] init run show ?thesis by auto
qed

end
