(* ===== verification/Seat_Booking.thy ===== *)
theory Seat_Booking
  imports Go_SQL
begin

text \<open>
  The seat bookings of src/relational-db/exclusive-locks: a hundred goroutines book seats in
  MySQL, with a plain SELECT (noupdate), SELECT ... FOR UPDATE (update), FOR UPDATE SKIP LOCKED
  (updateskip) and optimistic locking (optimisticlock). A booking is a program that sends
  statements and reads answers; the database is a parameter, a relation between its states,
  about which the theorems assume the documented behaviour of transactions and row locks.
\<close>

section \<open>Talking to the database\<close>

text \<open>
  The arguments are numbers; a row has an id, a number and a third column (the user, NULL
  here, or the version).
\<close>

type_synonym user = int
type_synonym seat = int
type_synonym 'd seat_db = "('d, user, int, seat \<times> string \<times> int) database"
type_synonym seat_op = "int db_op"
type_synonym seat_answer = "(seat \<times> string \<times> int) db_answer"

text \<open>What the promises see of a seat: the committed user and version.\<close>

type_synonym 'd seat_view = "('d, user, seat, user option \<times> int) view"

section \<open>Booking with a lock or without\<close>

definition select_plain :: string where
  "select_plain = ''SELECT id, number, user_id FROM seats WHERE user_id IS NULL LIMIT 1''"

definition select_for_update :: string where
  "select_for_update = ''SELECT id, number, user_id FROM seats WHERE user_id IS NULL LIMIT 1 FOR UPDATE''"

definition select_skip_locked :: string where
  "select_skip_locked = ''SELECT id, number, user_id FROM seats WHERE user_id IS NULL LIMIT 1 FOR UPDATE SKIP LOCKED''"

definition update_seat :: string where
  "update_seat = ''UPDATE seats SET user_id = ? WHERE id = ?''"

text \<open>The errors \<^verbatim>\<open>bookSeat\<close> returns.\<close>

datatype booking_error =
    BeginFailed go_error
  | NoAvailableSeats
  | SelectFailed go_error
  | UpdateFailed go_error
  | RowsCheckFailed seat go_error
  | NoRowsAffected seat
  | CommitFailed seat go_error

text \<open>
  Where a call of \<^verbatim>\<open>bookSeat\<close> is: before which operation, with the variables it has set.
  \<open>AtRollback\<close> holds the error that is returned afterwards; \<open>Booked\<close> is the return of nil.
\<close>

datatype booking =
    AtBegin
  | AtSelect
  | AtUpdate seat
  | AtCommit seat
  | AtRollback booking_error
  | Refused booking_error
  | Booked seat

fun book_op :: "string \<Rightarrow> user \<Rightarrow> booking \<Rightarrow> seat_op option" where
  "book_op sel u AtBegin = Some Begin"
| "book_op sel u AtSelect = Some (QueryRow sel [])"
| "book_op sel u (AtUpdate i) = Some (Exec update_seat [u, i])"
| "book_op sel u (AtCommit i) = Some Commit"
| "book_op sel u (AtRollback e) = Some Rollback"
| "book_op sel u (Refused e) = None"
| "book_op sel u (Booked i) = None"

text \<open>The three variants of \<^verbatim>\<open>bookSeat\<close> that differ in their SELECT.\<close>

definition noupdate_op :: "user \<Rightarrow> booking \<Rightarrow> seat_op option" where
  "noupdate_op = book_op select_plain"

definition update_op :: "user \<Rightarrow> booking \<Rightarrow> seat_op option" where
  "update_op = book_op select_for_update"

definition updateskip_op :: "user \<Rightarrow> booking \<Rightarrow> seat_op option" where
  "updateskip_op = book_op select_skip_locked"

fun book_next :: "booking \<Rightarrow> seat_answer \<Rightarrow> booking" where
  "book_next AtBegin (Err e) = Refused (BeginFailed e)"
| "book_next AtBegin Ok = AtSelect"
| "book_next AtSelect NoRows = AtRollback NoAvailableSeats"
| "book_next AtSelect (Err e) = AtRollback (SelectFailed e)"
| "book_next AtSelect (Row (i, number, userID)) = AtUpdate i"
| "book_next (AtUpdate i) (Err e) = AtRollback (UpdateFailed e)"
| "book_next (AtUpdate i) (Result (Inl e)) = AtRollback (RowsCheckFailed i e)"
| "book_next (AtUpdate i) (Result (Inr k)) = (if k = 0 then AtRollback (NoRowsAffected i) else AtCommit i)"
| "book_next (AtCommit i) (Err e) = Refused (CommitFailed i e)"
| "book_next (AtCommit i) Ok = Booked i"
| "book_next (AtRollback e) a = Refused e"
| "book_next c a = c"

section \<open>Booking with optimistic locking\<close>

definition maxAttempts :: nat where
  "maxAttempts = 50"

definition select_version :: string where
  "select_version = ''SELECT id, number, version FROM seats_v2 WHERE user_id IS NULL LIMIT 1''"

definition update_version :: string where
  "update_version = ''UPDATE seats_v2 SET user_id = ?, version = version + 1 WHERE id = ? AND version = ?''"

text \<open>
  The attempt and the place in it. A failed \<^verbatim>\<open>Begin\<close> returns a nil transaction, on which the
  code calls \<^verbatim>\<open>Rollback\<close>: it panics. The \<^verbatim>\<open>Rollback\<close> after a failed \<^verbatim>\<open>Commit\<close> is answered by
  \<^verbatim>\<open>database/sql\<close> with \<^verbatim>\<open>ErrTxDone\<close> and does not reach the database. After the last attempt the call returns nil too, with
  no seat: \<open>Returned None\<close>.
\<close>

datatype attempt =
    OBegin nat
  | OSelect nat
  | OUpdate nat seat int
  | OCommit nat seat int
  | ORollback nat
  | OPanic
  | Returned "seat option"

definition next_attempt :: "nat \<Rightarrow> attempt" where
  "next_attempt j = (if j + 1 \<le> maxAttempts then OBegin (j + 1) else Returned None)"

fun opt_op :: "user \<Rightarrow> attempt \<Rightarrow> seat_op option" where
  "opt_op u (OBegin j) = Some Begin"
| "opt_op u (OSelect j) = Some (QueryRow select_version [])"
| "opt_op u (OUpdate j i v) = Some (Exec update_version [u, i, v])"
| "opt_op u (OCommit j i v) = Some Commit"
| "opt_op u (ORollback j) = Some Rollback"
| "opt_op u OPanic = None"
| "opt_op u (Returned r) = None"

fun opt_next :: "attempt \<Rightarrow> seat_answer \<Rightarrow> attempt" where
  "opt_next (OBegin j) (Err e) = OPanic"
| "opt_next (OBegin j) Ok = OSelect j"
| "opt_next (OSelect j) (Row (i, number, version)) = OUpdate j i version"
| "opt_next (OSelect j) (Err e) = ORollback j"
| "opt_next (OSelect j) NoRows = ORollback j"
| "opt_next (OUpdate j i v) (Err e) = ORollback j"
| "opt_next (OUpdate j i v) (Result (Inl e)) = ORollback j"
| "opt_next (OUpdate j i v) (Result (Inr k)) = (if k = 0 then ORollback j else OCommit j i v)"
| "opt_next (OCommit j i v) (Err e) = next_attempt j"
| "opt_next (OCommit j i v) Ok = Returned (Some i)"
| "opt_next (ORollback j) a = next_attempt j"
| "opt_next c a = c"

section \<open>Concurrent bookings\<close>

text \<open>The users of \<^verbatim>\<open>BookSeats\<close>, whose calls interleave.\<close>

definition users :: "user set" where
  "users = {1..100}"

section \<open>What the database promises\<close>

text \<open>
  Reads: a select of the programs writes nothing; it finds a row without a user, and the one of the
  optimistic variant returns its version; a locking one (\<open>L\<close>) holds the row's lock. A variant works on
  one table, \<^verbatim>\<open>seats\<close> or \<^verbatim>\<open>seats_v2\<close>; the view is that of its table.
\<close>

definition selects :: "'d seat_db \<Rightarrow> 'd seat_view \<Rightarrow> string set \<Rightarrow> bool" where
  "selects db V L \<longleftrightarrow>
     (\<forall>d u s i n x d'. s \<in> insert select_version L \<longrightarrow>
        db d u (QueryRow s []) (Row (i, n, x)) d' \<longrightarrow> pend V d u = Map.empty \<longrightarrow>
        pend V d' u = Map.empty \<and> fst (row V d i) = None \<and>
        (s = select_version \<longrightarrow> snd (row V d i) = x) \<and> (s \<in> L \<longrightarrow> i \<in> locks V d' u))"

text \<open>
  Updates: when a row was affected, the transaction has written the user, and the row's
  current version was the one asked for.
\<close>

definition updates :: "'d seat_db \<Rightarrow> 'd seat_view \<Rightarrow> bool" where
  "updates db V \<longleftrightarrow>
     (\<forall>d u w i k d'. db d u (Exec update_seat [w, i]) (Result (Inr k)) d' \<longrightarrow> k \<noteq> 0 \<longrightarrow>
        pend V d' u = (pend V d u)(i \<mapsto> (Some w, snd (row V d i)))) \<and>
     (\<forall>d u w i x k d'. db d u (Exec update_version [w, i, x]) (Result (Inr k)) d' \<longrightarrow> k \<noteq> 0 \<longrightarrow>
        pend V d u i = None \<longrightarrow>
        snd (row V d i) = x \<and> pend V d' u = (pend V d u)(i \<mapsto> (Some w, x + 1)))"

section \<open>No seat is booked twice: row locks\<close>

text \<open>What a call knows, as long as the server has not ended its transaction.\<close>

fun book_ok :: "'d seat_view \<Rightarrow> 'd \<Rightarrow> user \<Rightarrow> booking \<Rightarrow> bool" where
  "book_ok V d u AtSelect \<longleftrightarrow> gone V d u \<or> pend V d u = Map.empty"
| "book_ok V d u (AtUpdate i) \<longleftrightarrow> gone V d u \<or> pend V d u = Map.empty \<and> i \<in> locks V d u \<and> fst (row V d i) = None"
| "book_ok V d u (AtCommit i) \<longleftrightarrow> gone V d u \<or>
     (\<exists>x. pend V d u = [i \<mapsto> (Some u, x)]) \<and> i \<in> locks V d u \<and> fst (row V d i) = None"
| "book_ok V d u (Booked i) \<longleftrightarrow> fst (row V d i) = Some u"
| "book_ok V d u _ \<longleftrightarrow> True"

lemma book_own_step:
  assumes T: "transactions db V" "db d u q a d'" and S: "selects db V L" "sel \<in> L" and U: "updates db V"
    and ok: "book_ok V d u c" and op: "book_op sel u c = Some q" and fit: "fits q a"
  shows "book_ok V d' u (book_next c a)"
proof (cases c)
  case AtBegin
  with op have q: "q = Begin" by simp
  with transactionsD(4) [OF T] fit AtBegin show ?thesis by (cases a) simp_all
next
  case AtSelect
  with op have q: "q = QueryRow sel []" by simp
  show ?thesis
  proof (cases a)
    case (Row r)
    obtain i n x where r: "r = (i, n, x)" by (cases r)
    have "\<not> gone V d u" using transactionsD(8) [OF T] q Row by auto
    then have "pend V d' u = Map.empty" "fst (row V d i) = None" "i \<in> locks V d' u"
      using S T(2) ok AtSelect unfolding q Row r selects_def by auto
    moreover have "row V d' = row V d" using transactionsD(2) [OF T] q by simp
    ultimately show ?thesis by (simp add: AtSelect Row r)
  qed (use fit q AtSelect in simp_all)
next
  case (AtUpdate i)
  with op have q: "q = Exec update_seat [u, i]" by simp
  have row: "row V d' = row V d" using transactionsD(2) [OF T] q by simp
  show ?thesis
  proof (cases a)
    case (Result r)
    have lk: "locks V d u \<subseteq> locks V d' u" and live: "\<not> gone V d u" using transactionsD(6,8) [OF T] q Result by auto
    show ?thesis
    proof (cases r)
      case (Inr k)
      show ?thesis
      proof (cases "k = 0")
        case False
        with U T(2) have "pend V d' u = (pend V d u)(i \<mapsto> (Some u, snd (row V d i)))"
          unfolding q Result Inr updates_def by blast
        with ok lk live False show ?thesis by (auto simp: AtUpdate Result Inr row)
      qed (simp add: AtUpdate Result Inr)
    qed (simp add: AtUpdate Result)
  qed (use fit q AtUpdate in simp_all)
next
  case (AtCommit i)
  with op have q: "q = Commit" by simp
  show ?thesis
  proof (cases a)
    case Ok
    then have "\<not> gone V d u" using transactionsD(8) [OF T] q by auto
    with Ok transactionsD(3) [OF T q] ok AtCommit show ?thesis by auto
  qed (use fit q AtCommit in simp_all)
next
  case (AtRollback e)
  then show ?thesis by simp
qed (use op in simp_all)

lemma book_other_step:
  assumes T: "transactions db V" "db d v q a d'" and inv: "txn_inv V d" and "u \<noteq> v"
    and ok: "book_ok V d u c" and okv: "book_ok V d v cv" and op: "book_op sel v cv = Some q"
  shows "book_ok V d' u c"
proof -
  note same = transactionsD(1) [OF T assms(4)]
  have locked: "row V d' i = row V d i" if "i \<in> locks V d u" for i
    by (rule row_locked [OF T inv that assms(4)])
  have booked: "row V d' i = row V d i" if "fst (row V d i) = Some u" for i
  proof (cases "q = Commit \<and> \<not> gone V d v")
    case True
    with op obtain j where j: "cv = AtCommit j" by (cases cv) simp_all
    with okv True obtain x where x: "pend V d v = [j \<mapsto> (Some v, x)]" "fst (row V d j) = None" by auto
    with that have "i \<noteq> j" by auto
    from commit_other_row [OF T(1) _ x(1) this] T(2) True show ?thesis by blast
  next
    case False
    with row_unchanged [OF T] show ?thesis by simp
  qed
  show ?thesis using ok locked booked same by (cases c) auto
qed

definition db_good :: "'d seat_db \<Rightarrow> 'd seat_view \<Rightarrow> string set \<Rightarrow> bool" where
  "db_good db V L \<longleftrightarrow> transactions db V \<and> selects db V L \<and> updates db V"

interpretation booking: txn_clients "\<lambda>_. db_good db V L \<and> sel \<in> L" users db V "book_op sel" book_next "book_ok V"
  for db V L sel
  by unfold_locales (auto simp: db_good_def intro: book_own_step book_other_step)

interpretation booking_sys: inv_system "\<lambda>s. idle_db V (fst s) \<and> snd s = (\<lambda>_. AtBegin)"
    "sys_step users db (book_op sel) book_next"
    "\<lambda>s. db_good db V L \<and> sel \<in> L \<longrightarrow> booking.clients_inv V s" for db V L sel
  by unfold_locales (auto intro: booking.clients_start booking.clients_step)

text \<open>
  C9. With \<^verbatim>\<open>FOR UPDATE\<close>, with or without \<^verbatim>\<open>SKIP LOCKED\<close>, no seat is booked by two users,
  however the calls interleave, whichever operations fail and whichever transactions the server ends, and a booked seat stays with
  its user, provided the database keeps the promises of transactions and row locks.
\<close>

theorem locked_no_double_booking:
  assumes "run (sys_step users db opf book_next) (d, \<lambda>_. AtBegin) ls (d', cs)" and "opf \<in> {update_op, updateskip_op}"
    and "idle_db V d" and "transactions db V" and "updates db V"
    and "selects db V {select_for_update, select_skip_locked}" and "cs u = Booked i" and "cs v = Booked i"
  shows "u = v \<and> fst (row V d' i) = Some u"
proof -
  obtain sel where "opf = book_op sel" "sel \<in> {select_for_update, select_skip_locked}"
    using assms(2) by (auto simp: update_op_def updateskip_op_def)
  with assms have "run (sys_step users db (book_op sel) book_next) (d, \<lambda>_. AtBegin) ls (d', cs)"
    "sel \<in> {select_for_update, select_skip_locked}" by simp_all
  note r = this
  have inv: "booking.clients_inv V (d', cs)"
    using booking_sys.inv_reachable [OF _ r(1), of V "{select_for_update, select_skip_locked}"] r(2) assms(3-6)
    by (auto simp: db_good_def)
  have "book_ok V d' u (cs u)" "book_ok V d' v (cs v)" by (rule booking.clients_ok [OF inv])+
  with assms(7,8) show ?thesis by simp
qed

section \<open>No seat is booked twice: optimistic locking\<close>

fun opt_ok :: "'d seat_view \<Rightarrow> 'd \<Rightarrow> user \<Rightarrow> attempt \<Rightarrow> bool" where
  "opt_ok V d u (OSelect j) \<longleftrightarrow> gone V d u \<or> pend V d u = Map.empty"
| "opt_ok V d u (OUpdate j i x) \<longleftrightarrow> gone V d u \<or>
     pend V d u = Map.empty \<and> x \<le> snd (row V d i) \<and> (snd (row V d i) = x \<longrightarrow> fst (row V d i) = None)"
| "opt_ok V d u (OCommit j i x) \<longleftrightarrow> gone V d u \<or>
     pend V d u = [i \<mapsto> (Some u, x + 1)] \<and> row V d i = (None, x)"
| "opt_ok V d u (Returned (Some i)) \<longleftrightarrow> fst (row V d i) = Some u"
| "opt_ok V d u _ \<longleftrightarrow> True"

lemma opt_ok_next_attempt [simp]: "opt_ok V d u (next_attempt j)"
  by (simp add: next_attempt_def)

lemma opt_own_step:
  assumes T: "transactions db V" "db d u q a d'" and S: "selects db V L" and U: "updates db V"
    and ok: "opt_ok V d u c" and op: "opt_op u c = Some q" and fit: "fits q a"
  shows "opt_ok V d' u (opt_next c a)"
proof (cases c)
  case (OBegin j)
  with op have q: "q = Begin" by simp
  with transactionsD(4) [OF T] fit OBegin show ?thesis by (cases a) simp_all
next
  case (OSelect j)
  with op have q: "q = QueryRow select_version []" by simp
  show ?thesis
  proof (cases a)
    case (Row r)
    obtain i n x where r: "r = (i, n, x)" by (cases r)
    have "\<not> gone V d u" using transactionsD(8) [OF T] q Row by auto
    then have "pend V d' u = Map.empty" "fst (row V d i) = None" "snd (row V d i) = x"
      using S T(2) ok OSelect unfolding q Row r selects_def by auto
    moreover have "row V d' = row V d" using transactionsD(2) [OF T] q by simp
    ultimately show ?thesis by (simp add: OSelect Row r)
  qed (use fit q OSelect in simp_all)
next
  case (OUpdate j i x)
  with op have q: "q = Exec update_version [u, i, x]" by simp
  have row: "row V d' = row V d" using transactionsD(2) [OF T] q by simp
  show ?thesis
  proof (cases a)
    case (Result r)
    show ?thesis
    proof (cases r)
      case (Inr k)
      show ?thesis
      proof (cases "k = 0")
        case False
        have live: "\<not> gone V d u" using transactionsD(8) [OF T] q Result by auto
        then have "pend V d u i = None" using ok OUpdate by simp
        with U T(2) False have "snd (row V d i) = x" "pend V d' u = (pend V d u)(i \<mapsto> (Some u, x + 1))"
          unfolding q Result Inr updates_def by blast+
        with ok live False show ?thesis by (auto simp: OUpdate Result Inr row prod_eq_iff)
      qed (simp add: OUpdate Result Inr)
    qed (simp add: OUpdate Result)
  qed (use fit q OUpdate in simp_all)
next
  case (OCommit j i x)
  with op have q: "q = Commit" by simp
  show ?thesis
  proof (cases a)
    case Ok
    then have "\<not> gone V d u" using transactionsD(8) [OF T] q by auto
    with Ok transactionsD(3) [OF T q] ok OCommit show ?thesis by auto
  qed (use fit q OCommit in simp_all)
next
  case (ORollback j)
  then show ?thesis by simp
qed (use op in simp_all)

text \<open>A commit of another call raises the version of the row it changes.\<close>

lemma opt_row_step:
  assumes T: "transactions db V" "db d v q a d'" and okv: "opt_ok V d v cv" and op: "opt_op v cv = Some q"
  shows "row V d' i = row V d i \<or>
    fst (row V d i) = None \<and> snd (row V d' i) = snd (row V d i) + 1 \<and> i \<in> dom (pend V d v)"
proof (cases "q = Commit \<and> \<not> gone V d v")
  case True
  with op obtain j k x where c: "cv = OCommit j k x" by (cases cv) simp_all
  with okv True have k: "pend V d v = [k \<mapsto> (Some v, x + 1)]" "row V d k = (None, x)" by simp_all
  show ?thesis
  proof (cases "i = k")
    case same: True
    from transactionsD(3) [OF T] True k same show ?thesis by auto
  next
    case False
    from commit_other_row [OF T(1) _ k(1) False] T(2) True show ?thesis by blast
  qed
next
  case False
  with row_unchanged [OF T] show ?thesis by simp
qed

lemma opt_other_step:
  assumes T: "transactions db V" "db d v q a d'" and inv: "txn_inv V d" and "u \<noteq> v"
    and ok: "opt_ok V d u c" and okv: "opt_ok V d v cv" and op: "opt_op v cv = Some q"
  shows "opt_ok V d' u c"
proof -
  note same = transactionsD(1) [OF T assms(4)]
  note change = opt_row_step [OF T okv op]
  show ?thesis
  proof (cases c)
    case (OUpdate j i x)
    with ok same change [of i] show ?thesis by auto
  next
    case (OCommit j i x)
    have "row V d' i = row V d i" if "\<not> gone V d u"
    proof -
      from ok OCommit that have "pend V d u i \<noteq> None" by simp
      then have "i \<in> locks V d u" using inv unfolding txn_inv_def by blast
      then show ?thesis by (rule row_locked [OF T inv _ assms(4)])
    qed
    with ok same OCommit show ?thesis by auto
  next
    case (Returned r)
    with ok same change [of "the r"] show ?thesis by (cases r) auto
  qed (use ok same in auto)
qed

interpretation optimistic: txn_clients "\<lambda>_. db_good db V L" users db V opt_op opt_next "opt_ok V" for db V L
  by unfold_locales (auto simp: db_good_def intro: opt_own_step opt_other_step)

interpretation optimistic_sys: inv_system "\<lambda>s. idle_db V (fst s) \<and> snd s = (\<lambda>_. OBegin 1)"
    "sys_step users db opt_op opt_next" "\<lambda>s. db_good db V L \<longrightarrow> optimistic.clients_inv V s" for db V L
  by unfold_locales (auto intro: optimistic.clients_start optimistic.clients_step)

text \<open>
  Optimistic locking books no seat twice either: of the calls that read a version of a
  seat at most one finds it unchanged when it updates.
\<close>

theorem optimistic_no_double_booking:
  assumes "run (sys_step users db opt_op opt_next) (d, \<lambda>_. OBegin 1) ls (d', cs)" and "idle_db V d"
    and "transactions db V" and "updates db V" and "selects db V {}"
    and "cs u = Returned (Some i)" and "cs v = Returned (Some i)"
  shows "u = v \<and> fst (row V d' i) = Some u"
proof -
  have inv: "optimistic.clients_inv V (d', cs)"
    using optimistic_sys.inv_reachable [OF _ assms(1), of V "{}"] assms(2-5) by (simp add: db_good_def)
  have "opt_ok V d' u (cs u)" "opt_ok V d' v (cs v)" by (rule optimistic.clients_ok [OF inv])+
  with assms(6,7) show ?thesis by simp
qed

section \<open>A database that keeps the promises\<close>

text \<open>A reference database with the seats in memory. It shows that the promises can be kept.\<close>

type_synonym seat_mem = "(user, seat, user option \<times> int) mem"

inductive mem_db :: "seat_mem seat_db" where
  m_begin: "mem_db d u Begin Ok (mem_end u d)"
| m_read: "s \<in> {select_plain, select_version} \<Longrightarrow> fst (m_row d i) = None \<Longrightarrow>
    mem_db d u (QueryRow s []) (Row (i, [], snd (m_row d i))) d"
| m_read_lock: "s \<in> {select_for_update, select_skip_locked} \<Longrightarrow> fst (m_row d i) = None \<Longrightarrow> mem_free d u i \<Longrightarrow>
    mem_db d u (QueryRow s []) (Row (i, [], 0)) (mem_lock u i d)"
| m_update: "mem_free d u i \<Longrightarrow>
    mem_db d u (Exec update_seat [w, i]) (Result (Inr 1)) (mem_write u i (Some w, snd (m_row d i)) d)"
| m_update_version: "mem_free d u i \<Longrightarrow> snd (m_row d i) = x \<Longrightarrow>
    mem_db d u (Exec update_version [w, i, x]) (Result (Inr 1)) (mem_write u i (Some w, x + 1) d)"
| m_conflict: "snd (m_row d i) \<noteq> x \<Longrightarrow> mem_db d u (Exec update_version [w, i, x]) (Result (Inr 0)) d"
| m_commit: "mem_db d u Commit Ok (mem_commit u d)"
| m_rollback: "mem_db d u Rollback Ok (mem_end u d)"

lemma sql_distinct [simp]:
  "select_version \<noteq> select_plain" "select_version \<noteq> select_for_update" "select_version \<noteq> select_skip_locked"
  "select_plain \<noteq> select_for_update" "select_plain \<noteq> select_skip_locked" "update_seat \<noteq> update_version"
  by (simp_all add: select_version_def select_plain_def select_for_update_def select_skip_locked_def
      update_seat_def update_version_def)

lemma mem_transactions: "transactions mem_db mem_view"
  unfolding transactions_def by (auto elim!: mem_db.cases intro!: mem_calls(1-5))

lemma mem_selects: "L \<subseteq> {select_for_update, select_skip_locked} \<Longrightarrow> selects mem_db mem_view L"
  unfolding selects_def by (auto elim!: mem_db.cases simp: mem_defs)

lemma mem_updates: "updates mem_db mem_view"
  unfolding updates_def by (auto elim!: mem_db.cases simp: mem_defs)

abbreviation free_seats :: seat_mem where
  "free_seats \<equiv> mem_idle (\<lambda>_. (None, 1))"

lemma mem_step:
  assumes "mem_db d u q a d'" and "u \<in> users" and "opf u (cs u) = Some q" and "fits q a"
  shows "sys_step users mem_db opf nxt (d, cs) (u, q, a) (d', cs(u := nxt (cs u) a))"
  using assms by (intro sys_step.step)

lemma users_12: "1 \<in> users" "2 \<in> users"
  by (simp_all add: users_def)

text \<open>One call, alone: it books seat 7.\<close>

lemma book_alone:
  assumes "sel \<in> {select_for_update, select_skip_locked}"
  shows "\<exists>ls d' cs. run (sys_step users mem_db (book_op sel) book_next) (free_seats, \<lambda>_. AtBegin) ls (d', cs) \<and> cs 1 = Booked 7"
proof -
  let ?S = "sys_step users mem_db (book_op sel) book_next"
  obtain d1 where d1: "d1 = mem_end 1 free_seats" by blast
  obtain d2 where d2: "d2 = mem_lock 1 7 d1" by blast
  obtain d3 where d3: "d3 = mem_write 1 7 (Some 1, snd (m_row d2 7)) d2" by blast
  have free: "fst (m_row d1 7) = None" "mem_free d1 1 7" "mem_free d2 1 7"
    by (simp_all add: d1 d2 mem_defs mem_idle_def)
  let ?c = "\<lambda>x. (\<lambda>_. AtBegin)(1 := x)"
  have 1: "?S (free_seats, \<lambda>_. AtBegin) (1, Begin, Ok) (d1, ?c AtSelect)"
    using mem_step [OF m_begin users_12(1), of "book_op sel" "\<lambda>_. AtBegin" book_next free_seats] by (simp add: d1)
  have 2: "?S (d1, ?c AtSelect) (1, QueryRow sel [], Row (7, [], 0)) (d2, ?c (AtUpdate 7))"
    using mem_step [OF m_read_lock [OF assms free(1,2)] users_12(1), of "book_op sel" "?c AtSelect" book_next] by (simp add: d2)
  have 3: "?S (d2, ?c (AtUpdate 7)) (1, Exec update_seat [1, 7], Result (Inr 1)) (d3, ?c (AtCommit 7))"
    using mem_step [OF m_update [OF free(3), of 1] users_12(1), of "book_op sel" "?c (AtUpdate 7)" book_next] by (simp add: d3)
  have 4: "?S (d3, ?c (AtCommit 7)) (1, Commit, Ok) (mem_commit 1 d3, ?c (Booked 7))"
    using mem_step [OF m_commit users_12(1), of "book_op sel" "?c (AtCommit 7)" book_next d3] by simp
  have "run ?S (free_seats, \<lambda>_. AtBegin) [(1, Begin, Ok), (1, QueryRow sel [], Row (7, [], 0)),
      (1, Exec update_seat [1, 7], Result (Inr 1)), (1, Commit, Ok)] (mem_commit 1 d3, ?c (Booked 7))"
    by (rule run_Cons, rule 1, rule run_Cons, rule 2, rule run_Cons, rule 3, rule run_Cons, rule 4, rule run_Nil)
  then show ?thesis by (intro exI conjI) (assumption, simp)
qed

theorem locked_no_double_booking_witness:
  "\<exists>ls d' cs. run (sys_step users mem_db update_op book_next) (free_seats, \<lambda>_. AtBegin) ls (d', cs) \<and>
     cs 1 = Booked 7 \<and> fst (row mem_view d' 7) = Some 1"
proof -
  obtain ls d' cs where r: "run (sys_step users mem_db update_op book_next) (free_seats, \<lambda>_. AtBegin) ls (d', cs)"
    and c: "cs 1 = Booked 7"
    unfolding update_op_def using book_alone [of select_for_update] by blast
  have "fst (row mem_view d' 7) = Some 1"
    using locked_no_double_booking [OF r _ mem_idle_db mem_transactions mem_updates mem_selects c c] by simp
  with r c show ?thesis by blast
qed

lemma optimistic_alone:
  "\<exists>ls d' cs. run (sys_step users mem_db opt_op opt_next) (free_seats, \<lambda>_. OBegin 1) ls (d', cs) \<and> cs 1 = Returned (Some 7)"
proof -
  let ?S = "sys_step users mem_db opt_op opt_next"
  obtain d1 where d1: "d1 = mem_end 1 free_seats" by blast
  obtain d2 where d2: "d2 = mem_write 1 7 (Some 1, 1 + 1) d1" by blast
  have row: "fst (m_row d1 7) = None" "snd (m_row d1 7) = 1" "mem_free d1 1 7"
    by (simp_all add: d1 mem_defs mem_idle_def)
  let ?c = "\<lambda>x. (\<lambda>_. OBegin 1)(1 := x)"
  have 1: "?S (free_seats, \<lambda>_. OBegin 1) (1, Begin, Ok) (d1, ?c (OSelect 1))"
    using mem_step [OF m_begin users_12(1), of opt_op "\<lambda>_. OBegin 1" opt_next free_seats] by (simp add: d1)
  have 2: "?S (d1, ?c (OSelect 1)) (1, QueryRow select_version [], Row (7, [], 1)) (d1, ?c (OUpdate 1 7 1))"
    using mem_step [OF m_read [of select_version, OF _ row(1)] users_12(1), of opt_op "?c (OSelect 1)" opt_next]
    by (simp add: row(2))
  have 3: "?S (d1, ?c (OUpdate 1 7 1)) (1, Exec update_version [1, 7, 1], Result (Inr 1)) (d2, ?c (OCommit 1 7 1))"
    using mem_step [OF m_update_version [OF row(3,2), of 1] users_12(1), of opt_op "?c (OUpdate 1 7 1)" opt_next] by (simp add: d2)
  have 4: "?S (d2, ?c (OCommit 1 7 1)) (1, Commit, Ok) (mem_commit 1 d2, ?c (Returned (Some 7)))"
    using mem_step [OF m_commit users_12(1), of opt_op "?c (OCommit 1 7 1)" opt_next d2] by simp
  have "run ?S (free_seats, \<lambda>_. OBegin 1) [(1, Begin, Ok), (1, QueryRow select_version [], Row (7, [], 1)),
      (1, Exec update_version [1, 7, 1], Result (Inr 1)), (1, Commit, Ok)] (mem_commit 1 d2, ?c (Returned (Some 7)))"
    by (rule run_Cons, rule 1, rule run_Cons, rule 2, rule run_Cons, rule 3, rule run_Cons, rule 4, rule run_Nil)
  then show ?thesis by (intro exI conjI) (assumption, simp)
qed

theorem optimistic_no_double_booking_witness:
  "\<exists>ls d' cs. run (sys_step users mem_db opt_op opt_next) (free_seats, \<lambda>_. OBegin 1) ls (d', cs) \<and>
     cs 1 = Returned (Some 7) \<and> fst (row mem_view d' 7) = Some 1"
proof -
  obtain ls d' cs where r: "run (sys_step users mem_db opt_op opt_next) (free_seats, \<lambda>_. OBegin 1) ls (d', cs)"
    and c: "cs 1 = Returned (Some 7)"
    using optimistic_alone by blast
  have "fst (row mem_view d' 7) = Some 1"
    using optimistic_no_double_booking [OF r mem_idle_db mem_transactions mem_updates mem_selects c c] by simp
  with r c show ?thesis by blast
qed

section \<open>Without a lock\<close>

text \<open>
  The plain SELECT books a seat twice, on a database that keeps all promises: two calls
  read the same free seat, and the second update overwrites the first booking after it was
  reported.
\<close>

theorem plain_select_double_books:
  "\<exists>ls d' cs. run (sys_step users mem_db noupdate_op book_next) (free_seats, \<lambda>_. AtBegin) ls (d', cs) \<and>
     cs 1 = Booked 7 \<and> cs 2 = Booked 7 \<and> fst (row mem_view d' 7) = Some 2"
proof -
  let ?S = "sys_step users mem_db (book_op select_plain) book_next"
  let ?c = "\<lambda>x y. (\<lambda>_. AtBegin)(1 := x, 2 := y)"
  obtain d1 where d1: "d1 = mem_end 1 free_seats" by blast
  obtain d2 where d2: "d2 = mem_end 2 d1" by blast
  obtain d3 where d3: "d3 = mem_write 1 7 (Some 1, snd (m_row d2 7)) d2" by blast
  obtain d4 where d4: "d4 = mem_commit 1 d3" by blast
  obtain d5 where d5: "d5 = mem_write 2 7 (Some 2, snd (m_row d4 7)) d4" by blast
  have sel: "select_plain \<in> {select_plain, select_version}" by simp
  have read: "fst (m_row d2 7) = None" and free: "mem_free d2 1 7" "mem_free d4 2 7"
    by (simp_all add: d1 d2 d3 d4 mem_defs mem_idle_def)
  have last: "fst (m_row (mem_commit 2 d5) 7) = Some 2" by (simp add: d5 mem_defs)
  note step = mem_step [where opf = "book_op select_plain" and nxt = book_next]
  have upd: "(\<lambda>_ :: user. AtBegin)(1 := AtSelect) = ?c AtSelect AtBegin" by (rule ext) simp
  have 1: "?S (free_seats, \<lambda>_. AtBegin) (1, Begin, Ok) (d1, ?c AtSelect AtBegin)"
    unfolding upd [symmetric] using step [OF m_begin users_12(1), of "\<lambda>_. AtBegin" free_seats] by (simp add: d1)
  have 2: "?S (d1, ?c AtSelect AtBegin) (2, Begin, Ok) (d2, ?c AtSelect AtSelect)"
    using step [OF m_begin users_12(2), of "?c AtSelect AtBegin" d1] by (simp add: d2)
  have 3: "?S (d2, ?c AtSelect AtSelect) (1, QueryRow select_plain [], Row (7, [], snd (m_row d2 7))) (d2, ?c (AtUpdate 7) AtSelect)"
    using step [OF m_read [OF sel read] users_12(1), of "?c AtSelect AtSelect"] by (simp add: fun_upd_twist)
  have 4: "?S (d2, ?c (AtUpdate 7) AtSelect) (2, QueryRow select_plain [], Row (7, [], snd (m_row d2 7))) (d2, ?c (AtUpdate 7) (AtUpdate 7))"
    using step [OF m_read [OF sel read] users_12(2), of "?c (AtUpdate 7) AtSelect"] by simp
  have 5: "?S (d2, ?c (AtUpdate 7) (AtUpdate 7)) (1, Exec update_seat [1, 7], Result (Inr 1)) (d3, ?c (AtCommit 7) (AtUpdate 7))"
    using step [OF m_update [OF free(1), of 1] users_12(1), of "?c (AtUpdate 7) (AtUpdate 7)"] by (simp add: d3 fun_upd_twist)
  have 6: "?S (d3, ?c (AtCommit 7) (AtUpdate 7)) (1, Commit, Ok) (d4, ?c (Booked 7) (AtUpdate 7))"
    using step [OF m_commit users_12(1), of "?c (AtCommit 7) (AtUpdate 7)" d3] by (simp add: d4 fun_upd_twist)
  have 7: "?S (d4, ?c (Booked 7) (AtUpdate 7)) (2, Exec update_seat [2, 7], Result (Inr 1)) (d5, ?c (Booked 7) (AtCommit 7))"
    using step [OF m_update [OF free(2), of 2] users_12(2), of "?c (Booked 7) (AtUpdate 7)"] by (simp add: d5)
  have 8: "?S (d5, ?c (Booked 7) (AtCommit 7)) (2, Commit, Ok) (mem_commit 2 d5, ?c (Booked 7) (Booked 7))"
    using step [OF m_commit users_12(2), of "?c (Booked 7) (AtCommit 7)" d5] by simp
  have "\<exists>ls. run ?S (free_seats, \<lambda>_. AtBegin) ls (mem_commit 2 d5, ?c (Booked 7) (Booked 7))"
    by (intro exI) (rule run_Cons, rule 1, rule run_Cons, rule 2, rule run_Cons, rule 3, rule run_Cons, rule 4,
      rule run_Cons, rule 5, rule run_Cons, rule 6, rule run_Cons, rule 7, rule run_Cons, rule 8, rule run_Nil)
  then obtain ls where r: "run ?S (free_seats, \<lambda>_. AtBegin) ls (mem_commit 2 d5, ?c (Booked 7) (Booked 7))" by blast
  show ?thesis
    unfolding noupdate_op_def
    using last by (intro exI [of _ ls] exI [of _ "mem_commit 2 d5"] exI [of _ "?c (Booked 7) (Booked 7)"] conjI r) simp_all
qed

section \<open>Giving up\<close>

text \<open>The answers of an attempt that fails without a panic.\<close>

inductive failed_attempt :: "seat_answer list \<Rightarrow> bool" where
  sold_out: "failed_attempt [Ok, NoRows, a]"
| select_error: "failed_attempt [Ok, Err e, a]"
| update_error: "failed_attempt [Ok, Row (i, n, x), Err e, a]"
| rows_error: "failed_attempt [Ok, Row (i, n, x), Result (Inl e), a]"
| conflict: "failed_attempt [Ok, Row (i, n, x), Result (Inr 0), a]"
| commit_error: "k \<noteq> 0 \<Longrightarrow> failed_attempt [Ok, Row (i, n, x), Result (Inr k), Err e]"

lemma failed_attempt_next: "failed_attempt as \<Longrightarrow> foldl opt_next (OBegin j) as = next_attempt j"
  by (induction rule: failed_attempt.induct) simp_all

lemma failed_attempts:
  "\<forall>as \<in> set ass. failed_attempt as \<Longrightarrow> ass \<noteq> [] \<Longrightarrow> j + length ass = maxAttempts + 1 \<Longrightarrow>
    foldl opt_next (OBegin j) (concat ass) = Returned None"
proof (induction ass arbitrary: j)
  case (Cons as ass)
  then show ?case
    by (cases ass) (auto simp: failed_attempt_next next_attempt_def)
qed simp

text \<open>
  When all fifty attempts fail, also because no seat is left, \<^verbatim>\<open>bookSeat\<close> of the
  optimistic variant returns nil, as after a booking: the caller cannot tell them apart.
\<close>

theorem optimistic_gives_up_silently:
  assumes "length ass = 50" and "\<forall>as \<in> set ass. failed_attempt as"
  shows "foldl opt_next (OBegin 1) (concat ass) = Returned None"
  using assms by (intro failed_attempts) (auto simp: maxAttempts_def)

theorem optimistic_gives_up_silently_witness:
  "foldl opt_next (OBegin 1) (concat (replicate 50 [Ok, NoRows, Ok])) = Returned None"
  by (rule optimistic_gives_up_silently) (simp_all add: failed_attempt.sold_out)

end
