(* ===== verification/Booking_Service.thy ===== *)
theory Booking_Service
  imports Connection_Pool Seat_Booking
begin

text \<open>
  \<^verbatim>\<open>BookSeats\<close> of src/relational-db/exclusive-locks and the main function: a hundred goroutines
  that take a connection from the pool of \<open>Connection_Pool\<close>, run the \<^verbatim>\<open>bookSeat\<close> of \<open>Seat_Booking\<close> on it,
  give it back and sign off at a wait group. The composed system projects onto the pool and
  onto the clients of the database, so what holds of each holds of the whole.
\<close>

section \<open>The programs that are started\<close>

text \<open>
  A variant of \<^verbatim>\<open>bookSeat\<close> between taking the connection and giving it back: what it sends and
  how it reads the answers, where it begins, and where it panics.
\<close>

record 'c booking_program =
  sends :: "user \<Rightarrow> 'c \<Rightarrow> seat_op option"
  reads :: "'c \<Rightarrow> seat_answer \<Rightarrow> 'c"
  first :: 'c
  panics :: "'c \<Rightarrow> bool"

definition SeatBookingWithoutUpdate :: "booking booking_program" where
  "SeatBookingWithoutUpdate = \<lparr>sends = noupdate_op, reads = book_next, first = AtBegin, panics = (\<lambda>_. False)\<rparr>"

definition SeatBookingWithUpdate :: "booking booking_program" where
  "SeatBookingWithUpdate = \<lparr>sends = update_op, reads = book_next, first = AtBegin, panics = (\<lambda>_. False)\<rparr>"

definition SeatBookingWithUpdateSkip :: "booking booking_program" where
  "SeatBookingWithUpdateSkip = \<lparr>sends = updateskip_op, reads = book_next, first = AtBegin, panics = (\<lambda>_. False)\<rparr>"

definition OptimisticLock :: "attempt booking_program" where
  "OptimisticLock = \<lparr>sends = opt_op, reads = opt_next, first = OBegin 1, panics = (\<lambda>c. c = OPanic)\<rparr>"

section \<open>BookSeats\<close>

text \<open>
  Where a goroutine is: not started, before the receive of \<^verbatim>\<open>Get\<close>, before its pop, in \<^verbatim>\<open>bookSeat\<close>
  with its connection, before the send of the deferred \<^verbatim>\<open>Put\<close>, before the deferred \<^verbatim>\<open>wg.Done()\<close>
  (which was deferred first, so it runs last), and ended.
\<close>

datatype 'c goroutine =
    Unstarted
  | Getting
  | Popping
  | Holding conn 'c
  | Sending 'c
  | Signing 'c
  | Exited 'c

text \<open>
  \<^verbatim>\<open>loop_i\<close> is the loop variable of \<^verbatim>\<open>BookSeats\<close>; \<open>finished\<close> says that it has returned, \<open>crashed\<close>
  that a panic has ended the program.
\<close>

record ('d, 'c) service =
  CommonPool :: cpool
  seats :: 'd
  wg_count :: nat
  loop_i :: nat
  routines :: "user \<Rightarrow> 'c goroutine"
  finished :: bool
  crashed :: bool

datatype service_event =
    Go user
  | GetReceive user
  | GetPop user conn
  | GetPanic user
  | Call user seat_op seat_answer
  | PutAppend user conn
  | PutSend user
  | WgDone user
  | WgPanic user
  | Crash user
  | WgWait

text \<open>
  A panic in a goroutine runs its deferred calls and then ends the program. \<^verbatim>\<open>Done\<close> panics
  when the counter would become negative.
\<close>

inductive service_step :: "'d seat_db \<Rightarrow> 'c booking_program \<Rightarrow> ('d, 'c) service \<Rightarrow> service_event \<Rightarrow> ('d, 'c) service \<Rightarrow> bool"
  for db P where
  go: "\<not> crashed s \<Longrightarrow> loop_i s \<le> 100 \<Longrightarrow> u = int (loop_i s) \<Longrightarrow>
    service_step db P s (Go u) (s\<lparr>wg_count := wg_count s + 1, loop_i := loop_i s + 1, routines := (routines s)(u := Getting)\<rparr>)"
| get_receive: "\<not> crashed s \<Longrightarrow> routines s u = Getting \<Longrightarrow> Get_receive (CommonPool s) = Some p \<Longrightarrow>
    service_step db P s (GetReceive u) (s\<lparr>CommonPool := p, routines := (routines s)(u := Popping)\<rparr>)"
| get_pop: "\<not> crashed s \<Longrightarrow> routines s u = Popping \<Longrightarrow> Get_pop (CommonPool s) = Return (c, p) \<Longrightarrow>
    service_step db P s (GetPop u c) (s\<lparr>CommonPool := p, routines := (routines s)(u := Holding c (first P))\<rparr>)"
| get_panic: "\<not> crashed s \<Longrightarrow> routines s u = Popping \<Longrightarrow> Get_pop (CommonPool s) = Panic \<Longrightarrow>
    service_step db P s (GetPanic u) (s\<lparr>crashed := True\<rparr>)"
| call: "\<not> crashed s \<Longrightarrow> routines s u = Holding c x \<Longrightarrow> sends P u x = Some q \<Longrightarrow> db (seats s) u q a d \<Longrightarrow> fits q a \<Longrightarrow>
    service_step db P s (Call u q a) (s\<lparr>seats := d, routines := (routines s)(u := Holding c (reads P x a))\<rparr>)"
| put_append: "\<not> crashed s \<Longrightarrow> routines s u = Holding c x \<Longrightarrow> sends P u x = None \<Longrightarrow>
    service_step db P s (PutAppend u c) (s\<lparr>CommonPool := Put_append c (CommonPool s), routines := (routines s)(u := Sending x)\<rparr>)"
| put_send: "\<not> crashed s \<Longrightarrow> routines s u = Sending x \<Longrightarrow> Put_send (CommonPool s) = Some p \<Longrightarrow>
    service_step db P s (PutSend u) (s\<lparr>CommonPool := p, routines := (routines s)(u := Signing x)\<rparr>)"
| wg_done: "\<not> crashed s \<Longrightarrow> routines s u = Signing x \<Longrightarrow> 0 < wg_count s \<Longrightarrow>
    service_step db P s (WgDone u) (s\<lparr>wg_count := wg_count s - 1, routines := (routines s)(u := Exited x)\<rparr>)"
| wg_panic: "\<not> crashed s \<Longrightarrow> routines s u = Signing x \<Longrightarrow> wg_count s = 0 \<Longrightarrow>
    service_step db P s (WgPanic u) (s\<lparr>crashed := True\<rparr>)"
| crash: "\<not> crashed s \<Longrightarrow> routines s u = Exited x \<Longrightarrow> panics P x \<Longrightarrow>
    service_step db P s (Crash u) (s\<lparr>crashed := True\<rparr>)"
| wg_wait: "\<not> crashed s \<Longrightarrow> 100 < loop_i s \<Longrightarrow> wg_count s = 0 \<Longrightarrow> \<not> finished s \<Longrightarrow>
    service_step db P s WgWait (s\<lparr>finished := True\<rparr>)"

definition BookSeats :: "cpool \<Rightarrow> 'd \<Rightarrow> ('d, 'c) service" where
  "BookSeats p d = \<lparr>CommonPool = p, seats = d, wg_count = 0, loop_i = 1, routines = (\<lambda>_. Unstarted),
     finished = False, crashed = False\<rparr>"

text \<open>The four methods \<^verbatim>\<open>BookSeats\<close>, each with its \<^verbatim>\<open>bookSeat\<close>.\<close>

definition noupdate_service :: "'d seat_db \<Rightarrow> ('d, booking) service \<Rightarrow> service_event \<Rightarrow> ('d, booking) service \<Rightarrow> bool" where
  "noupdate_service db = service_step db SeatBookingWithoutUpdate"

definition update_service :: "'d seat_db \<Rightarrow> ('d, booking) service \<Rightarrow> service_event \<Rightarrow> ('d, booking) service \<Rightarrow> bool" where
  "update_service db = service_step db SeatBookingWithUpdate"

definition updateskip_service :: "'d seat_db \<Rightarrow> ('d, booking) service \<Rightarrow> service_event \<Rightarrow> ('d, booking) service \<Rightarrow> bool" where
  "updateskip_service db = service_step db SeatBookingWithUpdateSkip"

definition optimistic_service :: "'d seat_db \<Rightarrow> ('d, attempt) service \<Rightarrow> service_event \<Rightarrow> ('d, attempt) service \<Rightarrow> bool" where
  "optimistic_service db = service_step db OptimisticLock"

text \<open>
  The main function: \<^verbatim>\<open>Init\<close>, then \<^verbatim>\<open>BookSeats\<close> of the optimistic variant. It blocks or panics when \<^verbatim>\<open>Init\<close> does.
\<close>

datatype 'd main_state = InitBlocked | InitPanicked 'd | InBookSeats "('d, attempt) service"

inductive exclusive_locks_main :: "(string \<Rightarrow> nat \<Rightarrow> conn option) \<Rightarrow> (conn \<Rightarrow> string \<Rightarrow> 'd \<Rightarrow> go_error option \<times> 'd) \<Rightarrow>
    'd seat_db \<Rightarrow> 'd \<Rightarrow> service_event list \<Rightarrow> 'd main_state \<Rightarrow> bool" for sql_Open exec db d where
  init_blocks: "Init sql_Open exec d = None \<Longrightarrow> exclusive_locks_main sql_Open exec db d [] InitBlocked"
| init_panics: "Init sql_Open exec d = Some (Panic, d') \<Longrightarrow> exclusive_locks_main sql_Open exec db d [] (InitPanicked d')"
| books_seats: "Init sql_Open exec d = Some (Return p, d') \<Longrightarrow> run (optimistic_service db) (BookSeats p d') ls t \<Longrightarrow>
    exclusive_locks_main sql_Open exec db d ls (InBookSeats t)"

inductive_cases in_BookSeatsE: "exclusive_locks_main sql_Open exec db d ls (InBookSeats t)"

section \<open>The pool inside the service\<close>

text \<open>What a goroutine adds to the counters of \<open>pool_state\<close>, and to the wait group.\<close>

fun popping :: "'c goroutine \<Rightarrow> nat" where
  "popping Popping = 1" | "popping _ = 0"

fun held :: "'c goroutine \<Rightarrow> conn multiset" where
  "held (Holding c x) = {#c#}" | "held _ = {#}"

fun sending :: "'c goroutine \<Rightarrow> nat" where
  "sending (Sending x) = 1" | "sending _ = 0"

fun waited_for :: "'c goroutine \<Rightarrow> nat" where
  "waited_for Unstarted = 0" | "waited_for (Exited x) = 0" | "waited_for _ = 1"

definition pool_of :: "('d, 'c) service \<Rightarrow> pool_state" where
  "pool_of s = \<lparr>pool = CommonPool s, received = (\<Sum>u\<in>users. popping (routines s u)),
     in_use = (\<Sum>u\<in>users. held (routines s u)), appended = (\<Sum>u\<in>users. sending (routines s u))\<rparr>"

fun pool_view_step :: "pool_state \<Rightarrow> service_event \<Rightarrow> pool_state \<Rightarrow> bool" where
  "pool_view_step a (GetReceive u) b \<longleftrightarrow> pool_step a Receive b"
| "pool_view_step a (GetPop u c) b \<longleftrightarrow> pool_step a (Pop c) b"
| "pool_view_step a (GetPanic u) b \<longleftrightarrow> pool_step a PopPanic b"
| "pool_view_step a (PutAppend u c) b \<longleftrightarrow> pool_step a (Append c) b"
| "pool_view_step a (PutSend u) b \<longleftrightarrow> pool_step a Send b"
| "pool_view_step a _ b \<longleftrightarrow> b = a"

lemma finite_users [simp]: "finite users"
  by (simp add: users_def)

lemma card_users: "card users = 100"
  by (simp add: users_def)

text \<open>A goroutine that moves changes a sum over the users in its own summand.\<close>

lemma sum_users_upd:
  fixes f :: "'b \<Rightarrow> 'a :: cancel_comm_monoid_add"
  assumes "u \<in> users"
  shows "(\<Sum>v\<in>users. f ((g(u := x)) v)) = (\<Sum>v\<in>users. f (g v)) + f x - f (g u)"
proof -
  have "(\<Sum>v\<in>users - {u}. f ((g(u := x)) v)) = (\<Sum>v\<in>users - {u}. f (g v))"
    by (rule sum.cong) auto
  then have "(\<Sum>v\<in>users. f ((g(u := x)) v)) + f (g u) = (\<Sum>v\<in>users. f (g v)) + f x"
    using sum.remove [OF finite_users assms, of "\<lambda>v. f ((g(u := x)) v)"] sum.remove [OF finite_users assms, of "\<lambda>v. f (g v)"]
    by (simp add: ac_simps)
  then show ?thesis by (metis add_diff_cancel_right')
qed

lemmas pool_sums = sum_users_upd [where f = popping] sum_users_upd [where f = held]
  sum_users_upd [where f = sending] sum_users_upd [where f = waited_for]

text \<open>
  The invariant: which goroutines were started, and that the wait group counts those that have
  not signed off; \<^verbatim>\<open>BookSeats\<close> has returned only when all have.
\<close>

definition wg_inv :: "('d, 'c) service \<Rightarrow> bool" where
  "wg_inv s \<longleftrightarrow>
     1 \<le> loop_i s \<and> loop_i s \<le> 101 \<and> (\<forall>u. routines s u = Unstarted \<longleftrightarrow> u \<notin> {1..<int (loop_i s)}) \<and>
     wg_count s = (\<Sum>u\<in>users. waited_for (routines s u)) \<and> (finished s \<longrightarrow> loop_i s = 101 \<and> wg_count s = 0)"

lemma unstarted_iff: "wg_inv s \<Longrightarrow> routines s u = Unstarted \<longleftrightarrow> u \<notin> {1..<int (loop_i s)}"
  unfolding wg_inv_def by blast

lemma started_user: "wg_inv s \<Longrightarrow> routines s u \<noteq> Unstarted \<Longrightarrow> u \<in> users"
  by (auto simp: wg_inv_def users_def)

text \<open>A goroutine that moves on within its call, and one that starts or signs off.\<close>

lemma wg_inv_move:
  assumes inv: "wg_inv s" and g: "routines s u \<noteq> Unstarted" "routines t = (routines s)(u := x)" "x \<noteq> Unstarted"
    and wg: "wg_count t + waited_for (routines s u) = wg_count s + waited_for x" "wg_count t \<le> wg_count s"
    and same: "loop_i t = loop_i s" "finished t = finished s"
  shows "wg_inv t"
proof -
  have u: "u \<in> users" by (rule started_user [OF inv g(1)])
  have "(\<Sum>v\<in>users. waited_for (routines t v)) = wg_count s + waited_for x - waited_for (routines s u)"
    unfolding g(2) sum_users_upd [OF u] using inv by (simp add: wg_inv_def)
  also have "\<dots> = wg_count t" using wg(1) by simp
  finally have sum: "wg_count t = (\<Sum>v\<in>users. waited_for (routines t v))" by simp
  have start: "routines t v = Unstarted \<longleftrightarrow> v \<notin> {1..<int (loop_i t)}" for v
    using unstarted_iff [OF inv, of v] unstarted_iff [OF inv, of u] g same(1) by auto
  have "finished t \<longrightarrow> wg_count t = 0" using inv wg(2) same(2) by (auto simp: wg_inv_def)
  with sum start inv same show ?thesis unfolding wg_inv_def by simp
qed

lemma wg_inv_step:
  assumes "service_step db P s l t" and inv: "wg_inv s"
  shows "wg_inv t"
  using assms(1)
proof cases
  case (go u)
  note t = go(2)
  have pos: "1 \<le> loop_i s" using inv by (simp add: wg_inv_def)
  have n: "routines s u = Unstarted" using unstarted_iff [OF inv, of u] go(3-) by simp
  have u: "u \<in> users" using inv go(3-) by (simp add: wg_inv_def users_def)
  have "routines t v = Unstarted \<longleftrightarrow> v \<notin> {1..<int (loop_i t)}" for v
    using unstarted_iff [OF inv, of v] go(3-) pos by (auto simp: t)
  moreover have "wg_count t = (\<Sum>v\<in>users. waited_for (routines t v))"
    using sum_users_upd [OF u, of waited_for "routines s" Getting] n inv by (simp add: t wg_inv_def del: fun_upd_apply)
  moreover have "1 \<le> loop_i t" "loop_i t \<le> 101" "\<not> finished t" using inv go(3-) by (auto simp: t wg_inv_def)
  ultimately show ?thesis unfolding wg_inv_def by blast
next
  case (get_receive u p)
  then show ?thesis by (intro wg_inv_move [OF inv, of u t "Popping"]) simp_all
next
  case (get_pop u c p)
  then show ?thesis by (intro wg_inv_move [OF inv, of u t "Holding c (first P)"]) simp_all
next
  case (call u c x q a d)
  then show ?thesis by (intro wg_inv_move [OF inv, of u t "Holding c (reads P x a)"]) simp_all
next
  case (put_append u c x)
  then show ?thesis by (intro wg_inv_move [OF inv, of u t "Sending x"]) simp_all
next
  case (put_send u x p)
  then show ?thesis by (intro wg_inv_move [OF inv, of u t "Signing x"]) simp_all
next
  case (wg_done u x)
  then show ?thesis by (intro wg_inv_move [OF inv, of u t "Exited x"]) simp_all
qed (use inv in \<open>auto simp: wg_inv_def simp del: sum_eq_0_iff\<close>)

text \<open>Every step is one of the pool, or leaves it alone.\<close>

lemma pool_of_pos:
  assumes "u \<in> users"
  shows "routines s u = Popping \<Longrightarrow> 0 < received (pool_of s)"
    and "routines s u = Holding c x \<Longrightarrow> c \<in># in_use (pool_of s)"
    and "routines s u = Sending x \<Longrightarrow> 0 < appended (pool_of s)"
  using sum.remove [OF finite_users assms, of "\<lambda>v. held (routines s v)"]
    sum.remove [OF finite_users assms, of "\<lambda>v. popping (routines s v)"]
    sum.remove [OF finite_users assms, of "\<lambda>v. sending (routines s v)"]
  by (simp_all add: pool_of_def)

lemma pool_simulation:
  assumes "service_step db P s l t" and "wg_inv s"
  shows "pool_view_step (pool_of s) l (pool_of t)"
  using assms
proof (induction rule: service_step.induct)
  case (go s u)
  then have "u \<in> users" and "routines s u = Unstarted" by (auto simp: wg_inv_def users_def)
  then show ?case by (simp add: pool_of_def pool_sums del: fun_upd_apply)
next
  case (get_receive s u p)
  then have "u \<in> users" using started_user [of s u] by simp
  with get_receive.hyps pool_step.receive [of "pool_of s" p] show ?case
    by (simp add: pool_of_def pool_sums del: fun_upd_apply)
next
  case (get_pop s u c p)
  then have u: "u \<in> users" using started_user [of s u] by simp
  from get_pop.hyps pool_step.pop [OF pool_of_pos(1) [OF u], of s c p] show ?case
    by (simp add: pool_of_def pool_sums u del: fun_upd_apply)
next
  case (get_panic s u)
  then have u: "u \<in> users" using started_user [of s u] by simp
  from get_panic.hyps pool_step.pop_panic [OF pool_of_pos(1) [OF u], of s] show ?case by (simp add: pool_of_def)
next
  case (call s u c x q a d)
  then have "u \<in> users" using started_user [of s u] by simp
  with call.hyps show ?case by (simp add: pool_of_def pool_sums del: fun_upd_apply)
next
  case (put_append s u c x)
  then have u: "u \<in> users" using started_user [of s u] by simp
  from put_append.hyps pool_step.append [OF pool_of_pos(2) [OF u], of s c x] show ?case
    by (simp add: pool_of_def pool_sums u del: fun_upd_apply)
next
  case (put_send s u x p)
  then have u: "u \<in> users" using started_user [of s u] by simp
  from put_send.hyps pool_step.send [OF pool_of_pos(3) [OF u], of s x p] show ?case
    by (simp add: pool_of_def pool_sums u del: fun_upd_apply)
next
  case (wg_done s u x)
  then have "u \<in> users" using started_user [of s u] by simp
  with wg_done.hyps show ?case by (simp add: pool_of_def pool_sums del: fun_upd_apply)
qed (simp_all add: pool_of_def)

lemma pool_view_inv: "pool_view_step a l b \<Longrightarrow> pool_inv C a \<Longrightarrow> pool_inv C b"
  by (cases l) (auto intro: pool_inv_step)

definition service_inv :: "conn multiset \<Rightarrow> ('d, 'c) service \<Rightarrow> bool" where
  "service_inv C s \<longleftrightarrow> wg_inv s \<and> pool_inv C (pool_of s)"

definition service_init :: "cpool \<Rightarrow> ('d, 'c) service \<Rightarrow> bool" where
  "service_init p s \<longleftrightarrow> channel p = length (conns p) \<and> maxConn p = length (conns p) \<and> (\<exists>d. s = BookSeats p d)"

lemma service_inv_init: "service_init p s \<Longrightarrow> service_inv (mset (conns p)) s"
  by (auto simp: service_init_def service_inv_def wg_inv_def BookSeats_def pool_of_def pool_inv_def)

lemma service_inv_step: "service_step db P s l t \<Longrightarrow> service_inv C s \<Longrightarrow> service_inv C t"
  unfolding service_inv_def by (blast intro: wg_inv_step pool_view_inv pool_simulation)

interpretation service_pool: refinement "service_init p" "service_step db P" "service_inv (mset (conns p))" pool_of pool_view_step
  for p db P
  by unfold_locales (erule service_inv_init, erule (1) service_inv_step, simp add: service_inv_def pool_simulation)

section \<open>The database clients inside the service\<close>

text \<open>Where the goroutine's \<^verbatim>\<open>bookSeat\<close> is, before and after it has the connection as well.\<close>

fun place :: "'c \<Rightarrow> 'c goroutine \<Rightarrow> 'c" where
  "place c0 (Holding c x) = x"
| "place c0 (Sending x) = x"
| "place c0 (Signing x) = x"
| "place c0 (Exited x) = x"
| "place c0 _ = c0"

definition clients_of :: "'c booking_program \<Rightarrow> ('d, 'c) service \<Rightarrow> 'd \<times> (user \<Rightarrow> 'c)" where
  "clients_of P s = (seats s, \<lambda>u. place (first P) (routines s u))"

fun clients_view_step :: "'d seat_db \<Rightarrow> 'c booking_program \<Rightarrow> 'd \<times> (user \<Rightarrow> 'c) \<Rightarrow> service_event \<Rightarrow> 'd \<times> (user \<Rightarrow> 'c) \<Rightarrow> bool" where
  "clients_view_step db P x (Call u q a) y \<longleftrightarrow> sys_step users db (sends P) (reads P) x (u, q, a) y"
| "clients_view_step db P x l y \<longleftrightarrow> y = x"

lemma clients_of_move: "place (first P) x = place (first P) (routines s u) \<Longrightarrow>
    (\<lambda>v. place (first P) (((routines s)(u := x)) v)) = (\<lambda>v. place (first P) (routines s v))"
  by (rule ext) simp

lemma clients_simulation:
  assumes "service_step db P s l t" and "service_inv C s"
  shows "clients_view_step db P (clients_of P s) l (clients_of P t)"
  using assms
proof (induction rule: service_step.induct)
  case (go s u)
  then have "routines s u = Unstarted" by (auto simp: service_inv_def wg_inv_def)
  then show ?case using clients_of_move [of P Getting s u] by (simp add: clients_of_def)
next
  case (call s u c x q a d)
  then have "u \<in> users" using started_user [of s u] by (simp add: service_inv_def)
  moreover have "(\<lambda>v. place (first P) (((routines s)(u := Holding c (reads P x a))) v)) =
    (\<lambda>v. place (first P) (routines s v))(u := reads P x a)" by (rule ext) simp
  ultimately show ?case
    using call.hyps sys_step.step [of u users "sends P" "\<lambda>v. place (first P) (routines s v)" q db "seats s" a d "reads P"]
    by (simp add: clients_of_def)
qed (simp_all add: clients_of_def clients_of_move del: fun_upd_apply)

interpretation service_clients: refinement "service_init p" "service_step db P" "service_inv (mset (conns p))"
    "clients_of P" "clients_view_step db P" for p db P
  by unfold_locales (rule clients_simulation)

text \<open>A run of the service, without what the database does not see.\<close>

fun db_calls :: "service_event list \<Rightarrow> (user \<times> seat_op \<times> seat_answer) list" where
  "db_calls [] = []"
| "db_calls (Call u q a # ls) = (u, q, a) # db_calls ls"
| "db_calls (l # ls) = db_calls ls"

lemma clients_view_run:
  "run (clients_view_step db P) x ls y \<Longrightarrow> run (sys_step users db (sends P) (reads P)) x (db_calls ls) y"
proof (induction rule: run.induct)
  case (run_Cons s l t ls u)
  then show ?case by (cases l) (auto intro: run.run_Cons simp del: run_simps)
qed simp

lemma service_calls:
  assumes "channel p = length (conns p)" and "maxConn p = length (conns p)" and "run (service_step db P) (BookSeats p d) ls t"
  shows "run (sys_step users db (sends P) (reads P)) (d, \<lambda>_. first P) (db_calls ls) (clients_of P t)"
proof -
  have "service_init p (BookSeats p d)" using assms(1,2) by (auto simp: service_init_def)
  from clients_view_run [OF service_clients.init_refines [OF this assms(3)]] show ?thesis
    by (simp add: clients_of_def BookSeats_def)
qed

section \<open>Every run ends\<close>

text \<open>
  What the end of \<^verbatim>\<open>BookSeats\<close> rests on: every answer takes a variant of \<^verbatim>\<open>bookSeat\<close> closer to its
  return. The weight of a goroutine bounds the steps it still takes; the two flags count the end
  of \<^verbatim>\<open>BookSeats\<close> and a crash.
\<close>

locale ranked_program =
  fixes P :: "'c booking_program"
    and rank :: "'c \<Rightarrow> nat"
  assumes rank_step: "sends P u x = Some q \<Longrightarrow> fits q a \<Longrightarrow> rank (reads P x a) < rank x"
begin

fun weight :: "'c goroutine \<Rightarrow> nat" where
  "weight Unstarted = rank (first P) + 6"
| "weight Getting = rank (first P) + 5"
| "weight Popping = rank (first P) + 4"
| "weight (Holding c x) = rank x + 3"
| "weight (Sending x) = 2"
| "weight (Signing x) = 1"
| "weight (Exited x) = 0"

definition steps_left :: "('d, 'c) service \<Rightarrow> nat" where
  "steps_left s = (\<Sum>u\<in>users. weight (routines s u)) + (if finished s then 0 else 1) + (if crashed s then 0 else 1)"

lemma weight_move:
  assumes "u \<in> users" and "weight x < weight (g u)"
  shows "(\<Sum>v\<in>users. weight ((g(u := x)) v)) < (\<Sum>v\<in>users. weight (g v))"
  using sum.remove [OF finite_users assms(1), of "\<lambda>v. weight (g v)"] assms(2)
  unfolding sum_users_upd [OF assms(1)] by simp

lemma steps_left_move:
  assumes "wg_inv s" and "routines s u \<noteq> Unstarted" and "routines t = (routines s)(u := x)"
    and "weight x < weight (routines s u)" and "finished t = finished s" and "crashed t = crashed s"
  shows "steps_left t < steps_left s"
  using weight_move [OF started_user [OF assms(1,2)], of x "routines s"] assms(3-) by (simp add: steps_left_def)

lemma steps_left_step:
  assumes "service_step db P s l t" and inv: "wg_inv s"
  shows "steps_left t < steps_left s"
  using assms(1)
proof cases
  case (go u)
  have "routines s u = Unstarted" using unstarted_iff [OF inv, of u] go(3-) by simp
  moreover have "u \<in> users" using inv go(3-) by (simp add: wg_inv_def users_def)
  ultimately show ?thesis using weight_move [of u Getting "routines s"] go(2) by (simp add: steps_left_def del: fun_upd_apply)
next
  case (get_receive u p)
  then show ?thesis by (intro steps_left_move [OF inv, of u t Popping]) simp_all
next
  case (get_pop u c p)
  then show ?thesis by (intro steps_left_move [OF inv, of u t "Holding c (first P)"]) simp_all
next
  case (call u c x q a d)
  then show ?thesis using rank_step [OF call(5,7)] by (intro steps_left_move [OF inv, of u t "Holding c (reads P x a)"]) simp_all
next
  case (put_append u c x)
  then show ?thesis by (intro steps_left_move [OF inv, of u t "Sending x"]) simp_all
next
  case (put_send u x p)
  then show ?thesis by (intro steps_left_move [OF inv, of u t "Signing x"]) simp_all
next
  case (wg_done u x)
  then show ?thesis by (intro steps_left_move [OF inv, of u t "Exited x"]) simp_all
qed (simp_all add: steps_left_def)

lemma service_run_bounded: "run (service_step db P) s ls t \<Longrightarrow> wg_inv s \<Longrightarrow> length ls + steps_left t \<le> steps_left s"
proof (induction rule: run.induct)
  case (run_Cons s l t ls u)
  from run_Cons.IH [OF wg_inv_step [OF run_Cons.hyps(1) run_Cons.prems]] steps_left_step [OF run_Cons.hyps(1) run_Cons.prems]
  show ?case by simp
qed simp

text \<open>So from every state some run goes on until nothing moves.\<close>

lemma run_stops: "wg_inv s \<Longrightarrow> \<exists>ls t. run (service_step db P) s ls t \<and> (\<nexists>l u. service_step db P t l u)"
proof (induction "steps_left s" arbitrary: s rule: less_induct)
  case less
  show ?case
  proof (cases "\<exists>l t. service_step db P s l t")
    case True
    then obtain l t where step: "service_step db P s l t" by blast
    from less.hyps [OF steps_left_step [OF step less.prems] wg_inv_step [OF step less.prems]] step
    show ?thesis by (blast intro: run_Cons)
  qed (blast intro: run_Nil)
qed

lemma BookSeats_bounded:
  assumes "run (service_step db P) (BookSeats p d) ls t"
  shows "length ls \<le> 100 * (rank (first P) + 6) + 2"
proof -
  have "wg_inv (BookSeats p d)" by (auto simp: wg_inv_def BookSeats_def)
  from service_run_bounded [OF assms this] show ?thesis by (simp add: steps_left_def BookSeats_def card_users)
qed

end

text \<open>A booking that locks or reads plainly sends at most four operations.\<close>

fun booking_rank :: "booking \<Rightarrow> nat" where
  "booking_rank AtBegin = 4" | "booking_rank AtSelect = 3" | "booking_rank (AtUpdate i) = 2"
| "booking_rank (AtCommit i) = 1" | "booking_rank (AtRollback e) = 1"
| "booking_rank (Refused e) = 0" | "booking_rank (Booked i) = 0"

lemma booking_rank_step: "book_op sel u x = Some q \<Longrightarrow> fits q a \<Longrightarrow> booking_rank (book_next x a) < booking_rank x"
  by (cases "(x, a)" rule: book_next.cases) (auto split: if_splits)

interpretation noupdate: ranked_program SeatBookingWithoutUpdate booking_rank
  by unfold_locales (simp add: SeatBookingWithoutUpdate_def noupdate_op_def booking_rank_step)

interpretation update: ranked_program SeatBookingWithUpdate booking_rank
  by unfold_locales (simp add: SeatBookingWithUpdate_def update_op_def booking_rank_step)

interpretation updateskip: ranked_program SeatBookingWithUpdateSkip booking_rank
  by unfold_locales (simp add: SeatBookingWithUpdateSkip_def updateskip_op_def booking_rank_step)

text \<open>The optimistic one at most four in each of its fifty attempts.\<close>

fun attempt_rank :: "attempt \<Rightarrow> nat" where
  "attempt_rank (OBegin j) = 4 * (50 - j) + 4" | "attempt_rank (OSelect j) = 4 * (50 - j) + 3"
| "attempt_rank (OUpdate j i v) = 4 * (50 - j) + 2" | "attempt_rank (OCommit j i v) = 4 * (50 - j) + 1"
| "attempt_rank (ORollback j) = 4 * (50 - j) + 1" | "attempt_rank OPanic = 0" | "attempt_rank (Returned r) = 0"

lemma attempt_rank_next: "attempt_rank (next_attempt j) < Suc (4 * (50 - j))"
  unfolding next_attempt_def maxAttempts_def by (simp, linarith)

lemma attempt_rank_step: "opt_op u x = Some q \<Longrightarrow> fits q a \<Longrightarrow> attempt_rank (opt_next x a) < attempt_rank x"
  by (cases "(x, a)" rule: opt_next.cases) (auto simp: attempt_rank_next split: if_splits)

interpretation optimistic_program: ranked_program OptimisticLock attempt_rank
  by unfold_locales (simp add: OptimisticLock_def attempt_rank_step)

section \<open>No run gets stuck\<close>

text \<open>
  What is asked of the database: every operation may be answered (a statement that waits for a
  lock too long is answered with an error).
\<close>

definition answers :: "'d seat_db \<Rightarrow> bool" where
  "answers db \<longleftrightarrow> (\<forall>d u q. \<exists>a d'. db d u q a d' \<and> fits q a)"

definition stopped :: "('s \<Rightarrow> 'l \<Rightarrow> 's \<Rightarrow> bool) \<Rightarrow> 's \<Rightarrow> bool" where
  "stopped step s \<longleftrightarrow> (\<nexists>l t. step s l t)"

lemma size_sum_mset: "size (\<Sum>u\<in>A. f u) = (\<Sum>u\<in>A. size (f u :: 'a multiset))"
  by (induction A rule: infinite_finite_induct) auto

lemma in_hands: "received (pool_of s) + size (in_use (pool_of s)) + appended (pool_of s) \<le> 100"
proof -
  have one: "popping g + size (held g) + sending g \<le> 1" for g :: "'c goroutine"
    by (cases g) simp_all
  have "(\<Sum>u\<in>users. popping (routines s u) + size (held (routines s u)) + sending (routines s u)) \<le> (\<Sum>u\<in>users. 1)"
    by (rule sum_mono) (rule one)
  then show ?thesis by (simp add: pool_of_def size_sum_mset sum.distrib card_users)
qed

text \<open>With more connections than users, a goroutine that has not signed off can move.\<close>

lemma goroutine_moves:
  assumes inv: "service_inv C s" and C: "100 < size C" and db: "answers db" and "\<not> crashed s"
    and w: "waited_for (routines s u) = 1"
  shows "\<exists>l t. service_step db P s l t"
proof -
  have u: "u \<in> users" by (rule started_user [of s]) (use inv w in \<open>auto simp: service_inv_def\<close>)
  have pool: "pool_inv C (pool_of s)" using inv by (simp add: service_inv_def)
  have cp: "pool (pool_of s) = CommonPool s" by (simp add: pool_of_def)
  show ?thesis
  proof (cases "routines s u")
    case Getting
    obtain p where "Get_receive (CommonPool s) = Some p"
      using pool_inv_receive [OF pool] in_hands [of s] C cp by fastforce
    from service_step.get_receive [OF assms(4) Getting this] show ?thesis by blast
  next
    case Popping
    obtain c p where "Get_pop (CommonPool s) = Return (c, p)"
      using pool_inv_pop [OF pool pool_of_pos(1) [OF u Popping]] cp by auto
    from service_step.get_pop [OF assms(4) Popping this] show ?thesis by blast
  next
    case (Holding c x)
    show ?thesis
    proof (cases "sends P u x")
      case None
      from service_step.put_append [OF assms(4) Holding None] show ?thesis by blast
    next
      case (Some q)
      obtain a d where "db (seats s) u q a d" "fits q a" using db unfolding answers_def by blast
      from service_step.call [where db = db, OF assms(4) Holding Some this] show ?thesis by blast
    qed
  next
    case (Sending x)
    obtain p where "Put_send (CommonPool s) = Some p"
      using pool_inv_send [OF pool pool_of_pos(3) [OF u Sending]] cp by auto
    from service_step.put_send [OF assms(4) Sending this] show ?thesis by blast
  next
    case (Signing x)
    then show ?thesis
      using service_step.wg_done [OF assms(4) Signing, of db P] service_step.wg_panic [OF assms(4) Signing, of db P] by blast
  qed (use w in simp_all)
qed

lemma stopped_finished:
  assumes inv: "service_inv C s" and "100 < size C" and "answers db" and stop: "stopped (service_step db P) s" and nc: "\<not> crashed s"
  shows "finished s"
proof (rule ccontr)
  assume nf: "\<not> finished s"
  have "\<not> loop_i s \<le> 100" using service_step.go [OF nc _ refl, of db P] stop unfolding stopped_def by blast
  moreover have "waited_for (routines s u) = 0" for u
  proof (rule ccontr)
    assume "waited_for (routines s u) \<noteq> 0"
    then have "waited_for (routines s u) = 1" by (cases "routines s u") simp_all
    from goroutine_moves [OF inv assms(2,3) nc this] stop show False unfolding stopped_def by blast
  qed
  ultimately have "service_step db P s WgWait (s\<lparr>finished := True\<rparr>)"
    using service_step.wg_wait [OF nc _ _ nf, of db P] inv by (simp add: service_inv_def wg_inv_def)
  with stop show False unfolding stopped_def by blast
qed

section \<open>How a run ends\<close>

text \<open>
  A goroutine past its \<^verbatim>\<open>bookSeat\<close> has nothing left to send, and a crash has its reason in a
  goroutine whose \<^verbatim>\<open>bookSeat\<close> panicked: neither the pool nor the wait group panics.
\<close>

definition end_inv :: "'c booking_program \<Rightarrow> ('d, 'c) service \<Rightarrow> bool" where
  "end_inv P s \<longleftrightarrow>
     (\<forall>u x. routines s u \<in> {Sending x, Signing x, Exited x} \<longrightarrow> sends P u x = None) \<and>
     (crashed s \<longrightarrow> (\<exists>u x. routines s u = Exited x \<and> panics P x))"

lemma end_inv_step:
  assumes "service_step db P s l t" and inv: "service_inv C s" and e: "end_inv P s"
  shows "end_inv P t"
  using assms(1)
proof cases
  case (get_panic u)
  have u: "u \<in> users" by (rule started_user [of s]) (use inv get_panic in \<open>auto simp: service_inv_def\<close>)
  have "pool_inv C (pool_of s)" using inv by (simp add: service_inv_def)
  from pool_inv_pop [OF this pool_of_pos(1) [OF u get_panic(4)]] get_panic(5) show ?thesis by (simp add: pool_of_def)
next
  case (wg_panic u x)
  have u: "u \<in> users" by (rule started_user [of s]) (use inv wg_panic in \<open>auto simp: service_inv_def\<close>)
  from sum.remove [OF finite_users u, of "\<lambda>v. waited_for (routines s v)"] wg_panic inv show ?thesis
    by (simp add: service_inv_def wg_inv_def)
qed (use e in \<open>auto simp: end_inv_def split: if_splits\<close>)

lemma end_inv_init: "service_init p s \<Longrightarrow> end_inv P s"
  by (auto simp: end_inv_def service_init_def BookSeats_def)

interpretation service_end: inv_system "service_init p" "service_step db P"
    "\<lambda>s. service_inv (mset (conns p)) s \<and> end_inv P s" for p db P
  by unfold_locales (blast intro: service_inv_init end_inv_init, blast intro: service_inv_step end_inv_step)

text \<open>When \<^verbatim>\<open>BookSeats\<close> has returned, all goroutines have ended and all connections are back.\<close>

lemma finished_exited:
  assumes "service_inv C s" and "finished s" and "u \<in> users"
  shows "\<exists>x. routines s u = Exited x"
proof -
  have "(\<Sum>u\<in>users. waited_for (routines s u)) = 0" using assms(1,2) by (auto simp: service_inv_def wg_inv_def simp del: sum_eq_0_iff)
  with assms(3) have "waited_for (routines s u) = 0" by simp
  moreover have "routines s u \<noteq> Unstarted"
    using unstarted_iff [of s u] assms by (auto simp: service_inv_def wg_inv_def users_def)
  ultimately show ?thesis by (cases "routines s u") simp_all
qed

lemma finished_pool:
  assumes inv: "service_inv C s" and "finished s"
  shows "mset (conns (CommonPool s)) = C" and "channel (CommonPool s) = size C"
proof -
  have "popping (routines s u) = 0 \<and> held (routines s u) = {#} \<and> sending (routines s u) = 0" if "u \<in> users" for u
    using finished_exited [OF assms that] by auto
  then have "pool_of s = \<lparr>pool = CommonPool s, received = 0, in_use = {#}, appended = 0\<rparr>"
    by (simp add: pool_of_def)
  with inv show "mset (conns (CommonPool s)) = C" "channel (CommonPool s) = size C"
    by (auto simp: service_inv_def pool_inv_def)
qed

lemma service_init_Init:
  assumes "Init sql_Open exec d = Some (Return p, d')"
  shows "service_init p (BookSeats p d')" and "length (conns p) = 101"
    and "channel p = length (conns p)" and "maxConn p = length (conns p)"
  using newPool_Return [OF Init_pool [OF assms]] by (auto simp: service_init_def)

text \<open>What the two statements of \<^verbatim>\<open>Init\<close> keep, it keeps.\<close>

lemma Init_keeps:
  assumes "Init sql_Open exec d = Some (Return p, d')" and "Q d" and "\<And>c s e. Q e \<Longrightarrow> Q (snd (exec c s e))"
  shows "Q d'"
proof -
  obtain q where "resetSeats exec q d = Some (Return p, d')"
    using assms(1) by (auto simp: Init_def split: outcome.splits)
  then obtain c where "d' = snd (exec c reset_seats_v2 (snd (exec c reset_seats d)))"
    by (auto simp: resetSeats_def split: option.splits outcome.splits prod.splits) (metis snd_conv)
  with assms(2,3) show ?thesis by simp
qed

text \<open>How a run after \<^verbatim>\<open>Init\<close> stops, for every variant.\<close>

lemma service_stops:
  assumes init: "Init sql_Open exec d = Some (Return p, d')"
    and run: "run (service_step db P) (BookSeats p d') ls t" and db: "answers db" and stop: "stopped (service_step db P) t" and "\<not> crashed t"
  shows "finished t \<and> mset (conns (CommonPool t)) = mset (conns p) \<and> channel (CommonPool t) = 101 \<and>
    (\<forall>u \<in> users. \<exists>x. routines t u = Exited x \<and> sends P u x = None \<and> \<not> panics P x)"
proof -
  note si = service_init_Init [OF init]
  have inv: "service_inv (mset (conns p)) t" and e: "end_inv P t"
    using service_end.inv_reachable [OF si(1) run] by simp_all
  have fin: "finished t" by (rule stopped_finished [OF inv _ db stop assms(5)]) (simp add: si(2))
  have "\<exists>x. routines t u = Exited x \<and> sends P u x = None \<and> \<not> panics P x" if u: "u \<in> users" for u
  proof -
    obtain x where x: "routines t u = Exited x" using finished_exited [OF inv fin u] by blast
    moreover have "sends P u x = None" using e x by (simp add: end_inv_def)
    moreover have "\<not> panics P x" using service_step.crash [OF assms(5) x, of P db] stop unfolding stopped_def by blast
    ultimately show ?thesis by blast
  qed
  with fin finished_pool [OF inv fin] si(2) show ?thesis by simp
qed

text \<open>
  C12. \<^verbatim>\<open>BookSeats\<close> of the three variants with one transaction always completes: after \<^verbatim>\<open>Init\<close>, whatever the
  interleaving and the answers of the database, a run has at most 1002 steps, nothing panics,
  and the only way to stop is that \<^verbatim>\<open>BookSeats\<close> has returned, with every goroutine ended, booked or
  refused, and all connections back in the pool.
\<close>

theorem BookSeats_completes:
  assumes "Init sql_Open exec d = Some (Return p, d')" and "run (S db) (BookSeats p d') ls t"
    and "S \<in> {noupdate_service, update_service, updateskip_service}" and "answers db"
  shows "length ls \<le> 1002 \<and> \<not> crashed t \<and>
    (stopped (S db) t \<longrightarrow> finished t \<and> mset (conns (CommonPool t)) = mset (conns p) \<and> channel (CommonPool t) = 101 \<and>
      (\<forall>u \<in> users. (\<exists>i. routines t u = Exited (Booked i)) \<or> (\<exists>e. routines t u = Exited (Refused e))))"
proof -
  obtain P where S: "S db = service_step db P"
    and cases: "P \<in> {SeatBookingWithoutUpdate, SeatBookingWithUpdate, SeatBookingWithUpdateSkip}"
    using assms(3) by (auto simp: noupdate_service_def update_service_def updateskip_service_def)
  note run = assms(2) [unfolded S]
  obtain sel where sel: "sends P = book_op sel"
    using cases by (auto simp: SeatBookingWithoutUpdate_def SeatBookingWithUpdate_def SeatBookingWithUpdateSkip_def
        noupdate_op_def update_op_def updateskip_op_def)
  have P: "first P = AtBegin" "\<not> panics P x" for x
    using cases by (auto simp: SeatBookingWithoutUpdate_def SeatBookingWithUpdate_def SeatBookingWithUpdateSkip_def)
  have len: "length ls \<le> 100 * (booking_rank (first P) + 6) + 2"
    by (rule ranked_program.BookSeats_bounded [OF _ run])
      (use cases noupdate.ranked_program_axioms update.ranked_program_axioms updateskip.ranked_program_axioms in auto)
  have nc: "\<not> crashed t"
    using service_end.inv_reachable [OF service_init_Init(1) [OF assms(1)] run] P(2) by (auto simp: end_inv_def)
  have ended: "(\<exists>i. x = Booked i) \<or> (\<exists>e. x = Refused e)" if "sends P u x = None" for u x
    using that unfolding sel by (cases x) simp_all
  have "finished t \<and> mset (conns (CommonPool t)) = mset (conns p) \<and> channel (CommonPool t) = 101 \<and>
      (\<forall>u \<in> users. (\<exists>i. routines t u = Exited (Booked i)) \<or> (\<exists>e. routines t u = Exited (Refused e)))"
    if "stopped (service_step db P) t"
    using service_stops [OF assms(1) run assms(4) that nc] ended by blast
  with len nc P(1) show ?thesis by (simp add: S)
qed

text \<open>
  C11. The main program of exclusive-locks, which books with optimistic locking, completes: \<^verbatim>\<open>Init\<close> does
  not block; it panics only when a connection cannot be opened or a statement of \<^verbatim>\<open>resetSeats\<close>
  fails; after it a run has at most 20602 steps, and it stops only when \<^verbatim>\<open>BookSeats\<close> has returned, with
  every goroutine returned and all 101 connections back in the pool, or when a goroutine whose
  \<^verbatim>\<open>Begin\<close> failed has crashed the program.
\<close>

theorem exclusive_locks_main_completes:
  assumes "exclusive_locks_main sql_Open exec db d ls r" and "answers db"
  shows "length ls \<le> 20602 \<and>
    (case r of
       InitBlocked \<Rightarrow> False
     | InitPanicked d' \<Rightarrow> (\<exists>j < 101. sql_Open (dsn ''airline_booking'') j = None) \<or>
         (\<exists>c. fst (exec c reset_seats d) \<noteq> None \<or> fst (exec c reset_seats_v2 (snd (exec c reset_seats d))) \<noteq> None)
     | InBookSeats t \<Rightarrow>
         stopped (optimistic_service db) t \<longrightarrow>
           crashed t \<and> (\<exists>u. routines t u = Exited OPanic) \<or>
           finished t \<and> channel (CommonPool t) = 101 \<and> length (conns (CommonPool t)) = 101 \<and>
             (\<forall>u \<in> users. \<exists>i. routines t u = Exited (Returned i)))"
  using assms(1)
proof cases
  case init_blocks
  with Init_result(1) [of sql_Open exec d] show ?thesis by simp
next
  case (init_panics d')
  with Init_result(2) [of sql_Open exec d d'] show ?thesis by simp
next
  case (books_seats p d' t)
  note init = books_seats(2) and run = books_seats(3) [unfolded optimistic_service_def]
  have P: "first OptimisticLock = OBegin 1" "sends OptimisticLock = opt_op" "panics OptimisticLock x \<longleftrightarrow> x = OPanic" for x
    by (simp_all add: OptimisticLock_def)
  have "length ls \<le> 20602" using optimistic_program.BookSeats_bounded [OF run] by (simp add: P(1))
  moreover have "\<exists>u. routines t u = Exited OPanic" if "crashed t"
    using service_end.inv_reachable [OF service_init_Init(1) [OF init] run] that P(3) by (auto simp: end_inv_def)
  moreover have "\<exists>r. x = Returned r" if "opt_op u x = None" "x \<noteq> OPanic" for u x
    using that by (cases x) simp_all
  moreover have "length (conns (CommonPool t)) = 101" if "mset (conns (CommonPool t)) = mset (conns p)"
    using mset_eq_length [OF that] service_init_Init(2) [OF init] by simp
  ultimately show ?thesis
    using service_stops [OF init run assms(2)] unfolding P(2,3) optimistic_service_def books_seats(1) by fastforce
qed

text \<open>
  C10. The main program books no seat twice: of the calls that returned after booking a seat no
  two have the same one, and the seat is theirs in the database. \<^verbatim>\<open>Init\<close> runs its statements
  outside a transaction, which leaves none open.
\<close>

theorem exclusive_locks_main_no_double_booking:
  assumes "exclusive_locks_main sql_Open exec db d ls (InBookSeats t)" and "idle_db V d"
    and "\<And>c s e. idle_db V e \<Longrightarrow> idle_db V (snd (exec c s e))"
    and "transactions db V" and "updates db V" and "selects db V {}"
    and "snd (clients_of OptimisticLock t) u = Returned (Some i)" and "snd (clients_of OptimisticLock t) v = Returned (Some i)"
  shows "u = v \<and> fst (row V (seats t) i) = Some u"
proof -
  obtain p d' where init: "Init sql_Open exec d = Some (Return p, d')"
    and run': "run (optimistic_service db) (BookSeats p d') ls t"
    using assms(1) by (rule in_BookSeatsE)
  note run = run' [unfolded optimistic_service_def]
  have idle: "idle_db V d'" by (rule Init_keeps [OF init, of "idle_db V"]) (use assms(2,3) in auto)
  have inv: "optimistic.clients_inv V (clients_of OptimisticLock t)"
    using service_calls [OF service_init_Init(3,4) [OF init] run]
      optimistic_sys.inv_reachable [of V "(d', \<lambda>_. OBegin 1)" db "db_calls ls" "clients_of OptimisticLock t" "{}"] assms(4-6) idle
    by (simp add: db_good_def OptimisticLock_def)
  obtain cs where c: "clients_of OptimisticLock t = (seats t, cs)" by (simp add: clients_of_def)
  note ok = optimistic.clients_ok [OF inv [unfolded c]]
  show ?thesis using ok [of u] ok [of v] assms(7,8) by (simp add: c)
qed

section \<open>A database that always answers\<close>

text \<open>
  The database of \<open>Seat_Booking\<close> with failures: every operation may also end in an error, a statement
  with or without its transaction. It keeps all the promises.
\<close>

definition faulty_db :: "seat_mem seat_db" where
  "faulty_db d u q a d' \<longleftrightarrow>
     mem_db d u q a d' \<or> a = Err EIO \<and> (d' = mem_end u d \<or> q \<notin> {Begin, Commit, Rollback} \<and> d' = d)"

lemma faulty_answers: "answers faulty_db"
proof -
  have "fits q (Err EIO)" for q :: seat_op by (cases q) simp_all
  then show ?thesis unfolding answers_def faulty_db_def by blast
qed

lemma faulty_transactions: "transactions faulty_db mem_view"
  unfolding transactions_def
proof (intro allI impI)
  fix d u q a d'
  assume "faulty_db d u q a d'"
  then consider "mem_db d u q a d'" | "a = Err EIO" "d' = mem_end u d" | "q \<notin> {Begin, Commit, Rollback}" "d' = d"
    unfolding faulty_db_def by blast
  then show "txn_call mem_view d u q a d'"
  proof cases
    case 1
    with mem_transactions show ?thesis unfolding transactions_def by blast
  qed (simp_all add: mem_calls(3,6))
qed

lemma faulty_selects: "selects faulty_db mem_view {}"
  using mem_selects [of "{}"] unfolding selects_def faulty_db_def by blast

lemma faulty_updates: "updates faulty_db mem_view"
  using mem_updates unfolding updates_def faulty_db_def by blast

text \<open>The pool of the program, when every connection opens.\<close>

abbreviation full_pool :: cpool where
  "full_pool \<equiv> \<lparr>channel = 101, conns = [0..<101], maxConn = 101\<rparr>"

lemma Init_full: "Init (\<lambda>s i. Some i) (\<lambda>c s d. (None, d)) d = Some (Return full_pool, d)"
proof -
  have "newPool (\<lambda>i. Some i) 101 \<noteq> Panic" by code_simp
  then obtain p where new: "newPool (\<lambda>i. Some i) 101 = Return p" by (cases "newPool (\<lambda>i. Some i) 101") simp_all
  from newPool_loop_Return [OF new [unfolded newPool_def]] have p: "p = full_pool" by (simp del: upt_Suc upt_rec_numeral)
  have ne: "conns full_pool \<noteq> []" by simp
  obtain c r where "pool_Get full_pool = Some (Return (c, r))" "pool_Put c r = Some full_pool"
    using pool_Get_Put [of full_pool] ne by auto
  with new show ?thesis by (simp add: Init_def resetSeats_def p)
qed

theorem BookSeats_completes_witness:
  "\<exists>ls t. run (update_service faulty_db) (BookSeats full_pool free_seats) ls t \<and> length ls \<le> 1002 \<and>
     finished t \<and> mset (conns (CommonPool t)) = mset [0..<101]"
proof -
  have "wg_inv (BookSeats full_pool free_seats)" by (auto simp: wg_inv_def BookSeats_def)
  then obtain ls t where run: "run (update_service faulty_db) (BookSeats full_pool free_seats) ls t"
    and stop: "stopped (update_service faulty_db) t"
    using update.run_stops unfolding stopped_def update_service_def by blast
  from BookSeats_completes [where S = update_service and db = faulty_db, OF Init_full run _ faulty_answers] stop have "length ls \<le> 1002 \<and> finished t \<and> mset (conns (CommonPool t)) = mset [0..<101]"
    by (simp del: upt_Suc upt_rec_numeral mset_upt)
  with run show ?thesis by blast
qed

abbreviation demo_main :: "service_event list \<Rightarrow> (seat_mem, attempt) service \<Rightarrow> bool" where
  "demo_main ls t \<equiv> exclusive_locks_main (\<lambda>s i. Some i) (\<lambda>c s d. (None, d)) faulty_db free_seats ls (InBookSeats t)"

lemma demo_main_run: "run (optimistic_service faulty_db) (BookSeats full_pool free_seats) ls t \<Longrightarrow> demo_main ls t"
  by (rule exclusive_locks_main.books_seats [OF Init_full])

theorem exclusive_locks_main_completes_witness:
  "(\<exists>ls t. demo_main ls t \<and> length ls \<le> 20602 \<and> (crashed t \<and> (\<exists>u. routines t u = Exited OPanic) \<or> finished t)) \<and>
   exclusive_locks_main (\<lambda>s i. None) (\<lambda>c s d. (None, d)) faulty_db free_seats [] (InitPanicked free_seats)"
proof (intro conjI)
  have "wg_inv (BookSeats full_pool free_seats)" by (auto simp: wg_inv_def BookSeats_def)
  then obtain ls t where run: "run (optimistic_service faulty_db) (BookSeats full_pool free_seats) ls t"
    and stop: "stopped (optimistic_service faulty_db) t"
    using optimistic_program.run_stops unfolding stopped_def optimistic_service_def by blast
  note main = demo_main_run [OF run]
  from exclusive_locks_main_completes [OF main faulty_answers] stop main
  show "\<exists>ls t. demo_main ls t \<and> length ls \<le> 20602 \<and> (crashed t \<and> (\<exists>u. routines t u = Exited OPanic) \<or> finished t)" by auto
  show "exclusive_locks_main (\<lambda>s i. None) (\<lambda>c s d. (None, d)) faulty_db free_seats [] (InitPanicked free_seats)"
    by (rule exclusive_locks_main.init_panics) (simp add: Init_def newPool_def eval_nat_numeral)
qed

text \<open>The first user takes a connection and books seat 7.\<close>

lemma demo_booking: "\<exists>ls t. demo_main ls t \<and> snd (clients_of OptimisticLock t) 1 = Returned (Some 7)"
proof -
  let ?S = "service_step faulty_db OptimisticLock"
  have P: "first OptimisticLock = OBegin 1" "sends OptimisticLock = opt_op" "reads OptimisticLock = opt_next"
    by (simp_all add: OptimisticLock_def)
  obtain s0 :: "(seat_mem, attempt) service" where s0: "s0 = BookSeats full_pool free_seats" by blast
  obtain p where p: "Get_receive full_pool = Some p" and p1: "conns p = [0..<101]" by (simp add: Get_receive_def)
  have "\<exists>c q. Get_pop p = Return (c, q)" by (simp add: Get_pop_def p1 Let_def)
  then obtain c q where q: "Get_pop p = Return (c, q)" by blast
  obtain s1 where s1: "s1 = s0\<lparr>wg_count := 1, loop_i := 2, routines := (\<lambda>_. Unstarted)(1 := Getting)\<rparr>" by blast
  obtain s2 where s2: "s2 = s1\<lparr>CommonPool := p, routines := (routines s1)(1 := Popping)\<rparr>" by blast
  obtain s3 where s3: "s3 = s2\<lparr>CommonPool := q, routines := (routines s2)(1 := Holding c (OBegin 1))\<rparr>" by blast
  let ?at = "\<lambda>s d x. s\<lparr>seats := d, routines := (routines s)(1 := Holding c x)\<rparr>"
  obtain d1 where d1: "d1 = mem_end 1 free_seats" by blast
  obtain d2 where d2: "d2 = mem_write 1 7 (Some 1, 1 + 1) d1" by blast
  have row: "fst (m_row d1 7) = None" "snd (m_row d1 7) = 1" "mem_free d1 1 7"
    by (simp_all add: d1 mem_defs mem_idle_def)
  obtain s4 where s4: "s4 = ?at s3 d1 (OSelect 1)" by blast
  obtain s5 where s5: "s5 = ?at s4 d1 (OUpdate 1 7 1)" by blast
  obtain s6 where s6: "s6 = ?at s5 d2 (OCommit 1 7 1)" by blast
  obtain s7 where s7: "s7 = ?at s6 (mem_commit 1 d2) (Returned (Some 7))" by blast
  have 1: "?S s0 (Go 1) s1" using service_step.go [of s0 1 faulty_db OptimisticLock] by (simp add: s0 s1 BookSeats_def numeral_2_eq_2)
  have 2: "?S s1 (GetReceive 1) s2"
    unfolding s2 by (rule service_step.get_receive) (simp_all add: s0 s1 BookSeats_def p)
  have 3: "?S s2 (GetPop 1 c) s3"
    unfolding s3 P(1) [symmetric] by (rule service_step.get_pop) (simp_all add: s0 s1 s2 BookSeats_def q)
  have call: "?S s (Call 1 op a) (?at s d (opt_next x a))"
    if "\<not> crashed s" "routines s 1 = Holding c x" "opt_op 1 x = Some op" "mem_db (seats s) 1 op a d" "fits op a" for s op a d x
    using service_step.call [of s 1 c x OptimisticLock op faulty_db a d] that by (simp add: P faulty_db_def)
  have nc: "\<not> crashed s3" "\<not> crashed s4" "\<not> crashed s5" "\<not> crashed s6"
    by (simp_all add: s0 s1 s2 s3 s4 s5 s6 BookSeats_def)
  have 4: "?S s3 (Call 1 Begin Ok) s4"
    unfolding s4 d1 using call [OF nc(1), of "OBegin 1" Begin Ok "mem_end 1 free_seats"] m_begin [of free_seats 1]
    by (simp add: s0 s1 s2 s3 BookSeats_def)
  have 5: "?S s4 (Call 1 (QueryRow select_version []) (Row (7, [], 1))) s5"
    unfolding s5 using call [OF nc(2), of "OSelect 1" "QueryRow select_version []" "Row (7, [], 1)" d1]
      m_read [of select_version, OF _ row(1), of 1] by (simp add: s4 row(2))
  have 6: "?S s5 (Call 1 (Exec update_version [1, 7, 1]) (Result (Inr 1))) s6"
    unfolding s6 using call [OF nc(3), of "OUpdate 1 7 1" "Exec update_version [1, 7, 1]" "Result (Inr 1)" d2]
      m_update_version [OF row(3,2), of 1] by (simp add: s5 d2)
  have 7: "?S s6 (Call 1 Commit Ok) s7"
    unfolding s7 using call [OF nc(4), of "OCommit 1 7 1" Commit Ok "mem_commit 1 d2"] m_commit [of d2 1] by (simp add: s6)
  have "\<exists>ls. run ?S s0 ls s7"
    by (intro exI) (rule run_Cons, rule 1, rule run_Cons, rule 2, rule run_Cons, rule 3, rule run_Cons, rule 4,
      rule run_Cons, rule 5, rule run_Cons, rule 6, rule run_Cons, rule 7, rule run_Nil)
  moreover have "snd (clients_of OptimisticLock s7) 1 = Returned (Some 7)" by (simp add: clients_of_def s7)
  ultimately show ?thesis unfolding s0 using demo_main_run unfolding optimistic_service_def by blast
qed

theorem exclusive_locks_main_no_double_booking_witness:
  "\<exists>ls t. demo_main ls t \<and> fst (m_row (seats t) 7) = Some 1"
proof -
  obtain ls t where main: "demo_main ls t" and c: "snd (clients_of OptimisticLock t) 1 = Returned (Some 7)"
    using demo_booking by blast
  from exclusive_locks_main_no_double_booking [OF main mem_idle_db _ faulty_transactions faulty_updates faulty_selects c c] main
  show ?thesis by auto
qed

end
