(* ===== verification/Dynamo.thy ===== *)
theory Dynamo
  imports Go_Strings
begin

text \<open>
  The tables of src/relational-db/dynamo-db-implementation: items with a partition key and
  perhaps a sort key, kept in MySQL tables. The model covers the statements the package builds,
  the arguments it binds and the answers it makes of rows. MySQL is a parameter; the theorems
  about items assume what the statements do there.
\<close>

section \<open>Types\<close>

text \<open>
  A Go map of strings is the list of its entries in the order a loop over it visits them; the
  order is chosen anew by each loop.
\<close>

type_synonym string_map = "(string \<times> string) list"

definition lookup :: "string_map \<Rightarrow> string \<Rightarrow> string" where
  "lookup m k = (case map_of m k of None \<Rightarrow> [] | Some v \<Rightarrow> v)"

record KeyAttributes =
  PartitionKey :: string
  SortKey :: iface

record LocalSecondaryIndex =
  IndexName :: string
  lsi_SortKey :: string

record DynamoDBTableAttributes =
  t_TableName :: string
  t_KeyAttributes :: KeyAttributes
  t_LSIs :: "LocalSecondaryIndex list"

record CreateTableInput =
  c_TableName :: string
  c_Attributes :: "string list"
  c_Keys :: KeyAttributes
  c_LSIs :: "LocalSecondaryIndex list"

record PutItemInput =
  p_TableName :: string
  p_KeyAttributes :: string_map
  p_Values :: string_map

record GetItemInput =
  g_TableName :: string
  g_PartitionKey :: string
  g_SortKey :: iface
  g_ProjectionExpression :: string

record QueryInput =
  q_TableName :: string
  q_KeyConditionExpression :: string
  q_KeyValues :: string_map
  q_ProjectionExpression :: string
  q_ScanIndexForward :: bool
  q_IndexName :: iface

text \<open>The output maps: \<^verbatim>\<open>GetItemOutput.Values\<close> and the elements of \<^verbatim>\<open>QueryOutput.Items\<close>.\<close>

type_synonym item = "string \<Rightarrow> string option"

section \<open>The connection\<close>

text \<open>
  \<^verbatim>\<open>Exec\<close> gives an error or a result and a new state of the database. A query gives an error
  or rows, each with its columns (\<open>None\<close> is NULL), and the error that ended the rows early.
\<close>

type_synonym rows = "string option list list \<times> go_error option"

record 'd mysql =
  sql_Exec :: "'d \<Rightarrow> string \<Rightarrow> iface list \<Rightarrow> int result \<times> 'd"
  sql_Query :: "'d \<Rightarrow> string \<Rightarrow> iface list \<Rightarrow> rows result"

record 'd DynamoDB =
  dbConn :: 'd
  tableAttributes :: "string \<Rightarrow> DynamoDBTableAttributes option"

definition NewDynamoDB :: "'d result \<Rightarrow> 'd DynamoDB outcome" where
  "NewDynamoDB opened =
     (case opened of Inl e \<Rightarrow> Panic | Inr db \<Rightarrow> Return \<lparr>dbConn = db, tableAttributes = (\<lambda>_. None)\<rparr>)"

section \<open>CreateTable\<close>

text \<open>The loop over the attributes, and the one over the indexes.\<close>

fun attribute_columns :: "string \<Rightarrow> iface \<Rightarrow> string list \<Rightarrow> string" where
  "attribute_columns partitionKey sortKey [] = []"
| "attribute_columns partitionKey sortKey (attr # attrs) =
     (if attr \<noteq> partitionKey \<and> (sortKey = Nil_if \<or> Str attr \<noteq> sortKey) then attr @ '' VARCHAR(255),'' else []) @
     attribute_columns partitionKey sortKey attrs"

fun index_clauses :: "string \<Rightarrow> LocalSecondaryIndex list \<Rightarrow> string" where
  "index_clauses partitionKey [] = []"
| "index_clauses partitionKey (lsi # lsis) =
     '', INDEX '' @ IndexName lsi @ '' ('' @ partitionKey @ '', '' @ lsi_SortKey lsi @ '')'' @
     index_clauses partitionKey lsis"

definition create_statement :: "CreateTableInput \<Rightarrow> string" where
  "create_statement input =
     (let partitionKey = PartitionKey (c_Keys input); sortKey = SortKey (c_Keys input)
      in ''CREATE TABLE IF NOT EXISTS '' @ c_TableName input @ '' ( '' @ partitionKey @ '' VARCHAR(255) NOT NULL,'' @
         (if sortKey \<noteq> Nil_if then fmt_s sortKey @ '' VARCHAR(255) NOT NULL,'' else []) @
         attribute_columns partitionKey sortKey (c_Attributes input) @
         (if sortKey \<noteq> Nil_if then '' PRIMARY KEY ('' @ partitionKey @ '', '' @ fmt_s sortKey @ '')''
          else '' PRIMARY KEY ('' @ partitionKey @ '')'') @
         index_clauses partitionKey (c_LSIs input) @ '');'')"

definition CreateTable :: "'d mysql \<Rightarrow> CreateTableInput \<Rightarrow> 'd DynamoDB \<Rightarrow> unit result \<times> 'd DynamoDB" where
  "CreateTable M input D =
     (case sql_Exec M (dbConn D) (create_statement input) [] of
        (Inl err, db) \<Rightarrow> (Inl err, D\<lparr>dbConn := db\<rparr>)
      | (Inr rowsAffected, db) \<Rightarrow>
          (Inr (), D\<lparr>dbConn := db, tableAttributes := (tableAttributes D)(c_TableName input \<mapsto>
             \<lparr>t_TableName = c_TableName input, t_KeyAttributes = c_Keys input, t_LSIs = c_LSIs input\<rparr>)\<rparr>))"

section \<open>PutItem\<close>

text \<open>The columns and arguments: the partition key, the sort key, then the values in the order of the loop.\<close>

definition put_columns :: "string \<Rightarrow> string option \<Rightarrow> PutItemInput \<Rightarrow> string list" where
  "put_columns partitionKeyAttr sortKeyAttr input =
     [partitionKeyAttr] @ (case sortKeyAttr of None \<Rightarrow> [] | Some s \<Rightarrow> [s]) @ map fst (p_Values input)"

definition put_args :: "string \<Rightarrow> string option \<Rightarrow> PutItemInput \<Rightarrow> string list" where
  "put_args partitionKeyAttr sortKeyAttr input =
     [lookup (p_KeyAttributes input) partitionKeyAttr] @
     (case sortKeyAttr of None \<Rightarrow> [] | Some s \<Rightarrow> [lookup (p_KeyAttributes input) s]) @ map snd (p_Values input)"

definition put_placeholders :: "string option \<Rightarrow> PutItemInput \<Rightarrow> string list" where
  "put_placeholders sortKeyAttr input =
     [''?''] @ (case sortKeyAttr of None \<Rightarrow> [] | Some s \<Rightarrow> [''?'']) @ map (\<lambda>_. ''?'') (p_Values input)"

definition put_statement :: "string \<Rightarrow> string list \<Rightarrow> string list \<Rightarrow> string" where
  "put_statement tableName columns placeholders =
     ''REPLACE INTO '' @ tableName @ '' ('' @ Join columns '', '' @ '') VALUES ('' @ Join placeholders '', '' @ '');''"

text \<open>A sort key of the table: nil is none, and \<^verbatim>\<open>.(string)\<close> panics on what is no string.\<close>

definition sort_key :: "iface \<Rightarrow> string option outcome" where
  "sort_key k = (if k = Nil_if then Return None else map_outcome Some (as_string k))"

definition exec_put :: "'d mysql \<Rightarrow> PutItemInput \<Rightarrow> string \<Rightarrow> string option \<Rightarrow> 'd DynamoDB \<Rightarrow> unit result \<times> 'd DynamoDB" where
  "exec_put M input partitionKeyAttr sortKeyAttr D =
     (case sql_Exec M (dbConn D)
             (put_statement (p_TableName input) (put_columns partitionKeyAttr sortKeyAttr input) (put_placeholders sortKeyAttr input))
             (map Str (put_args partitionKeyAttr sortKeyAttr input)) of
        (Inl err, db) \<Rightarrow> (Inl err, D\<lparr>dbConn := db\<rparr>)
      | (Inr r, db) \<Rightarrow> (Inr (), D\<lparr>dbConn := db\<rparr>))"

definition PutItem :: "'d mysql \<Rightarrow> PutItemInput \<Rightarrow> 'd DynamoDB \<Rightarrow> (unit result \<times> 'd DynamoDB) outcome" where
  "PutItem M input D =
     (if p_TableName input = [] then Return (Inl (ErrMsg ''table name is required''), D)
      else case tableAttributes D (p_TableName input) of
        None \<Rightarrow> Return (Inl (ErrMsg (''table '' @ p_TableName input @ '' does not exist'')), D)
      | Some value \<Rightarrow>
          (let partitionKeyAttr = PartitionKey (t_KeyAttributes value)
           in if lookup (p_KeyAttributes input) partitionKeyAttr = []
              then Return (Inl (ErrMsg (''partition key '' @ partitionKeyAttr @ '' is required'')), D)
              else case sort_key (SortKey (t_KeyAttributes value)) of
                Panic \<Rightarrow> Panic
              | Return sortKeyAttr \<Rightarrow>
                  (case sortKeyAttr of
                     Some s \<Rightarrow>
                       if lookup (p_KeyAttributes input) s = []
                       then Return (Inl (ErrMsg (''sort key '' @ s @ '' is required for this table'')), D)
                       else Return (exec_put M input partitionKeyAttr sortKeyAttr D)
                   | None \<Rightarrow> Return (exec_put M input partitionKeyAttr sortKeyAttr D))))"

section \<open>GetItem\<close>

text \<open>
  \<^verbatim>\<open>Scan\<close> of a row into as many strings as the projection has parts, and the map the code
  makes of it: NULL becomes the empty string.
\<close>

definition projection_columns :: "string \<Rightarrow> string list" where
  "projection_columns p = Split p (CHR '','')"

definition Scan :: "string list \<Rightarrow> string option list \<Rightarrow> string option list result" where
  "Scan columns r =
     (if length r = length columns then Inr r
      else Inl (ErrMsg (''sql: expected '' @ dec (length r) @ '' destination arguments in Scan, not '' @ dec (length columns))))"

fun valid_string :: "string option \<Rightarrow> string" where
  "valid_string (Some s) = s"
| "valid_string None = []"

definition make_item :: "string list \<Rightarrow> string option list \<Rightarrow> item" where
  "make_item columns values =
     fold (\<lambda>(col, v) m. m(TrimSpace col \<mapsto> valid_string v)) (zip columns values) Map.empty"

definition get_statement :: "GetItemInput \<Rightarrow> string \<Rightarrow> iface \<Rightarrow> string" where
  "get_statement input partitionKeyAttr sortKeyAttr =
     ''SELECT '' @ g_ProjectionExpression input @ '' FROM '' @ g_TableName input @ '' WHERE '' @ partitionKeyAttr @ '' = ?'' @
     (if sortKeyAttr \<noteq> Nil_if then '' AND '' @ fmt_s sortKeyAttr @ '' = ?'' else [])"

definition get_args :: "GetItemInput \<Rightarrow> iface \<Rightarrow> iface list" where
  "get_args input sortKeyAttr = [Str (g_PartitionKey input)] @ (if sortKeyAttr \<noteq> Nil_if then [g_SortKey input] else [])"

text \<open>\<^verbatim>\<open>QueryRow\<close> and \<^verbatim>\<open>Scan\<close>: the first row; without one the error that ended the rows or \<^verbatim>\<open>ErrNoRows\<close>.\<close>

fun scan_row :: "string list \<Rightarrow> rows \<Rightarrow> string option list result" where
  "scan_row columns (r # rs, e) = Scan columns r"
| "scan_row columns ([], Some e) = Inl e"
| "scan_row columns ([], None) = Inl (ErrMsg ''sql: no rows in result set'')"

definition GetItem :: "'d mysql \<Rightarrow> GetItemInput \<Rightarrow> 'd DynamoDB \<Rightarrow> item result" where
  "GetItem M input D =
     (if g_TableName input = [] \<or> g_PartitionKey input = []
      then Inl (ErrMsg ''table name and partition key are required'')
      else case tableAttributes D (g_TableName input) of
        None \<Rightarrow> Inl (ErrMsg (''table '' @ g_TableName input @ '' does not exist''))
      | Some keyAttrs \<Rightarrow>
          (let partitionKeyAttr = PartitionKey (t_KeyAttributes keyAttrs);
               sortKeyAttr = SortKey (t_KeyAttributes keyAttrs)
           in if sortKeyAttr \<noteq> Nil_if \<and> g_SortKey input = Str []
              then Inl (ErrMsg (''sort key '' @ fmt_s sortKeyAttr @ '' is required for this table''))
              else case sql_Query M (dbConn D) (get_statement input partitionKeyAttr sortKeyAttr) (get_args input sortKeyAttr) of
                Inl e \<Rightarrow> Inl (ErrMsg ''no rows found'')
              | Inr rs \<Rightarrow>
                  (case scan_row (projection_columns (g_ProjectionExpression input)) rs of
                     Inl e \<Rightarrow> Inl e
                   | Inr values \<Rightarrow> Inr (make_item (projection_columns (g_ProjectionExpression input)) values))))"

section \<open>Query\<close>

text \<open>The search for the index, and the sort key the result is ordered by; empty is none.\<close>

fun find_lsi :: "LocalSecondaryIndex list \<Rightarrow> string \<Rightarrow> string option" where
  "find_lsi [] n = None"
| "find_lsi (lsi # lsis) n = (if IndexName lsi = n then Some (lsi_SortKey lsi) else find_lsi lsis n)"

definition effective_sort_key :: "DynamoDBTableAttributes \<Rightarrow> string \<Rightarrow> iface \<Rightarrow> string result outcome" where
  "effective_sort_key attrs tableName index =
     (if index \<noteq> Nil_if \<and> index \<noteq> Str []
      then case as_string index of
             Panic \<Rightarrow> Panic
           | Return indexNameStr \<Rightarrow>
               (case find_lsi (t_LSIs attrs) indexNameStr of
                  Some k \<Rightarrow> Return (Inr k)
                | None \<Rightarrow> Return (Inl (ErrMsg (''index '' @ indexNameStr @ '' does not exist on table '' @ tableName @
                    '' (or is not a registered LSI)''))))
      else if SortKey (t_KeyAttributes attrs) \<noteq> Nil_if
      then map_outcome Inr (as_string (SortKey (t_KeyAttributes attrs)))
      else Return (Inr []))"

definition query_args :: "QueryInput \<Rightarrow> iface list" where
  "query_args input = map (\<lambda>(k, v). Str v) (q_KeyValues input)"

definition query_statement :: "QueryInput \<Rightarrow> string \<Rightarrow> string" where
  "query_statement input effectiveSortKey =
     ''SELECT '' @ q_ProjectionExpression input @ '' FROM '' @ q_TableName input @ '' WHERE '' @ q_KeyConditionExpression input @
     (if effectiveSortKey \<noteq> []
      then if \<not> q_ScanIndexForward input then '' ORDER BY '' @ effectiveSortKey @ '' DESC''
           else '' ORDER BY '' @ effectiveSortKey @ '' ASC''
      else [])"

text \<open>The loop over the rows; the error that ends them is not looked at.\<close>

fun query_loop :: "string list \<Rightarrow> string option list list \<Rightarrow> item list \<Rightarrow> item list result" where
  "query_loop columns [] resultItems = Inr resultItems"
| "query_loop columns (r # rs) resultItems =
     (case Scan columns r of
        Inl err \<Rightarrow> Inl err
      | Inr values \<Rightarrow> query_loop columns rs (resultItems @ [make_item columns values]))"

definition Query :: "'d mysql \<Rightarrow> QueryInput \<Rightarrow> 'd DynamoDB \<Rightarrow> item list result outcome" where
  "Query M input D =
     (if q_TableName input = [] \<or> q_KeyConditionExpression input = []
      then Return (Inl (ErrMsg ''table name and partition key are required''))
      else case tableAttributes D (q_TableName input) of
        None \<Rightarrow> Return (Inl (ErrMsg (''table '' @ q_TableName input @ '' does not exist'')))
      | Some attrs \<Rightarrow>
          (case effective_sort_key attrs (q_TableName input) (q_IndexName input) of
             Panic \<Rightarrow> Panic
           | Return (Inl err) \<Rightarrow> Return (Inl err)
           | Return (Inr effectiveSortKey) \<Rightarrow>
               Return (case sql_Query M (dbConn D) (query_statement input effectiveSortKey) (query_args input) of
                   Inl err \<Rightarrow> Inl err
                 | Inr (rs, e) \<Rightarrow> query_loop (projection_columns (q_ProjectionExpression input)) rs [])))"

section \<open>A program that uses the package\<close>

text \<open>A call of the package by a program that ignores the errors it returns, and a sequence of calls.\<close>

datatype dyn_call = Create CreateTableInput | Put PutItemInput | Get GetItemInput | Qry QueryInput

fun dyn_run :: "'d mysql \<Rightarrow> dyn_call \<Rightarrow> 'd DynamoDB \<Rightarrow> 'd DynamoDB outcome" where
  "dyn_run M (Create input) D = Return (snd (CreateTable M input D))"
| "dyn_run M (Put input) D = map_outcome snd (PutItem M input D)"
| "dyn_run M (Get input) D = (case GetItem M input D of Inl err \<Rightarrow> Return D | Inr output \<Rightarrow> Return D)"
| "dyn_run M (Qry input) D = map_outcome (\<lambda>_. D) (Query M input D)"

fun dyn_calls :: "'d mysql \<Rightarrow> dyn_call list \<Rightarrow> 'd DynamoDB \<Rightarrow> 'd DynamoDB outcome" where
  "dyn_calls M [] D = Return D"
| "dyn_calls M (c # cs) D = (case dyn_run M c D of Panic \<Rightarrow> Panic | Return D' \<Rightarrow> dyn_calls M cs D')"

text \<open>The calls of \<^verbatim>\<open>main\<close>; \<open>user1\<close> is the address of its variable.\<close>

definition create_users :: CreateTableInput where
  "create_users = \<lparr>c_TableName = ''users'', c_Attributes = [''org_id'', ''user_id'', ''name'', ''age''],
     c_Keys = \<lparr>PartitionKey = ''org_id'', SortKey = Str ''user_id''\<rparr>, c_LSIs = []\<rparr>"

definition create_orders :: CreateTableInput where
  "create_orders = \<lparr>c_TableName = ''orders'', c_Attributes = [''order_id'', ''user_id'', ''amount'', ''status''],
     c_Keys = \<lparr>PartitionKey = ''user_id'', SortKey = Str ''order_id''\<rparr>,
     c_LSIs = [\<lparr>IndexName = ''status_index'', lsi_SortKey = ''status''\<rparr>]\<rparr>"

definition put_user :: "string \<Rightarrow> string \<Rightarrow> string \<Rightarrow> PutItemInput" where
  "put_user user name age = \<lparr>p_TableName = ''users'', p_KeyAttributes = [(''org_id'', ''org#1''), (''user_id'', user)],
     p_Values = [(''name'', name), (''age'', age)]\<rparr>"

definition put_order :: "string \<Rightarrow> string \<Rightarrow> string \<Rightarrow> PutItemInput" where
  "put_order order amount st = \<lparr>p_TableName = ''orders'', p_KeyAttributes = [(''order_id'', order), (''user_id'', ''user#1'')],
     p_Values = [(''amount'', amount), (''status'', st)]\<rparr>"

definition get_user1 :: "nat \<Rightarrow> GetItemInput" where
  "get_user1 user1 = \<lparr>g_TableName = ''users'', g_PartitionKey = ''org#1'', g_SortKey = Ptr user1 ''user#1'',
     g_ProjectionExpression = ''org_id,user_id,name,age''\<rparr>"

definition query_orders :: QueryInput where
  "query_orders = \<lparr>q_TableName = ''orders'', q_KeyConditionExpression = ''user_id = ?'', q_KeyValues = [(''user_id'', ''user#1'')],
     q_ProjectionExpression = ''user_id,order_id,amount,status'', q_ScanIndexForward = False, q_IndexName = Nil_if\<rparr>"

definition query_completed :: "string_map \<Rightarrow> QueryInput" where
  "query_completed keyValues = \<lparr>q_TableName = ''orders'', q_KeyConditionExpression = ''user_id = ? AND status = ?'',
     q_KeyValues = keyValues, q_ProjectionExpression = ''user_id,order_id,amount,status'',
     q_ScanIndexForward = True, q_IndexName = Str ''status_index''\<rparr>"

definition main_calls :: "nat \<Rightarrow> dyn_call list" where
  "main_calls user1 =
     [Create create_users, Create create_orders,
      Put (put_user ''user#1'' ''Shubham Sharma'' ''28''), Put (put_user ''user#2'' ''John Doe'' ''26''),
      Put (put_order ''order#1'' ''250'' ''pending''), Put (put_order ''order#2'' ''450'' ''completed''),
      Get (get_user1 user1), Qry query_orders,
      Qry (query_completed [(''user_id'', ''user#1''), (''status'', ''completed'')])]"

section \<open>What MySQL does with the statements\<close>

text \<open>
  What the promises see of a database: the primary key columns of a table, and its rows by the
  values of those columns, as the collation \<open>coll\<close> identifies values.
\<close>

record ('d, 'k) tables =
  primary :: "'d \<Rightarrow> string \<Rightarrow> string list"
  contents :: "'d \<Rightarrow> string \<Rightarrow> 'k list \<Rightarrow> item option"

text \<open>Names that need no quoting.\<close>

definition ident :: "string \<Rightarrow> bool" where
  "ident s \<longleftrightarrow> s \<noteq> [] \<and> list_all (\<lambda>c. c = CHR ''_'' \<or> is_digit c \<or>
     65 \<le> (of_char c :: nat) \<and> (of_char c :: nat) \<le> 90 \<or> 97 \<le> (of_char c :: nat) \<and> (of_char c :: nat) \<le> 122) s"

definition sql_replace :: "string \<Rightarrow> string list \<Rightarrow> string" where
  "sql_replace t cols =
     ''REPLACE INTO '' @ t @ '' ('' @ Join cols '', '' @ '') VALUES ('' @ Join (replicate (length cols) ''?'') '', '' @ '');''"

definition sql_select :: "string \<Rightarrow> string \<Rightarrow> string list \<Rightarrow> string" where
  "sql_select proj t conds =
     ''SELECT '' @ proj @ '' FROM '' @ t @ '' WHERE '' @ Join (map (\<lambda>c. c @ '' = ?'') conds) '' AND ''"

text \<open>The string \<^verbatim>\<open>database/sql\<close> sends for an argument; a pointer is followed.\<close>

fun arg_string :: "iface \<Rightarrow> string option" where
  "arg_string (Str s) = Some s"
| "arg_string (Ptr a s) = Some s"
| "arg_string _ = None"

text \<open>
  A REPLACE that succeeds puts a row with the given columns under its key, and only there. A
  SELECT by the whole primary key that ends without an error returns the columns of the row
  with that key, if there is one.
\<close>

definition replaces :: "(string \<Rightarrow> 'k) \<Rightarrow> 'd mysql \<Rightarrow> ('d, 'k) tables \<Rightarrow> bool" where
  "replaces coll M W \<longleftrightarrow>
     (\<forall>d t cols vs n d'. sql_Exec M d (sql_replace t cols) (map Str vs) = (Inr n, d') \<longrightarrow>
        ident t \<longrightarrow> list_all ident cols \<longrightarrow> length vs = length cols \<longrightarrow> set (primary W d t) \<subseteq> set cols \<longrightarrow>
        primary W d' = primary W d \<and>
        (\<exists>r. (\<forall>(c, v) \<in> set (zip cols vs). r c = Some v) \<and>
          contents W d' t = (contents W d t)(map (\<lambda>c. coll (the (r c))) (primary W d t) \<mapsto> r)))"

definition selects_key :: "(string \<Rightarrow> 'k) \<Rightarrow> 'd mysql \<Rightarrow> ('d, 'k) tables \<Rightarrow> bool" where
  "selects_key coll M W \<longleftrightarrow>
     (\<forall>d t cols args vs rs. sql_Query M d (sql_select (Join cols '','') t (primary W d t)) args = Inr (rs, None) \<longrightarrow>
        ident t \<longrightarrow> cols \<noteq> [] \<longrightarrow> list_all (\<lambda>c. ident (TrimSpace c)) cols \<longrightarrow> map arg_string args = map Some vs \<longrightarrow>
        rs = (case contents W d t (map coll vs) of None \<Rightarrow> [] | Some r \<Rightarrow> [map (\<lambda>c. r (TrimSpace c)) cols]))"

lemma replacesD:
  assumes "replaces coll M W" and "sql_Exec M d (sql_replace t cols) (map Str vs) = (Inr n, d')"
    and "ident t" and "list_all ident cols" and "length vs = length cols" and "set (primary W d t) \<subseteq> set cols"
  obtains r where "primary W d' = primary W d" and "\<forall>(c, v) \<in> set (zip cols vs). r c = Some v"
    and "contents W d' t = (contents W d t)(map (\<lambda>c. coll (the (r c))) (primary W d t) \<mapsto> r)"
proof -
  have "primary W d' = primary W d \<and> (\<exists>r. (\<forall>(c, v) \<in> set (zip cols vs). r c = Some v) \<and>
      contents W d' t = (contents W d t)(map (\<lambda>c. coll (the (r c))) (primary W d t) \<mapsto> r))"
    by (rule assms(1) [unfolded replaces_def, rule_format, OF assms(2-6)])
  with that show ?thesis by blast
qed

lemma selects_keyD:
  assumes "selects_key coll M W"
    and "sql_Query M d (sql_select (Join cols '','') t (primary W d t)) args = Inr (rs, None)" and "ident t"
    and "cols \<noteq> []" and "list_all (\<lambda>c. ident (TrimSpace c)) cols" and "map arg_string args = map Some vs"
  shows "rs = (case contents W d t (map coll vs) of None \<Rightarrow> [] | Some r \<Rightarrow> [map (\<lambda>c. r (TrimSpace c)) cols])"
  by (rule assms(1) [unfolded selects_key_def, rule_format, OF assms(2-6)])

section \<open>Creating a table\<close>

definition key_columns :: "KeyAttributes \<Rightarrow> string list" where
  "key_columns k = PartitionKey k # (case SortKey k of Str s \<Rightarrow> [s] | _ \<Rightarrow> [])"

text \<open>
  A table with key columns, other columns and indexes. MySQL gives a new table the primary key
  of the statement; a table that exists keeps its own.
\<close>

definition sql_create :: "string \<Rightarrow> string list \<Rightarrow> string list \<Rightarrow> (string \<times> string list) list \<Rightarrow> string" where
  "sql_create t keys cols indexes =
     ''CREATE TABLE IF NOT EXISTS '' @ t @ '' ( '' @ concat (map (\<lambda>c. c @ '' VARCHAR(255) NOT NULL,'') keys) @
     concat (map (\<lambda>c. c @ '' VARCHAR(255),'') cols) @ '' PRIMARY KEY ('' @ Join keys '', '' @ '')'' @
     concat (map (\<lambda>(n, cs). '', INDEX '' @ n @ '' ('' @ Join cs '', '' @ '')'') indexes) @ '');''"

definition creates :: "'d mysql \<Rightarrow> ('d, 'k) tables \<Rightarrow> bool" where
  "creates M W \<longleftrightarrow>
     (\<forall>d t keys cols indexes n d'. sql_Exec M d (sql_create t keys cols indexes) [] = (Inr n, d') \<longrightarrow>
        ident t \<longrightarrow> list_all ident (keys @ cols) \<longrightarrow> list_all (\<lambda>(n, cs). list_all ident (n # cs)) indexes \<longrightarrow>
        primary W d' t = (if primary W d t = [] then keys else primary W d t))"

lemma attribute_columns_filter:
  "attribute_columns pk sk attrs =
     concat (map (\<lambda>c. c @ '' VARCHAR(255),'') (filter (\<lambda>a. a \<noteq> pk \<and> Str a \<noteq> sk) attrs))"
  by (induction attrs) auto

lemma index_clauses_map:
  "index_clauses pk lsis =
     concat (map (\<lambda>(n, cs). '', INDEX '' @ n @ '' ('' @ Join cs '', '' @ '')'') (map (\<lambda>l. (IndexName l, [pk, lsi_SortKey l])) lsis))"
  by (induction lsis) simp_all

lemma create_statement_sql:
  assumes "SortKey (c_Keys input) = Nil_if \<or> (\<exists>s. SortKey (c_Keys input) = Str s)"
  shows "create_statement input =
    sql_create (c_TableName input) (key_columns (c_Keys input))
      (filter (\<lambda>a. a \<notin> set (key_columns (c_Keys input))) (c_Attributes input))
      (map (\<lambda>l. (IndexName l, [PartitionKey (c_Keys input), lsi_SortKey l])) (c_LSIs input))"
proof -
  let ?k = "c_Keys input"
  have "filter (\<lambda>a. a \<notin> set (key_columns ?k)) (c_Attributes input) =
      filter (\<lambda>a. a \<noteq> PartitionKey ?k \<and> Str a \<noteq> SortKey ?k) (c_Attributes input)"
    using assms by (auto simp: key_columns_def intro!: filter_cong)
  with assms show ?thesis
    unfolding create_statement_def sql_create_def attribute_columns_filter index_clauses_map Let_def
    by (auto simp: key_columns_def)
qed

text \<open>
  A table that is created has every attribute as a column once, the keys first; the client
  registers the keys it was asked for. They are the primary key of a new table, but when the
  table exists the statement changes nothing, and the registered keys may be others than its own.
\<close>

theorem create_registers_keys:
  assumes "creates M W" and "CreateTable M input D = (Inr (), D')" and "ident (c_TableName input)"
    and "SortKey (c_Keys input) = Nil_if \<or> (\<exists>s. SortKey (c_Keys input) = Str s)"
    and "list_all ident (key_columns (c_Keys input) @ c_Attributes input)"
    and "list_all (\<lambda>l. ident (IndexName l) \<and> ident (lsi_SortKey l)) (c_LSIs input)"
  shows "(\<exists>a. tableAttributes D' (c_TableName input) = Some a \<and> t_KeyAttributes a = c_Keys input \<and> t_LSIs a = c_LSIs input) \<and>
    primary W (dbConn D') (c_TableName input) =
      (if primary W (dbConn D) (c_TableName input) = [] then key_columns (c_Keys input)
       else primary W (dbConn D) (c_TableName input))"
proof -
  from assms(2) obtain n where n: "sql_Exec M (dbConn D) (create_statement input) [] = (Inr n, dbConn D')"
    and a: "tableAttributes D' (c_TableName input) =
      Some \<lparr>t_TableName = c_TableName input, t_KeyAttributes = c_Keys input, t_LSIs = c_LSIs input\<rparr>"
    by (auto simp: CreateTable_def split: prod.splits sum.splits)
  have "primary W (dbConn D') (c_TableName input) = (if primary W (dbConn D) (c_TableName input) = []
      then key_columns (c_Keys input) else primary W (dbConn D) (c_TableName input))"
    by (rule assms(1) [unfolded creates_def, rule_format, OF n [unfolded create_statement_sql [OF assms(4)]] assms(3)])
      (use assms(5,6) in \<open>auto simp: list_all_iff key_columns_def\<close>)
  with a show ?thesis by simp
qed

section \<open>Putting and getting an item\<close>

lemma length_put: "length (put_columns pk sk input) = length (put_args pk sk input)"
  by (simp add: put_columns_def put_args_def split: option.splits)

lemma put_statement_replace:
  "put_statement t (put_columns pk sk input) (put_placeholders sk input) = sql_replace t (put_columns pk sk input)"
proof -
  have "map (\<lambda>_. ''?'') (p_Values input) = replicate (length (p_Values input)) ''?''" by (rule map_replicate_const)
  then show ?thesis
    by (simp add: put_statement_def sql_replace_def put_columns_def put_placeholders_def split: option.splits)
qed

lemma get_statement_select:
  assumes "\<And>a s n. SortKey k \<noteq> Ptr a s \<and> SortKey k \<noteq> Int_if n"
  shows "get_statement input (PartitionKey k) (SortKey k) =
    sql_select (g_ProjectionExpression input) (g_TableName input) (key_columns k)"
  using assms by (cases "SortKey k") (auto simp: get_statement_def sql_select_def key_columns_def)

text \<open>The map made of a row: each part of the projection has its column.\<close>

lemma make_item_append:
  "make_item (xs @ [c]) (vs @ [v]) = (make_item xs vs)(TrimSpace c \<mapsto> valid_string v)" if "length xs = length vs"
  using that by (simp add: make_item_def)

lemma make_item_map:
  "make_item cols (map (\<lambda>c. r (TrimSpace c)) cols) x =
     (if x \<in> TrimSpace ` set cols then Some (valid_string (r x)) else None)"
  by (induction cols rule: rev_induct) (auto simp: make_item_append, simp add: make_item_def)

lemma ident_no_comma:
  assumes "ident (TrimSpace c)"
  shows "CHR '','' \<notin> set c"
proof
  assume "CHR '','' \<in> set c"
  then have "CHR '','' \<in> set (TrimSpace c)" using set_TrimSpace by (fastforce simp: space_byte_def)
  with assms show False by (fastforce simp: ident_def list_all_iff is_digit_def)
qed

lemma projection_columns_Join:
  assumes "cols \<noteq> []" and "list_all (\<lambda>c. ident (TrimSpace c)) cols"
  shows "projection_columns (Join cols '','') = cols"
  using Split_Join [of cols "CHR '',''"] assms ident_no_comma by (auto simp: projection_columns_def list_all_iff)

text \<open>What a call of \<^verbatim>\<open>PutItem\<close> has done when it returns nil.\<close>

lemma PutItem_success:
  assumes "PutItem M input D = Return (Inr (), D')" and "tableAttributes D (p_TableName input) = Some a"
  obtains sk n where "sort_key (SortKey (t_KeyAttributes a)) = Return sk" and "p_TableName input \<noteq> []"
    and "lookup (p_KeyAttributes input) (PartitionKey (t_KeyAttributes a)) \<noteq> []"
    and "\<forall>s. sk = Some s \<longrightarrow> lookup (p_KeyAttributes input) s \<noteq> []"
    and "sql_Exec M (dbConn D) (sql_replace (p_TableName input) (put_columns (PartitionKey (t_KeyAttributes a)) sk input))
      (map Str (put_args (PartitionKey (t_KeyAttributes a)) sk input)) = (Inr n, dbConn D')"
    and "tableAttributes D' = tableAttributes D"
proof -
  obtain sk where sk: "sort_key (SortKey (t_KeyAttributes a)) = Return sk" "p_TableName input \<noteq> []"
    "lookup (p_KeyAttributes input) (PartitionKey (t_KeyAttributes a)) \<noteq> []"
    "\<forall>s. sk = Some s \<longrightarrow> lookup (p_KeyAttributes input) s \<noteq> []"
    "exec_put M input (PartitionKey (t_KeyAttributes a)) sk D = (Inr (), D')"
    using assms by (auto simp: PutItem_def Let_def split: if_splits outcome.splits option.splits)
  from sk(5) obtain n where
    "sql_Exec M (dbConn D) (sql_replace (p_TableName input) (put_columns (PartitionKey (t_KeyAttributes a)) sk input))
      (map Str (put_args (PartitionKey (t_KeyAttributes a)) sk input)) = (Inr n, dbConn D')"
    "tableAttributes D' = tableAttributes D"
    by (auto simp: exec_put_def put_statement_replace split: prod.splits sum.splits)
  with sk that show ?thesis by blast
qed

lemma sort_key_Return:
  assumes "sort_key k = Return sk"
  shows "sk = None \<and> k = Nil_if \<or> (\<exists>s. sk = Some s \<and> k = Str s)"
  using assms by (cases k) (auto simp: sort_key_def)

text \<open>The columns and arguments of a put agree on the key.\<close>

lemma put_key:
  assumes "sort_key (SortKey k) = Return sk" and "\<forall>(c, v) \<in> set (zip (put_columns (PartitionKey k) sk input) (put_args (PartitionKey k) sk input)). r c = Some v"
  shows "set (key_columns k) \<subseteq> set (put_columns (PartitionKey k) sk input)"
    and "map (\<lambda>c. coll (the (r c))) (key_columns k) = map (\<lambda>c. coll (lookup (p_KeyAttributes input) c)) (key_columns k)"
  using assms(2) sort_key_Return [OF assms(1)] by (auto simp: key_columns_def put_columns_def put_args_def)

text \<open>The value an item was put with.\<close>

definition put_value :: "KeyAttributes \<Rightarrow> PutItemInput \<Rightarrow> string \<Rightarrow> string" where
  "put_value k input c = (if c \<in> set (key_columns k) then lookup (p_KeyAttributes input) c else lookup (p_Values input) c)"

lemma put_value_column:
  assumes "sort_key (SortKey k) = Return sk" and "c \<in> set (key_columns k) \<union> fst ` set (p_Values input)"
    and "\<forall>(c, v) \<in> set (zip (put_columns (PartitionKey k) sk input) (put_args (PartitionKey k) sk input)). r c = Some v"
  shows "r c = Some (put_value k input c)"
proof (cases "c \<in> set (key_columns k)")
  case True
  with assms(3) sort_key_Return [OF assms(1)] show ?thesis
    by (auto simp: put_value_def key_columns_def put_columns_def put_args_def)
next
  case False
  with assms(2) obtain v where v: "map_of (p_Values input) c = Some v"
    by (metis UnE map_of_eq_None_iff not_None_eq)
  then have "(c, v) \<in> set (zip (map fst (p_Values input)) (map snd (p_Values input)))"
    by (simp add: zip_map_fst_snd map_of_SomeD)
  with assms(3) sort_key_Return [OF assms(1)] have "r c = Some v"
    by (auto simp: put_columns_def put_args_def)
  with False v show ?thesis by (simp add: put_value_def lookup_def)
qed

lemma list_all_put_columns:
  assumes "sort_key (SortKey k) = Return sk" and "list_all P (key_columns k)" and "list_all P (map fst (p_Values input))"
  shows "list_all P (put_columns (PartitionKey k) sk input)"
  using assms(2,3) sort_key_Return [OF assms(1)] by (auto simp: put_columns_def key_columns_def list_all_iff)

text \<open>\<^verbatim>\<open>GetItem\<close> of a key on a registered table whose statement runs without an error.\<close>

lemma GetItem_select:
  assumes "tableAttributes D (g_TableName get) = Some a" and "g_TableName get \<noteq> []" and "g_PartitionKey get \<noteq> []"
    and "SortKey (t_KeyAttributes a) \<noteq> Nil_if \<longrightarrow> g_SortKey get \<noteq> Str []"
    and "sql_Query M (dbConn D) (get_statement get (PartitionKey (t_KeyAttributes a)) (SortKey (t_KeyAttributes a)))
      (get_args get (SortKey (t_KeyAttributes a))) = Inr ([map (\<lambda>c. r (TrimSpace c)) cols], None)"
    and "projection_columns (g_ProjectionExpression get) = cols"
  shows "GetItem M get D = Inr (make_item cols (map (\<lambda>c. r (TrimSpace c)) cols))"
  using assms by (auto simp: GetItem_def Let_def Scan_def)

text \<open>What a successful put leaves in the table: a row under the item's key with the item's values.\<close>

lemma put_stores:
  assumes law: "replaces coll M W" and put: "PutItem M input D = Return (Inr (), D')"
    and reg: "tableAttributes D (p_TableName input) = Some a" "primary W (dbConn D) (p_TableName input) = key_columns k"
    and k: "k = t_KeyAttributes a"
    and names: "ident (p_TableName input)" "list_all ident (key_columns k)" "list_all ident (map fst (p_Values input))"
  obtains r where "primary W (dbConn D') = primary W (dbConn D)"
    and "contents W (dbConn D') (p_TableName input) (map coll (map (lookup (p_KeyAttributes input)) (key_columns k))) = Some r"
    and "\<forall>c. c \<in> set (key_columns k) \<union> fst ` set (p_Values input) \<longrightarrow> r c = Some (put_value k input c)"
    and "tableAttributes D' = tableAttributes D" and "p_TableName input \<noteq> []"
    and "SortKey k = Nil_if \<or> (\<exists>s. SortKey k = Str s)"
    and "\<forall>c \<in> set (key_columns k). lookup (p_KeyAttributes input) c \<noteq> []"
proof -
  from PutItem_success [OF put reg(1)] obtain sk n where sk: "sort_key (SortKey k) = Return sk"
    and ne: "p_TableName input \<noteq> []" "lookup (p_KeyAttributes input) (PartitionKey k) \<noteq> []"
      "\<forall>s. sk = Some s \<longrightarrow> lookup (p_KeyAttributes input) s \<noteq> []"
    and ex: "sql_Exec M (dbConn D) (sql_replace (p_TableName input) (put_columns (PartitionKey k) sk input))
      (map Str (put_args (PartitionKey k) sk input)) = (Inr n, dbConn D')"
    and att: "tableAttributes D' = tableAttributes D"
    unfolding k by blast
  note keys = sort_key_Return [OF sk]
  have cols: "list_all ident (put_columns (PartitionKey k) sk input)"
    using list_all_put_columns [OF sk] names by blast
  have sub: "set (primary W (dbConn D) (p_TableName input)) \<subseteq> set (put_columns (PartitionKey k) sk input)"
    using keys reg(2) by (auto simp: key_columns_def put_columns_def)
  obtain r where prim: "primary W (dbConn D') = primary W (dbConn D)"
    and r: "\<forall>(c, v) \<in> set (zip (put_columns (PartitionKey k) sk input) (put_args (PartitionKey k) sk input)). r c = Some v"
    and cont: "contents W (dbConn D') (p_TableName input) =
      (contents W (dbConn D) (p_TableName input))(map (\<lambda>c. coll (the (r c))) (key_columns k) \<mapsto> r)"
    by (rule replacesD [OF law ex names(1) cols length_put [symmetric] sub, unfolded reg(2)]) (erule that)
  show ?thesis
  proof (rule that [of r])
    show "contents W (dbConn D') (p_TableName input) (map coll (map (lookup (p_KeyAttributes input)) (key_columns k))) = Some r"
      using cont put_key(2) [OF sk r, of coll] by (simp add: comp_def)
    show "\<forall>c. c \<in> set (key_columns k) \<union> fst ` set (p_Values input) \<longrightarrow> r c = Some (put_value k input c)"
      using put_value_column [OF sk _ r] by blast
    show "\<forall>c \<in> set (key_columns k). lookup (p_KeyAttributes input) c \<noteq> []"
      using ne(2,3) keys by (auto simp: key_columns_def)
  qed (use prim att ne(1) keys in auto)
qed

text \<open>
  C14. An item that was put is got back by its key: for every projection of the columns it was
  put with, \<^verbatim>\<open>GetItem\<close> returns exactly these columns with the values of the put, when the
  table has the registered keys and the SELECT runs without an error. The order in which the
  put visited the values does not matter.
\<close>

theorem put_then_get:
  assumes laws: "replaces coll M W" "selects_key coll M W"
    and put: "PutItem M input D = Return (Inr (), D')"
    and reg: "tableAttributes D (p_TableName input) = Some a"
      "primary W (dbConn D) (p_TableName input) = key_columns (t_KeyAttributes a)"
    and names: "ident (p_TableName input)" "list_all ident (key_columns (t_KeyAttributes a))"
      "list_all ident (map fst (p_Values input))"
    and get: "g_TableName get = p_TableName input"
      "g_PartitionKey get = lookup (p_KeyAttributes input) (PartitionKey (t_KeyAttributes a))"
      "\<forall>s. SortKey (t_KeyAttributes a) = Str s \<longrightarrow> arg_string (g_SortKey get) = Some (lookup (p_KeyAttributes input) s)"
    and proj: "g_ProjectionExpression get = Join cols '',''" "cols \<noteq> []" "list_all (\<lambda>c. ident (TrimSpace c)) cols"
      "TrimSpace ` set cols \<subseteq> set (key_columns (t_KeyAttributes a)) \<union> fst ` set (p_Values input)"
    and ran: "sql_Query M (dbConn D') (get_statement get (PartitionKey (t_KeyAttributes a)) (SortKey (t_KeyAttributes a)))
      (get_args get (SortKey (t_KeyAttributes a))) = Inr (rs, None)"
  shows "\<exists>it. GetItem M get D' = Inr it \<and> dom it = TrimSpace ` set cols \<and>
    (\<forall>c. c \<in> TrimSpace ` set cols \<longrightarrow> it c = Some (put_value (t_KeyAttributes a) input c))"
proof -
  obtain k where k: "k = t_KeyAttributes a" by blast
  obtain r where prim: "primary W (dbConn D') = primary W (dbConn D)"
    and cont: "contents W (dbConn D') (p_TableName input) (map coll (map (lookup (p_KeyAttributes input)) (key_columns k))) = Some r"
    and r: "\<forall>c. c \<in> set (key_columns k) \<union> fst ` set (p_Values input) \<longrightarrow> r c = Some (put_value k input c)"
    and att: "tableAttributes D' = tableAttributes D" and ne: "p_TableName input \<noteq> []"
    and keys: "SortKey k = Nil_if \<or> (\<exists>s. SortKey k = Str s)"
    and filled: "\<forall>c \<in> set (key_columns k). lookup (p_KeyAttributes input) c \<noteq> []"
    by (rule put_stores [OF laws(1) put reg [folded k] k names [folded k]]) (erule that)
  have args: "map arg_string (get_args get (SortKey k)) = map Some (map (lookup (p_KeyAttributes input)) (key_columns k))"
    using get keys k by (auto simp: get_args_def key_columns_def)
  have q: "sql_Query M (dbConn D') (sql_select (Join cols '','') (p_TableName input) (primary W (dbConn D') (p_TableName input)))
      (get_args get (SortKey k)) = Inr (rs, None)"
    using ran get_statement_select [of k get] keys k prim reg(2) get(1) proj(1) by auto
  have rs: "rs = [map (\<lambda>c. r (TrimSpace c)) cols]"
    using selects_keyD [OF laws(2) q names(1) proj(2,3) args] cont by simp
  have "GetItem M get D' = Inr (make_item cols (map (\<lambda>c. r (TrimSpace c)) cols))"
  proof (rule GetItem_select)
    show "SortKey (t_KeyAttributes a) \<noteq> Nil_if \<longrightarrow> g_SortKey get \<noteq> Str []"
      using keys k filled get(3) by (auto simp: key_columns_def)
    show "g_PartitionKey get \<noteq> []" using filled get(2) k by (simp add: key_columns_def)
  qed (use att reg(1) get(1) ne ran rs proj(1) projection_columns_Join [OF proj(2,3)] k in simp_all)
  moreover have "r c = Some (put_value k input c)" if "c \<in> TrimSpace ` set cols" for c
    using r proj(4) that k by blast
  ultimately show ?thesis
    by (intro exI [of _ "make_item cols (map (\<lambda>c. r (TrimSpace c)) cols)"]) (auto simp: make_item_map k dom_def)
qed

section \<open>Types of keys\<close>

text \<open>
  The keys have an interface type; strings and nil are the values the package expects in a sort
  key or an index name. A client is well typed when the keys of its tables are.
\<close>

definition key_typed :: "iface \<Rightarrow> bool" where
  "key_typed k \<longleftrightarrow> k = Nil_if \<or> (\<exists>s. k = Str s)"

definition client_typed :: "'d DynamoDB \<Rightarrow> bool" where
  "client_typed D \<longleftrightarrow>
     (\<forall>t a. tableAttributes D t = Some a \<longrightarrow> t_TableName a = t \<and> key_typed (SortKey (t_KeyAttributes a)))"

fun call_typed :: "dyn_call \<Rightarrow> bool" where
  "call_typed (Create input) \<longleftrightarrow> key_typed (SortKey (c_Keys input))"
| "call_typed (Qry input) \<longleftrightarrow> key_typed (q_IndexName input)"
| "call_typed _ \<longleftrightarrow> True"

lemma key_typed_cases:
  assumes "key_typed k"
  obtains "k = Nil_if" | s where "k = Str s"
  using assms unfolding key_typed_def by blast

lemma sort_key_typed: "key_typed k \<Longrightarrow> \<exists>sk. sort_key k = Return sk"
  by (erule key_typed_cases) (simp_all add: sort_key_def)

lemma exec_put_attributes: "tableAttributes (snd (exec_put M input pk sk D)) = tableAttributes D"
  by (simp add: exec_put_def split: prod.splits sum.splits)

lemma PutItem_typed:
  assumes "client_typed D"
  shows "\<exists>r D'. PutItem M input D = Return (r, D') \<and> tableAttributes D' = tableAttributes D"
proof (cases "tableAttributes D (p_TableName input)")
  case None
  then show ?thesis by (simp add: PutItem_def)
next
  case (Some a)
  with assms obtain sk where sk: "sort_key (SortKey (t_KeyAttributes a)) = Return sk"
    using sort_key_typed unfolding client_typed_def by blast
  have "\<exists>r D'. exec_put M input (PartitionKey (t_KeyAttributes a)) sk D = (r, D') \<and> tableAttributes D' = tableAttributes D"
    using exec_put_attributes [of M input "PartitionKey (t_KeyAttributes a)" sk D] by (metis prod.collapse)
  with Some sk show ?thesis by (auto simp: PutItem_def Let_def split: option.splits)
qed

lemma Query_typed:
  assumes "client_typed D" and "key_typed (q_IndexName input)"
  shows "\<exists>r. Query M input D = Return r"
proof (cases "tableAttributes D (q_TableName input)")
  case None
  then show ?thesis by (simp add: Query_def)
next
  case (Some a)
  with assms(1) have "key_typed (SortKey (t_KeyAttributes a))" unfolding client_typed_def by blast
  with assms(2) have "\<exists>r. effective_sort_key a (q_TableName input) (q_IndexName input) = Return r"
    by (auto elim!: key_typed_cases simp: effective_sort_key_def split: option.splits)
  with Some show ?thesis by (auto simp: Query_def split: sum.splits)
qed

lemma dyn_run_typed:
  assumes "client_typed D" and "call_typed c"
  shows "\<exists>D'. dyn_run M c D = Return D' \<and> client_typed D'"
proof (cases c)
  case (Create input)
  with assms show ?thesis
    by (auto simp: CreateTable_def client_typed_def split: prod.splits sum.splits)
next
  case (Put input)
  obtain r D' where "PutItem M input D = Return (r, D')" "tableAttributes D' = tableAttributes D"
    using PutItem_typed [OF assms(1)] by blast
  with Put assms(1) show ?thesis by (simp add: client_typed_def)
next
  case (Get input)
  with assms show ?thesis by (simp split: sum.splits)
next
  case (Qry input)
  obtain r where "Query M input D = Return r" using Query_typed [OF assms(1)] Qry assms(2) by auto
  with Qry assms(1) show ?thesis by simp
qed

text \<open>
  C19. A program whose sort keys and index names are strings or nil never panics in the package,
  whatever the database answers: every call on a well typed client returns and leaves it well
  typed, from the new client on.
\<close>

theorem typed_calls_return:
  assumes "NewDynamoDB opened = Return D" and "list_all call_typed cs"
  shows "\<exists>D'. dyn_calls M cs D = Return D' \<and> client_typed D'"
proof -
  have "client_typed D" using assms(1) by (auto simp: NewDynamoDB_def client_typed_def split: sum.splits)
  with assms(2) show ?thesis
  proof (induction cs arbitrary: D)
    case (Cons c cs)
    obtain D1 where "dyn_run M c D = Return D1" "client_typed D1"
      using dyn_run_typed [OF Cons.prems(2)] Cons.prems(1) by auto
    with Cons show ?case by simp
  qed simp
qed

theorem typed_calls_return_witness:
  "\<exists>D'. dyn_calls \<lparr>sql_Exec = (\<lambda>d s xs. (Inr 0, d)), sql_Query = (\<lambda>d s xs. Inl EIO)\<rparr> (main_calls 64)
     \<lparr>dbConn = (), tableAttributes = (\<lambda>_. None)\<rparr> = Return D' \<and> client_typed D'"
proof (rule typed_calls_return)
  show "NewDynamoDB (Inr ()) = Return \<lparr>dbConn = (), tableAttributes = (\<lambda>_. None)\<rparr>" by (simp add: NewDynamoDB_def)
  show "list_all call_typed (main_calls 64)"
    by (simp add: main_calls_def create_users_def create_orders_def query_orders_def query_completed_def key_typed_def)
qed

section \<open>Queries\<close>

text \<open>
  A query returns one item for every row, in the order of the rows, also when the rows
  ended with an error: the caller gets the part that arrived as if it were all.
\<close>

theorem query_returns_what_arrived:
  assumes "q_TableName input \<noteq> []" and "q_KeyConditionExpression input \<noteq> []"
    and "tableAttributes D (q_TableName input) = Some a"
    and "effective_sort_key a (q_TableName input) (q_IndexName input) = Return (Inr k)"
    and "sql_Query M (dbConn D) (query_statement input k) (query_args input) = Inr (rs, e)"
    and "list_all (\<lambda>r. length r = length (projection_columns (q_ProjectionExpression input))) rs"
  shows "Query M input D = Return (Inr (map (make_item (projection_columns (q_ProjectionExpression input))) rs))"
proof -
  have "query_loop cols rs acc = Inr (acc @ map (make_item cols) rs)"
    if "list_all (\<lambda>r. length r = length cols) rs" for cols acc
    using that by (induction rs arbitrary: acc) (simp_all add: Scan_def)
  from this [OF assms(6)] show ?thesis using assms(1-5) by (simp add: Query_def)
qed

theorem query_returns_what_arrived_witness:
  "\<exists>it. Query \<lparr>sql_Exec = (\<lambda>d s xs. (Inr 0, d)),
       sql_Query = (\<lambda>d s xs. Inr ([map Some [''user#1'', ''order#1'', ''250'', ''pending'']], Some EIO))\<rparr> query_orders
     \<lparr>dbConn = (), tableAttributes = [''orders'' \<mapsto> \<lparr>t_TableName = ''orders'', t_KeyAttributes = c_Keys create_orders,
        t_LSIs = c_LSIs create_orders\<rparr>]\<rparr> = Return (Inr [it])"
proof (intro exI)
  show "Query \<lparr>sql_Exec = (\<lambda>d s xs. (Inr 0, d)),
       sql_Query = (\<lambda>d s xs. Inr ([map Some [''user#1'', ''order#1'', ''250'', ''pending'']], Some EIO))\<rparr> query_orders
     \<lparr>dbConn = (), tableAttributes = [''orders'' \<mapsto> \<lparr>t_TableName = ''orders'', t_KeyAttributes = c_Keys create_orders,
        t_LSIs = c_LSIs create_orders\<rparr>]\<rparr> = Return (Inr [make_item (projection_columns (q_ProjectionExpression query_orders))
          (map Some [''user#1'', ''order#1'', ''250'', ''pending''])])"
    by (subst query_returns_what_arrived)
      (auto simp: query_orders_def create_orders_def effective_sort_key_def projection_columns_def Split_def)
qed

text \<open>
  The arguments of a query come in the order of a loop over a map, the placeholders in that of
  the condition: the second query of \<^verbatim>\<open>main\<close> sends the same statement with its two values
  exchanged when the loop visits the map the other way.
\<close>

theorem query_arguments_swapped:
  "query_statement (query_completed [(''status'', ''completed''), (''user_id'', ''user#1'')]) k =
     query_statement (query_completed [(''user_id'', ''user#1''), (''status'', ''completed'')]) k \<and>
   query_args (query_completed [(''user_id'', ''user#1''), (''status'', ''completed'')]) = [Str ''user#1'', Str ''completed''] \<and>
   query_args (query_completed [(''status'', ''completed''), (''user_id'', ''user#1'')]) = [Str ''completed'', Str ''user#1'']"
  by (simp add: query_statement_def query_args_def query_completed_def)

section \<open>A database that keeps the promises\<close>

text \<open>
  A reference database with the one table \<open>users\<close> in memory. It reads the statements it
  knows and refuses all others.
\<close>

type_synonym users_mem = "string list \<Rightarrow> item option"

definition users_key :: "string list" where
  "users_key = [''org_id'', ''user_id'']"

definition users_tables :: "(users_mem, string) tables" where
  "users_tables = \<lparr>primary = (\<lambda>d t. if t = ''users'' then users_key else []),
     contents = (\<lambda>d t. if t = ''users'' then d else Map.empty)\<rparr>"

definition parse_columns :: "string \<Rightarrow> string list" where
  "parse_columns s = map TrimSpace (Split (takeWhile (\<lambda>c. c \<noteq> CHR '')'') s) (CHR '',''))"

definition users_row :: "string list \<Rightarrow> iface list \<Rightarrow> item" where
  "users_row cols args = map_of (zip cols (map fmt_s args))"

definition users_exec :: "users_mem \<Rightarrow> string \<Rightarrow> iface list \<Rightarrow> int result \<times> users_mem" where
  "users_exec d s args =
     (let cols = parse_columns (drop 20 s); r = users_row cols args
      in if take 20 s = ''REPLACE INTO users ('' \<and> length args = length cols \<and> distinct cols \<and> set users_key \<subseteq> set cols
         then (Inr 1, d(map (\<lambda>c. the (r c)) users_key \<mapsto> r))
         else (if take 35 s = ''CREATE TABLE IF NOT EXISTS users ( '' then Inr 0 else Inl EIO, d))"

definition users_from :: string where
  "users_from = '' FROM users WHERE org_id = ? AND user_id = ?''"

definition users_query :: "users_mem \<Rightarrow> string \<Rightarrow> iface list \<Rightarrow> rows result" where
  "users_query d s args =
     (let proj = take (length s - 7 - length users_from) (drop 7 s)
      in if s = ''SELECT '' @ proj @ users_from
         then Inr (case d (map (\<lambda>a. the (arg_string a)) args) of
              None \<Rightarrow> [] | Some r \<Rightarrow> [map (\<lambda>c. r (TrimSpace c)) (projection_columns proj)], None)
         else Inl EIO)"

definition users_mysql :: "users_mem mysql" where
  "users_mysql = \<lparr>sql_Exec = users_exec, sql_Query = users_query\<rparr>"

lemma ident_char:
  assumes "ident s" and "c \<in> {CHR '' '', CHR '','', CHR '')''}"
  shows "c \<notin> set s"
  using assms by (fastforce simp: ident_def list_all_iff is_digit_def)

lemma ident_Trim:
  assumes "ident s"
  shows "TrimSpace s = s" and "TrimSpace (CHR '' '' # s) = s"
proof -
  have "\<not> space_byte c" if "c \<in> set s" for c
    using assms that by (fastforce simp: ident_def list_all_iff is_digit_def space_byte_def)
  then show id: "TrimSpace s = s" by (simp add: TrimSpace_id)
  have "strip space_runes (CHR '' '' # s) = strip space_runes s"
    by (subst strip.simps) (simp add: space_runes_def)
  with id show "TrimSpace (CHR '' '' # s) = s" by (simp add: TrimSpace_def)
qed

lemma Split_Join_blank:
  assumes "list_all ident (c # cs)"
  shows "map TrimSpace (Split (Join (c # cs) '', '') (CHR '','')) = c # cs"
proof -
  have "map TrimSpace (Split_from [] (b @ Join (c # cs) '', '') (CHR '','')) = c # cs" if "b \<in> {[], '' ''}" for b
    using assms that
  proof (induction cs arbitrary: b c)
    case Nil
    then have "CHR '','' \<notin> set (b @ c)" using ident_char [of c "CHR '',''"] by auto
    from Split_from_append [OF this, of "[]" "[]"] Nil show ?case by (auto simp: ident_Trim)
  next
    case (Cons x cs)
    then have "CHR '','' \<notin> set (b @ c)" using ident_char [of c "CHR '',''"] by auto
    from Split_from_append [OF this, of "[]" "CHR '','' # CHR '' '' # Join (x # cs) '', ''"] Cons.IH [of x "'' ''"] Cons.prems
    show ?case by (auto simp: ident_Trim)
  qed
  from this [of "[]"] show ?thesis by (simp add: Split_def)
qed

lemma Join_chars: "c \<in> set (Join xs sep) \<Longrightarrow> c \<in> set sep \<or> (\<exists>x \<in> set xs. c \<in> set x)"
  by (induction xs sep rule: Join.induct) auto

lemma parse_columns_Join:
  assumes "cols \<noteq> []" and "list_all ident cols"
  shows "parse_columns (Join cols '', '' @ CHR '')'' # s) = cols"
proof -
  have "CHR '')'' \<notin> set (Join cols '', '')"
    using Join_chars [of "CHR '')''" cols "'', ''"] assms(2) ident_char by (auto simp: list_all_iff)
  then have "takeWhile (\<lambda>c. c \<noteq> CHR '')'') (Join cols '', '' @ CHR '')'' # s) = Join cols '', ''"
    by (auto simp: takeWhile_append)
  with Split_Join_blank [of "hd cols" "tl cols"] assms show ?thesis by (simp add: parse_columns_def)
qed

lemma ident_users:
  assumes "ident t" and "t @ CHR '' '' # u = ''users '' @ v"
  shows "t = ''users''"
proof -
  have "takeWhile (\<lambda>c. c \<noteq> CHR '' '') (t @ CHR '' '' # u) = t"
    using ident_char [OF assms(1), of "CHR '' ''"] by (simp add: takeWhile_append)
  moreover have "takeWhile (\<lambda>c. c \<noteq> CHR '' '') (''users '' @ v) = ''users''" by simp
  ultimately show ?thesis by (simp only: assms(2))
qed

lemma users_table_name:
  assumes "ident t" and "take 20 (sql_replace t cols) = ''REPLACE INTO users (''"
  shows "t = ''users''"
proof -
  have "sql_replace t cols = ''REPLACE INTO users ('' @ drop 20 (sql_replace t cols)"
    using assms(2) by (metis append_take_drop_id)
  then show ?thesis unfolding sql_replace_def by (auto intro: ident_users [OF assms(1)])
qed

lemma users_created_name:
  assumes "ident t" and "take 35 (sql_create t keys cols indexes) = ''CREATE TABLE IF NOT EXISTS users ( ''"
  shows "t = ''users''"
proof -
  have "sql_create t keys cols indexes = ''CREATE TABLE IF NOT EXISTS users ( '' @ drop 35 (sql_create t keys cols indexes)"
    using assms(2) by (metis append_take_drop_id)
  then show ?thesis unfolding sql_create_def by (auto intro: ident_users [OF assms(1)])
qed

lemma users_creates: "creates users_mysql users_tables"
  unfolding creates_def
proof (intro allI impI)
  fix d t keys cols indexes n d'
  assume ex: "sql_Exec users_mysql d (sql_create t keys cols indexes) [] = (Inr n, d')" and t: "ident t"
  have "take 20 (sql_create t keys cols indexes) \<noteq> ''REPLACE INTO users (''" by (simp add: sql_create_def)
  with ex have "take 35 (sql_create t keys cols indexes) = ''CREATE TABLE IF NOT EXISTS users ( ''"
    by (auto simp: users_mysql_def users_exec_def Let_def split: if_splits)
  from users_created_name [OF t this]
  show "primary users_tables d' t = (if primary users_tables d t = [] then keys else primary users_tables d t)"
    by (simp add: users_tables_def users_key_def)
qed

lemma users_replaces: "replaces (\<lambda>s. s) users_mysql users_tables"
  unfolding replaces_def
proof (intro allI impI)
  fix d t cols vs n d'
  assume ex: "sql_Exec users_mysql d (sql_replace t cols) (map Str vs) = (Inr n, d')"
    and t: "ident t" and cols: "list_all ident cols" and len: "length vs = length cols"
    and sub: "set (primary users_tables d t) \<subseteq> set cols"
  obtain r where r: "r = users_row cols (map Str vs)" by blast
  have "take 35 (sql_replace t cols) \<noteq> ''CREATE TABLE IF NOT EXISTS users ( ''" by (simp add: sql_replace_def)
  with ex have u: "take 20 (sql_replace t cols) = ''REPLACE INTO users (''"
    by (auto simp: users_mysql_def users_exec_def Let_def split: if_splits)
  have users: "t = ''users''" by (rule users_table_name [OF t u])
  have "cols \<noteq> []" using sub users by (auto simp: users_tables_def users_key_def)
  from parse_columns_Join [OF this cols] have parse: "parse_columns (drop 20 (sql_replace t cols)) = cols"
    by (simp add: users sql_replace_def)
  with ex u have d': "d' = d(map (\<lambda>c. the (r c)) users_key \<mapsto> r)" and "distinct cols"
    by (auto simp: users_mysql_def users_exec_def Let_def r sql_replace_def split: if_splits)
  then have "\<forall>(c, v) \<in> set (zip cols vs). r c = Some v"
    using len by (auto simp: r users_row_def comp_def)
  with d' users show "primary users_tables d' = primary users_tables d \<and> (\<exists>r. (\<forall>(c, v) \<in> set (zip cols vs). r c = Some v) \<and>
      contents users_tables d' t = (contents users_tables d t)(map (\<lambda>c. the (r c)) (primary users_tables d t) \<mapsto> r))"
    by (auto simp: users_tables_def)
qed

lemma users_selects_key: "selects_key (\<lambda>s. s) users_mysql users_tables"
  unfolding selects_key_def
proof (intro allI impI)
  fix d t cols args vs rs
  assume q: "sql_Query users_mysql d (sql_select (Join cols '','') t (primary users_tables d t)) args = Inr (rs, None)"
    and cols: "cols \<noteq> []" "list_all (\<lambda>c. ident (TrimSpace c)) cols" and args: "map arg_string args = map Some vs"
  obtain s where s: "s = sql_select (Join cols '','') t (primary users_tables d t)" by blast
  have "\<exists>p. s = ''SELECT '' @ p @ users_from"
    using q unfolding s by (auto simp: users_mysql_def users_query_def Let_def split: if_splits)
  then have "last s = CHR ''?''" by (auto simp: users_from_def)
  then have t: "t = ''users''"
    by (auto simp: s sql_select_def users_tables_def split: if_splits)
  have s: "s = ''SELECT '' @ Join cols '','' @ users_from"
    by (simp add: s t sql_select_def users_tables_def users_key_def users_from_def)
  have "map (\<lambda>a. the (arg_string a)) args = vs"
    using arg_cong [OF args, of "map the"] by (simp add: comp_def)
  with q s show "rs = (case contents users_tables d t (map (\<lambda>s. s) vs) of None \<Rightarrow> []
      | Some r \<Rightarrow> [map (\<lambda>c. r (TrimSpace c)) cols])"
    by (auto simp: t users_mysql_def users_query_def Let_def users_tables_def projection_columns_Join [OF cols]
        sql_select_def users_key_def users_from_def split: option.splits)
qed

text \<open>The first item of \<^verbatim>\<open>main\<close>, put and got back.\<close>

definition users_attributes :: DynamoDBTableAttributes where
  "users_attributes = \<lparr>t_TableName = ''users'', t_KeyAttributes = c_Keys create_users, t_LSIs = c_LSIs create_users\<rparr>"

definition users_client :: "users_mem \<Rightarrow> users_mem DynamoDB" where
  "users_client d = \<lparr>dbConn = d, tableAttributes = [''users'' \<mapsto> users_attributes]\<rparr>"

theorem create_registers_keys_witness:
  "\<exists>D' a. CreateTable users_mysql (create_users\<lparr>c_Keys := \<lparr>PartitionKey = ''name'', SortKey = Nil_if\<rparr>\<rparr>) (users_client Map.empty) = (Inr (), D') \<and>
     tableAttributes D' ''users'' = Some a \<and> key_columns (t_KeyAttributes a) = [''name''] \<and>
     primary users_tables (dbConn D') ''users'' = [''org_id'', ''user_id'']"
proof -
  let ?i = "create_users\<lparr>c_Keys := \<lparr>PartitionKey = ''name'', SortKey = Nil_if\<rparr>\<rparr>"
  obtain D' where c: "CreateTable users_mysql ?i (users_client Map.empty) = (Inr (), D')"
    by (simp add: CreateTable_def create_statement_def create_users_def users_mysql_def users_exec_def users_client_def Let_def)
  have i: "c_TableName ?i = ''users''" "c_Keys ?i = \<lparr>PartitionKey = ''name'', SortKey = Nil_if\<rparr>" "c_LSIs ?i = []"
    by (simp_all add: create_users_def)
  have "list_all ident (key_columns (c_Keys ?i) @ c_Attributes ?i)"
    unfolding i key_columns_def by (simp add: create_users_def ident_def is_digit_def)
  from create_registers_keys [OF users_creates c _ _ this]
  have "(\<exists>a. tableAttributes D' ''users'' = Some a \<and> t_KeyAttributes a = c_Keys ?i) \<and> primary users_tables (dbConn D') ''users'' = users_key"
    unfolding i by (auto simp: users_tables_def users_key_def ident_def is_digit_def)
  then show ?thesis using c i(2) by (auto simp: key_columns_def users_key_def)
qed

lemma users_exec_put:
  assumes "cols \<noteq> []" and "list_all ident cols" and "distinct cols" and "set users_key \<subseteq> set cols" and "length args = length cols"
  shows "\<exists>d'. users_exec d (sql_replace ''users'' cols) args = (Inr 1, d')"
  using parse_columns_Join [OF assms(1,2)] assms(3-5) by (simp add: users_exec_def Let_def sql_replace_def)

lemma users_query_get: "\<exists>rs. users_query d (''SELECT '' @ p @ users_from) args = Inr (rs, None)"
  by (simp add: users_query_def Let_def)

theorem put_then_get_witness:
  "\<exists>D' it. PutItem users_mysql (put_user ''user#1'' ''Shubham Sharma'' ''28'') (users_client Map.empty) = Return (Inr (), D') \<and>
     GetItem users_mysql (get_user1 64) D' = Inr it \<and> it ''name'' = Some ''Shubham Sharma''"
proof -
  let ?p = "put_user ''user#1'' ''Shubham Sharma'' ''28''"
  let ?cols = "[''org_id'', ''user_id'', ''name'', ''age'']"
  let ?k = "t_KeyAttributes users_attributes"
  note data = put_user_def get_user1_def users_client_def users_attributes_def create_users_def
  have cols: "put_columns ''org_id'' (Some ''user_id'') ?p = ?cols" by (simp add: data put_columns_def)
  have pn: "p_TableName ?p = ''users''" by (simp add: put_user_def)
  have id: "list_all ident ?cols" by (simp add: ident_def is_digit_def)
  obtain d' where "users_exec Map.empty (sql_replace ''users'' ?cols) (map Str (put_args ''org_id'' (Some ''user_id'') ?p)) = (Inr 1, d')"
    using users_exec_put [OF _ id] by (fastforce simp: users_key_def data put_args_def)
  then have ex: "exec_put users_mysql ?p ''org_id'' (Some ''user_id'') (users_client Map.empty) = (Inr (), users_client d')"
    using put_statement_replace [of "''users''" "''org_id''" "Some ''user_id''" ?p, unfolded cols] pn
    unfolding exec_put_def cols by (simp add: users_mysql_def users_client_def)
  have p: "lookup (p_KeyAttributes ?p) ''org_id'' = ''org#1''"
    "lookup (p_KeyAttributes ?p) ''user_id'' = ''user#1''" by (simp_all add: put_user_def lookup_def)
  have "tableAttributes (users_client Map.empty) ''users'' = Some users_attributes"
    "PartitionKey ?k = ''org_id''" "sort_key (SortKey ?k) = Return (Some ''user_id'')"
    by (simp_all add: users_client_def users_attributes_def create_users_def sort_key_def)
  with p pn ex have put: "PutItem users_mysql ?p (users_client Map.empty) = Return (Inr (), users_client d')"
    by (simp add: PutItem_def Let_def)
  have get: "get_statement (get_user1 64) (PartitionKey ?k) (SortKey ?k) = ''SELECT '' @ Join ?cols '','' @ users_from"
    by (simp add: get_statement_def data users_from_def)
  obtain rs where ran: "sql_Query users_mysql (dbConn (users_client d')) (get_statement (get_user1 64) (PartitionKey ?k) (SortKey ?k))
      (get_args (get_user1 64) (SortKey ?k)) = Inr (rs, None)"
    unfolding get users_mysql_def mysql.simps using users_query_get by blast
  have k: "key_columns ?k = [''org_id'', ''user_id'']" by (simp add: data key_columns_def)
  have trim: "TrimSpace ''org_id'' = ''org_id''" "TrimSpace ''user_id'' = ''user_id''" "TrimSpace ''name'' = ''name''"
    "TrimSpace ''age'' = ''age''" using id by (simp_all add: ident_Trim(1))
  have "\<exists>it. GetItem users_mysql (get_user1 64) (users_client d') = Inr it \<and> dom it = TrimSpace ` set ?cols \<and>
      (\<forall>c. c \<in> TrimSpace ` set ?cols \<longrightarrow> it c = Some (put_value ?k ?p c))"
  proof (rule put_then_get [OF users_replaces users_selects_key put _ _ _ _ _ _ _ _ _ _ _ _ ran])
    show "primary users_tables (dbConn (users_client Map.empty)) (p_TableName ?p) = key_columns ?k"
      unfolding pn k by (simp add: users_tables_def users_key_def)
    show "list_all ident (key_columns ?k)" unfolding k using id by simp
    show "list_all (\<lambda>c. ident (TrimSpace c)) ?cols" using id by (simp add: trim)
    show "TrimSpace ` set ?cols \<subseteq> set (key_columns ?k) \<union> fst ` set (p_Values ?p)"
      unfolding k by (simp add: trim put_user_def)
    show "list_all ident (map fst (p_Values ?p))" using id by (simp add: put_user_def)
    show "ident (p_TableName ?p)" unfolding pn by (simp add: ident_def is_digit_def)
  qed (simp_all add: data lookup_def)
  then obtain it where it: "GetItem users_mysql (get_user1 64) (users_client d') = Inr it"
    "\<forall>c. c \<in> TrimSpace ` set ?cols \<longrightarrow> it c = Some (put_value ?k ?p c)" by blast
  have "''name'' \<in> TrimSpace ` set ?cols" by (simp add: trim)
  then have "it ''name'' = Some (put_value ?k ?p ''name'')" using it(2) by blast
  moreover have "put_value ?k ?p ''name'' = ''Shubham Sharma''"
    unfolding put_value_def k by (simp add: put_user_def lookup_def)
  ultimately have "it ''name'' = Some ''Shubham Sharma''" by simp
  with put it(1) show ?thesis by blast
qed

end
