(* ===== verification/Bulk_Writes.thy ===== *)
theory Bulk_Writes
  imports Go_Strings Go_SQL
begin

text \<open>
  The bulk writers: src/relational-db/upsert, in which a hundred goroutines insert and then
  replace a million rows, and src/id-generators/uuid-mysql, which inserts rows under random and
  under consecutive ids. Every statement is a transaction of its own; the database is a
  parameter.
\<close>

section \<open>Upsert: the workers\<close>

definition insert_row :: string where
  "insert_row = ''INSERT INTO upsert_testing (name, age) VALUES (?, ?);''"

text \<open>The text of the second statement, with the white space of its second line.\<close>

definition upsert_row :: string where
  "upsert_row = ''INSERT INTO upsert_testing (name, age) VALUES (?, ?)'' @
     [CHR 0x0A, CHR 0x09, CHR 0x09] @ ''  ON DUPLICATE KEY UPDATE age = VALUES(age);''"

definition replace_row :: string where
  "replace_row = ''REPLACE INTO upsert_testing (name, age) VALUES (?, ?);''"

definition row_name :: "nat \<Rightarrow> nat \<Rightarrow> string" where
  "row_name iteration i = ''name_'' @ dec iteration @ ''_'' @ dec i"

definition goroutines :: "nat set" where
  "goroutines = {1..100}"

definition rows_each :: nat where
  "rows_each = 10000"

text \<open>
  A database: its state, the statement, its two arguments, whether it succeeded, and the new
  state. A worker is at its next row, or has returned after an error.
\<close>

type_synonym 'd row_db = "'d \<Rightarrow> string \<Rightarrow> string \<Rightarrow> int \<Rightarrow> bool \<Rightarrow> 'd \<Rightarrow> bool"

inductive bulk_step :: "'d row_db \<Rightarrow> string \<Rightarrow> (nat \<Rightarrow> int) \<Rightarrow>
    'd \<times> (nat \<Rightarrow> nat option) \<Rightarrow> nat \<times> nat \<times> bool \<Rightarrow> 'd \<times> (nat \<Rightarrow> nat option) \<Rightarrow> bool" for db query age where
  exec: "g \<in> goroutines \<Longrightarrow> pc g = Some i \<Longrightarrow> i \<le> rows_each \<Longrightarrow> db d query (row_name g i) (age i) ok d' \<Longrightarrow>
    bulk_step db query age (d, pc) (g, i, ok) (d', pc(g := (if ok then Some (i + 1) else None)))"

definition all_returned :: "(nat \<Rightarrow> nat option) \<Rightarrow> bool" where
  "all_returned pc \<longleftrightarrow> (\<forall>g \<in> goroutines. pc g = None \<or> pc g = Some (rows_each + 1))"

definition insert_age :: "nat \<Rightarrow> int" where
  "insert_age i = int i"

definition update_age :: "nat \<Rightarrow> int" where
  "update_age i = int i + 1"

text \<open>The three functions: all workers start at row 1, and the call returns when all have.\<close>

definition bulk_run :: "'d row_db \<Rightarrow> string \<Rightarrow> (nat \<Rightarrow> int) \<Rightarrow> 'd \<Rightarrow> (nat \<times> nat \<times> bool) list \<Rightarrow> 'd \<times> (nat \<Rightarrow> nat option) \<Rightarrow> bool" where
  "bulk_run db query age d ls s \<longleftrightarrow> run (bulk_step db query age) (d, \<lambda>_. Some 1) ls s \<and> all_returned (snd s)"

definition insertIntoTable where
  "insertIntoTable db = bulk_run db insert_row insert_age"

definition benchmarkOnDuplicateKeyUpdate where
  "benchmarkOnDuplicateKeyUpdate db = bulk_run db upsert_row update_age"

definition benchmarkReplaceInto where
  "benchmarkReplaceInto db = bulk_run db replace_row update_age"

text \<open>The main function: a new handle, the inserts, and the replacements; a handle that cannot be opened panics.\<close>

definition upsert_newConn :: "'p sql_driver \<Rightarrow> string \<Rightarrow> 'p outcome" where
  "upsert_newConn sql dbName =
     (case Open sql ''mysql'' (''root@tcp(127.0.0.1:3306)/'' @ dbName @ ''?charset=utf8'') of
        Inl err \<Rightarrow> Panic
      | Inr db \<Rightarrow> Return db)"

definition upsert_main :: "'p sql_driver \<Rightarrow> ('p \<Rightarrow> 'd row_db) \<Rightarrow> 'd \<Rightarrow> 'd \<times> (nat \<Rightarrow> nat option) \<Rightarrow> bool" where
  "upsert_main sql db d t \<longleftrightarrow>
     (\<exists>conn ls s ls'. upsert_newConn sql ''upsert'' = Return conn \<and> insertIntoTable (db conn) d ls s \<and>
        benchmarkReplaceInto (db conn) (fst s) ls' t)"

section \<open>Upsert: what the database promises\<close>

text \<open>
  A statement that succeeds gives its row the age and leaves the other rows; one that fails may
  have done so or have done nothing.
\<close>

definition writes_row :: "'d row_db \<Rightarrow> ('d \<Rightarrow> string \<Rightarrow> int option) \<Rightarrow> string \<Rightarrow> bool" where
  "writes_row db ages query \<longleftrightarrow>
     (\<forall>d n a ok d'. db d query n a ok d' \<longrightarrow>
        ages d' = (ages d)(n \<mapsto> a) \<or> \<not> ok \<and> ages d' = ages d)"

lemma row_name_inject [simp]: "row_name g i = row_name h j \<longleftrightarrow> g = h \<and> i = j"
proof -
  have "\<not> is_digit (CHR ''_'')" by (simp add: is_digit_def)
  from dec_append_inject [OF this this] show ?thesis by (auto simp: row_name_def)
qed

text \<open>A worker's rows before its place are written; rows of no worker are as before.\<close>

definition bulk_inv :: "('d \<Rightarrow> string \<Rightarrow> int option) \<Rightarrow> (nat \<Rightarrow> int) \<Rightarrow> (string \<Rightarrow> int option) \<Rightarrow> 'd \<times> (nat \<Rightarrow> nat option) \<Rightarrow> bool" where
  "bulk_inv ages age before s \<longleftrightarrow>
     (\<forall>g k i. snd s g = Some k \<longrightarrow> 1 \<le> i \<longrightarrow> i < k \<longrightarrow> ages (fst s) (row_name g i) = Some (age i)) \<and>
     (\<forall>n. (\<forall>g i. g \<in> goroutines \<longrightarrow> 1 \<le> i \<longrightarrow> i \<le> rows_each \<longrightarrow> n \<noteq> row_name g i) \<longrightarrow> ages (fst s) n = before n) \<and>
     (\<forall>g k. snd s g = Some k \<longrightarrow> 1 \<le> k)"

lemma bulk_inv_step:
  assumes "bulk_step db query age s l t" and law: "writes_row db ages query" and inv: "bulk_inv ages age before s"
  shows "bulk_inv ages age before t"
  using assms(1)
proof cases
  case (exec g pc i d ok d')
  from law \<open>db d query (row_name g i) (age i) ok d'\<close> have w: "ages d' = (ages d)(row_name g i \<mapsto> age i) \<or> \<not> ok \<and> ages d' = ages d"
    unfolding writes_row_def by blast
  have i: "1 \<le> i" using inv exec by (simp add: bulk_inv_def)
  have rows: "ages d' (row_name h j) = Some (age j)"
    if "(pc(g := (if ok then Some (i + 1) else None))) h = Some k" "1 \<le> j" "j < k" for h k j
  proof (cases "h = g \<and> j = i")
    case True
    with that have "ok" by (auto split: if_splits)
    with w True show ?thesis by simp
  next
    case False
    with that have "pc h = Some (if h = g then i else k)" "j < (if h = g then i else k)"
      using exec by (auto split: if_splits)
    then have "ages d (row_name h j) = Some (age j)" using inv that(2) exec by (auto simp: bulk_inv_def)
    with w False show ?thesis by auto
  qed
  have others: "ages d' n = before n" if "\<forall>g i. g \<in> goroutines \<longrightarrow> 1 \<le> i \<longrightarrow> i \<le> rows_each \<longrightarrow> n \<noteq> row_name g i" for n
  proof -
    have "n \<noteq> row_name g i" using that exec i by blast
    moreover have "ages d n = before n" using inv that exec by (simp add: bulk_inv_def)
    ultimately show ?thesis using w by auto
  qed
  have "1 \<le> k" if "(pc(g := (if ok then Some (i + 1) else None))) h = Some k" for h k
    using that inv exec by (auto simp: bulk_inv_def split: if_splits)
  with rows others exec show ?thesis unfolding bulk_inv_def by simp
qed

interpretation bulk: inv_system "\<lambda>s. snd s = (\<lambda>_. Some 1) \<and> ages (fst s) = before" "bulk_step db query age"
    "\<lambda>s. writes_row db ages query \<longrightarrow> bulk_inv ages age before s" for ages before db query age
proof
  fix s :: "'a \<times> (nat \<Rightarrow> nat option)"
  assume "snd s = (\<lambda>_. Some 1) \<and> ages (fst s) = before"
  then show "writes_row db ages query \<longrightarrow> bulk_inv ages age before s" by (simp add: bulk_inv_def)
qed (blast intro: bulk_inv_step)

lemma bulk_run_rows:
  assumes "bulk_run db query age d ls s" and "writes_row db ages query"
  shows "bulk_inv ages age (ages d) s" and "all_returned (snd s)"
  using bulk.inv_reachable [of "(d, \<lambda>_. Some 1)" ages "ages d" db query age ls s] assms by (simp_all add: bulk_run_def)

text \<open>
  C20. However the hundred goroutines interleave, after the inserts and the replacements of
  \<^verbatim>\<open>main\<close> every row of a goroutine that met no error has the age \<open>i + 1\<close>, as if the writes had
  been made one after the other, and no other row of the table has changed.
\<close>

theorem upserts_converge:
  assumes "upsert_main sql db d t" and "\<forall>conn. writes_row (db conn) ages insert_row \<and> writes_row (db conn) ages replace_row"
  shows "(\<forall>g i. snd t g \<noteq> None \<longrightarrow> g \<in> goroutines \<longrightarrow> 1 \<le> i \<longrightarrow> i \<le> rows_each \<longrightarrow>
      ages (fst t) (row_name g i) = Some (int i + 1)) \<and>
    (\<forall>n. (\<forall>g i. g \<in> goroutines \<longrightarrow> 1 \<le> i \<longrightarrow> i \<le> rows_each \<longrightarrow> n \<noteq> row_name g i) \<longrightarrow> ages (fst t) n = ages d n)"
proof -
  obtain conn ls s ls' where runs: "bulk_run (db conn) insert_row insert_age d ls s" "bulk_run (db conn) replace_row update_age (fst s) ls' t"
    using assms(1) unfolding upsert_main_def insertIntoTable_def benchmarkReplaceInto_def by blast
  have w: "writes_row (db conn) ages insert_row" "writes_row (db conn) ages replace_row" using assms(2) by blast+
  have one: "bulk_inv ages insert_age (ages d) s" by (rule bulk_run_rows(1) [OF runs(1) w(1)])
  have two: "bulk_inv ages update_age (ages (fst s)) t" "all_returned (snd t)" by (rule bulk_run_rows [OF runs(2) w(2)])+
  show ?thesis
  proof (intro conjI allI impI)
    fix g i assume "snd t g \<noteq> None" "g \<in> goroutines" "1 \<le> i" "i \<le> rows_each"
    then have "snd t g = Some (rows_each + 1)" using two(2) by (auto simp: all_returned_def)
    with two(1) \<open>1 \<le> i\<close> \<open>i \<le> rows_each\<close> show "ages (fst t) (row_name g i) = Some (int i + 1)"
      by (simp add: bulk_inv_def update_age_def)
  next
    fix n assume n: "\<forall>g i. g \<in> goroutines \<longrightarrow> 1 \<le> i \<longrightarrow> i \<le> rows_each \<longrightarrow> n \<noteq> row_name g i"
    with one two(1) show "ages (fst t) n = ages d n" by (simp add: bulk_inv_def)
  qed
qed

section \<open>Upsert: a table in memory\<close>

text \<open>A table on which every write succeeds, and a complete run of the workers on it.\<close>

definition table_db :: "(string \<Rightarrow> int option) row_db" where
  "table_db d query n a ok d' \<longleftrightarrow> ok \<and> d' = d(n \<mapsto> a)"

lemma table_writes: "writes_row table_db (\<lambda>d. d) query"
  by (simp add: writes_row_def table_db_def)

lemma worker_completes:
  assumes "g \<in> goroutines"
  shows "pc g = Some i \<Longrightarrow> i \<le> rows_each + 1 \<Longrightarrow>
    \<exists>ls d'. run (bulk_step table_db query age) (d, pc) ls (d', pc(g := Some (rows_each + 1)))"
proof (induction "rows_each + 1 - i" arbitrary: i d pc)
  case 0
  then have "pc = pc(g := Some (rows_each + 1))" by auto
  then have "run (bulk_step table_db query age) (d, pc) [] (d, pc(g := Some (rows_each + 1)))" by simp
  then show ?case by blast
next
  case (Suc n)
  let ?d = "d(row_name g i \<mapsto> age i)"
  have step: "bulk_step table_db query age (d, pc) (g, i, True) (?d, pc(g := Some (i + 1)))"
    using bulk_step.exec [of g pc i table_db d query age True ?d] assms Suc by (simp add: table_db_def)
  have "n = rows_each + 1 - (i + 1)" "i + 1 \<le> rows_each + 1" using Suc.hyps(2) by simp_all
  then obtain ls d' where "run (bulk_step table_db query age) (?d, pc(g := Some (i + 1))) ls
      (d', (pc(g := Some (i + 1)))(g := Some (rows_each + 1)))"
    using Suc.hyps(1) [of "i + 1" "pc(g := Some (i + 1))" ?d] by auto
  then have "run (bulk_step table_db query age) (?d, pc(g := Some (i + 1))) ls (d', pc(g := Some (rows_each + 1)))" by simp
  from run_Cons [OF step this] show ?case by blast
qed

lemma workers_complete:
  assumes "finite G"
  shows "G \<subseteq> goroutines \<Longrightarrow> (\<forall>g \<in> G. pc g = Some 1) \<Longrightarrow>
    \<exists>ls d' pc'. run (bulk_step table_db query age) (d, pc) ls (d', pc') \<and>
      (\<forall>g \<in> G. pc' g = Some (rows_each + 1)) \<and> (\<forall>g. g \<notin> G \<longrightarrow> pc' g = pc g)"
  using assms
proof (induction arbitrary: d pc rule: finite_induct)
  case empty
  have "run (bulk_step table_db query age) (d, pc) [] (d, pc)" by simp
  then show ?case by blast
next
  case (insert g G)
  obtain ls1 d1 where 1: "run (bulk_step table_db query age) (d, pc) ls1 (d1, pc(g := Some (rows_each + 1)))"
    using worker_completes [of g pc 1 query age d] insert.prems by (auto simp: rows_each_def)
  have sub: "G \<subseteq> goroutines" "\<forall>h \<in> G. (pc(g := Some (rows_each + 1))) h = Some 1"
    using insert.prems insert.hyps(2) by auto
  obtain ls2 d' pc' where 2: "run (bulk_step table_db query age) (d1, pc(g := Some (rows_each + 1))) ls2 (d', pc')"
    "\<forall>h \<in> G. pc' h = Some (rows_each + 1)" "\<forall>h. h \<notin> G \<longrightarrow> pc' h = (pc(g := Some (rows_each + 1))) h"
    using insert.IH [of "pc(g := Some (rows_each + 1))" d1] sub by blast
  have "\<forall>h \<in> insert g G. pc' h = Some (rows_each + 1)" "\<forall>h. h \<notin> insert g G \<longrightarrow> pc' h = pc h"
    using 2(2,3) insert.hyps(2) by auto
  with run_trans [OF 1 2(1)] show ?case by blast
qed

lemma bulk_completes: "\<exists>ls d' pc'. bulk_run table_db query age d ls (d', pc') \<and> (\<forall>g \<in> goroutines. pc' g = Some (rows_each + 1))"
proof -
  have "finite goroutines" by (simp add: goroutines_def)
  from workers_complete [OF this, of "\<lambda>_. Some 1" query age d] show ?thesis
    unfolding bulk_run_def all_returned_def by fastforce
qed

theorem upserts_converge_witness:
  "\<exists>t. upsert_main \<lparr>Open = (\<lambda>dr n. Inr ()), SetMaxOpenConns = (\<lambda>n p. p), SetMaxIdleConns = (\<lambda>n p. p), Ping = (\<lambda>p. None)\<rparr>
     (\<lambda>_. table_db) Map.empty t \<and> fst t (row_name 3 7) = Some 8"
proof -
  let ?sql = "\<lparr>Open = (\<lambda>dr n. Inr ()), SetMaxOpenConns = (\<lambda>n p. p), SetMaxIdleConns = (\<lambda>n p. p), Ping = (\<lambda>p. None)\<rparr>"
  obtain ls d pc where i: "insertIntoTable table_db Map.empty ls (d, pc)"
    unfolding insertIntoTable_def using bulk_completes by blast
  obtain ls' e qc where r: "benchmarkReplaceInto table_db d ls' (e, qc)" and all: "\<forall>g \<in> goroutines. qc g = Some (rows_each + 1)"
    unfolding benchmarkReplaceInto_def using bulk_completes by blast
  have main: "upsert_main ?sql (\<lambda>_. table_db) Map.empty (e, qc)"
    unfolding upsert_main_def using i r by (intro exI [of _ "()"] exI [of _ ls] exI [of _ "(d, pc)"] exI [of _ ls']) (simp add: upsert_newConn_def)
  have 3: "(3 :: nat) \<in> goroutines" by (simp add: goroutines_def)
  have "fst (e, qc) (row_name 3 7) = Some (int 7 + 1)"
    using upserts_converge [OF main, of "\<lambda>d. d"] table_writes all 3 by (simp add: rows_each_def)
  with main show ?thesis by (intro exI [of _ "(e, qc)"]) simp
qed

section \<open>Ids: the loops\<close>

text \<open>\<^verbatim>\<open>hex.EncodeToString\<close>: two digits for every byte.\<close>

definition hex_digit :: "nat \<Rightarrow> char" where
  "hex_digit n = ''0123456789abcdef'' ! n"

definition EncodeToString :: "bytes \<Rightarrow> string" where
  "EncodeToString bs = concat (map (\<lambda>b. [hex_digit (unat b div 16), hex_digit (unat b mod 16)]) bs)"

definition insert_uuid :: string where
  "insert_uuid = ''INSERT INTO uuid_demo(id, age) VALUES(?, ?);''"

definition insert_int :: string where
  "insert_int = ''INSERT INTO int_demo(id, age) VALUES(?, ?);''"

definition entries :: nat where
  "entries = 1000000"

text \<open>
  The loops, for the values \<^verbatim>\<open>uuid.New\<close> and \<^verbatim>\<open>rand.Intn\<close> return. The flag tells that the loop ran
  to its end; an error ends the process (\<^verbatim>\<open>log.Fatalf\<close>).
\<close>

type_synonym ('d, 'k) insert_db = "'d \<Rightarrow> string \<Rightarrow> 'k \<Rightarrow> nat \<Rightarrow> go_error option \<times> 'd"

fun uuid_loop :: "('d, string) insert_db \<Rightarrow> (nat \<Rightarrow> bytes) \<Rightarrow> (nat \<Rightarrow> nat) \<Rightarrow> nat \<Rightarrow> nat \<Rightarrow> 'd \<Rightarrow> bool \<times> 'd" where
  "uuid_loop exec uuid rand i 0 d = (True, d)"
| "uuid_loop exec uuid rand i (Suc n) d =
     (let hexString = EncodeToString (uuid i); age = rand i
      in case exec d insert_uuid hexString age of
           (Some err, d') \<Rightarrow> (False, d')
         | (None, d') \<Rightarrow> uuid_loop exec uuid rand (Suc i) n d')"

definition insertEntriesIntoUUIDBasedTable where
  "insertEntriesIntoUUIDBasedTable exec uuid rand d = uuid_loop exec uuid rand 0 entries d"

fun int_loop :: "('d, nat) insert_db \<Rightarrow> (nat \<Rightarrow> nat) \<Rightarrow> nat \<Rightarrow> nat \<Rightarrow> 'd \<Rightarrow> bool \<times> 'd" where
  "int_loop exec rand i 0 d = (True, d)"
| "int_loop exec rand i (Suc n) d =
     (let age = rand i
      in case exec d insert_int i age of
           (Some err, d') \<Rightarrow> (False, d')
         | (None, d') \<Rightarrow> int_loop exec rand (Suc i) n d')"

definition insertEntriesIntoIntegerTable where
  "insertEntriesIntoIntegerTable exec rand d = int_loop exec rand 0 entries d"

text \<open>The pool, opened before \<^verbatim>\<open>main\<close>, and the main function; nothing is written when it cannot be opened.\<close>

definition uuid_init :: "'p sql_driver \<Rightarrow> 'p process" where
  "uuid_init sql =
     (case Open sql ''mysql'' ''root@tcp(127.0.0.1:3306)/id_generator?charset=utf8'' of
        Inl err \<Rightarrow> Fatal
      | Inr dbPool \<Rightarrow>
          (let dbPool = SetMaxIdleConns sql 10 (SetMaxOpenConns sql 20 dbPool)
           in case Ping sql dbPool of Some err \<Rightarrow> Fatal | None \<Rightarrow> Continue dbPool))"

definition uuid_main :: "'p sql_driver \<Rightarrow> ('p \<Rightarrow> ('d, string) insert_db) \<Rightarrow> (nat \<Rightarrow> bytes) \<Rightarrow> (nat \<Rightarrow> nat) \<Rightarrow> 'd \<Rightarrow> bool \<times> 'd" where
  "uuid_main sql exec uuid rand d =
     (case uuid_init sql of
        Fatal \<Rightarrow> (False, d)
      | Continue dbPool \<Rightarrow> insertEntriesIntoUUIDBasedTable (exec dbPool) uuid rand d)"

section \<open>Ids: what is in the tables\<close>

text \<open>The encoding can be read back, so different ids have different keys.\<close>

definition hex_value :: "char \<Rightarrow> nat" where
  "hex_value c = (if is_digit c then of_char c - 48 else of_char c - 87)"

fun DecodeString :: "string \<Rightarrow> bytes" where
  "DecodeString (a # b # s) = of_nat (16 * hex_value a + hex_value b) # DecodeString s"
| "DecodeString _ = []"

lemma hex_value_digit: "n < 16 \<Longrightarrow> hex_value (hex_digit n) = n"
proof -
  assume "n < 16"
  then have "n \<in> {0, 1, 2, 3, 4, 5, 6, 7, 8, 9, 10, 11, 12, 13, 14, 15}" by (simp, arith)
  then show ?thesis by (auto simp: hex_value_def hex_digit_def is_digit_def)
qed

lemma decode_encode: "DecodeString (EncodeToString bs) = bs"
proof (induction bs)
  case (Cons b bs)
  have "unat b < 256" using unsigned_less [where ?'a = nat, of b] by simp
  then have "unat b div 16 < 16" "unat b mod 16 < 16" by auto
  then have "16 * hex_value (hex_digit (unat b div 16)) + hex_value (hex_digit (unat b mod 16)) = unat b"
    by (simp add: hex_value_digit)
  with Cons show ?case by (simp add: EncodeToString_def)
qed (simp add: EncodeToString_def)

text \<open>An insert adds its row, or fails and changes nothing, as when the key is there.\<close>

definition inserts :: "('d, 'k) insert_db \<Rightarrow> ('d \<Rightarrow> 'k \<Rightarrow> nat option) \<Rightarrow> string \<Rightarrow> bool" where
  "inserts exec rows stmt \<longleftrightarrow>
     (\<forall>d k a. case exec d stmt k a of
        (None, d') \<Rightarrow> rows d k = None \<and> rows d' = (rows d)(k \<mapsto> a)
      | (Some e, d') \<Rightarrow> rows d' = rows d)"

lemma insertsD:
  assumes "inserts exec rows stmt"
  shows "exec d stmt k a = (None, d') \<Longrightarrow> rows d k = None \<and> rows d' = (rows d)(k \<mapsto> a)"
    and "exec d stmt k a = (Some e, d') \<Longrightarrow> rows d' = rows d"
  using assms [unfolded inserts_def, rule_format, of d k a] by simp_all

text \<open>
  The rows after a loop: those of the first iterations, all of them when the loop ran to its
  end, and no key twice.
\<close>

lemma uuid_loop_rows:
  assumes "inserts exec rows insert_uuid"
  shows "uuid_loop exec uuid rand i n d = (ok, d') \<Longrightarrow>
    \<exists>j. i \<le> j \<and> j \<le> i + n \<and> (ok \<longrightarrow> j = i + n) \<and> inj_on uuid {i..<j} \<and>
      dom (rows d') = dom (rows d) \<union> (\<lambda>m. EncodeToString (uuid m)) ` {i..<j} \<and>
      (\<lambda>m. EncodeToString (uuid m)) ` {i..<j} \<inter> dom (rows d) = {}"
proof (induction n arbitrary: i d)
  case 0
  then show ?case by (intro exI [of _ i]) simp
next
  case (Suc n)
  let ?k = "\<lambda>m. EncodeToString (uuid m)"
  obtain r d1 where ex: "exec d insert_uuid (?k i) (rand i) = (r, d1)" by force
  show ?case
  proof (cases r)
    case (Some e)
    with ex Suc.prems insertsD(2) [OF assms, of d "?k i" "rand i" e d1] show ?thesis
      by (intro exI [of _ i]) simp
  next
    case None
    with insertsD(1) [OF assms] ex have row: "rows d (?k i) = None" "rows d1 = (rows d)(?k i \<mapsto> rand i)" by simp_all
    from None ex Suc.prems have "uuid_loop exec uuid rand (Suc i) n d1 = (ok, d')" by simp
    from Suc.IH [OF this] obtain j where j: "Suc i \<le> j" "j \<le> Suc i + n" "ok \<longrightarrow> j = Suc i + n" "inj_on uuid {Suc i..<j}"
      "dom (rows d') = dom (rows d1) \<union> ?k ` {Suc i..<j}" "?k ` {Suc i..<j} \<inter> dom (rows d1) = {}" by blast
    have set: "{i..<j} = insert i {Suc i..<j}" using j(1) by auto
    have "uuid i \<notin> uuid ` {Suc i..<j}" using j(6) row(2) by auto
    then have "inj_on uuid {i..<j}" using j(4) set by auto
    moreover have "?k ` {i..<j} \<inter> dom (rows d) = {}" using set j(6) row by auto
    moreover have "dom (rows d') = dom (rows d) \<union> ?k ` {i..<j}" using j(5) row(2) set by auto
    ultimately show ?thesis using j(1-3) by (intro exI [of _ j]) auto
  qed
qed

lemma int_loop_rows:
  assumes "inserts exec rows insert_int"
  shows "int_loop exec rand i n d = (ok, d') \<Longrightarrow>
    \<exists>j. i \<le> j \<and> j \<le> i + n \<and> (ok \<longrightarrow> j = i + n) \<and> dom (rows d') = dom (rows d) \<union> {i..<j} \<and> {i..<j} \<inter> dom (rows d) = {}"
proof (induction n arbitrary: i d)
  case 0
  then show ?case by (intro exI [of _ i]) simp
next
  case (Suc n)
  obtain r d1 where ex: "exec d insert_int i (rand i) = (r, d1)" by force
  show ?case
  proof (cases r)
    case (Some e)
    with ex Suc.prems insertsD(2) [OF assms, of d i "rand i" e d1] show ?thesis
      by (intro exI [of _ i]) simp
  next
    case None
    with insertsD(1) [OF assms] ex have row: "rows d i = None" "rows d1 = (rows d)(i \<mapsto> rand i)" by simp_all
    from None ex Suc.prems have "int_loop exec rand (Suc i) n d1 = (ok, d')" by simp
    from Suc.IH [OF this] obtain j where j: "Suc i \<le> j" "j \<le> Suc i + n" "ok \<longrightarrow> j = Suc i + n"
      "dom (rows d') = dom (rows d1) \<union> {Suc i..<j}" "{Suc i..<j} \<inter> dom (rows d1) = {}" by blast
    have set: "{i..<j} = insert i {Suc i..<j}" using j(1) by auto
    show ?thesis using j row set by (intro exI [of _ j]) auto
  qed
qed

text \<open>
  The table of consecutive ids has a million new rows after the function returns; when an insert
  fails the process ends, and the ids before it are there.
\<close>

lemma integer_table_filled:
  assumes "insertEntriesIntoIntegerTable exec rand d = (True, d')" and "inserts exec rows insert_int"
  shows "dom (rows d') = dom (rows d) \<union> {0..<entries} \<and> {0..<entries} \<inter> dom (rows d) = {}"
  using int_loop_rows [OF assms(2) assms(1) [unfolded insertEntriesIntoIntegerTable_def]] by auto

text \<open>The function returns for the random ids only when no id occurred twice.\<close>

lemma uuid_table_filled:
  assumes "insertEntriesIntoUUIDBasedTable exec uuid rand d = (True, d')" and "inserts exec rows insert_uuid"
  shows "inj_on uuid {0..<entries} \<and> dom (rows d') = dom (rows d) \<union> (\<lambda>m. EncodeToString (uuid m)) ` {0..<entries}"
  using uuid_loop_rows [OF assms(2) assms(1) [unfolded insertEntriesIntoUUIDBasedTable_def]] by auto

lemma uuid_main_fills:
  assumes "uuid_main sql exec uuid rand d = (True, d')" and "\<forall>p. inserts (exec p) rows insert_uuid"
  shows "inj_on uuid {0..<entries} \<and> dom (rows d') = dom (rows d) \<union> (\<lambda>m. EncodeToString (uuid m)) ` {0..<entries}"
  using assms uuid_table_filled by (fastforce simp: uuid_main_def split: process.splits)


end
