(* ===== verification/Tcp_Servers.thy ===== *)
theory Tcp_Servers
  imports Go_Strings
begin

text \<open>
  The line servers of src/tcp_servers: one that handles a connection at a time
  (single_threaded.go) and one with a goroutine per connection and a graceful stop
  (multi_threaded.go). A connection is what the client sends until the stream ends; a handler
  is the sequence of its writes. The start, the handlers and the stop of the second server
  interleave as a transition system.
\<close>

section \<open>Reading lines\<close>

abbreviation newline :: char where
  "newline \<equiv> CHR 0x0A"

text \<open>
  \<^verbatim>\<open>reader.ReadString\<close> on the bytes still to come: a line with its newline and the rest, or
  \<open>None\<close> when the stream ends (or breaks) before a newline; the partial line is returned with
  an error, and both servers drop it.
\<close>

definition ReadString :: "string \<Rightarrow> (string \<times> string) option" where
  "ReadString s =
     (if newline \<in> set s
      then Some (takeWhile (\<lambda>c. c \<noteq> newline) s @ [newline], tl (dropWhile (\<lambda>c. c \<noteq> newline) s))
      else None)"

lemma ReadString_append: "newline \<notin> set l \<Longrightarrow> ReadString (l @ newline # s) = Some (l @ [newline], s)"
  by (simp add: ReadString_def takeWhile_append dropWhile_append)

lemma ReadString_SomeD:
  assumes "ReadString s = Some (line, rest)"
  shows "s = line @ rest" and "\<exists>l. line = l @ [newline] \<and> newline \<notin> set l" and "length rest < length s"
proof -
  have nl: "newline \<in> set s" using assms by (simp add: ReadString_def split: if_splits)
  then obtain l r where s: "s = l @ newline # r" "newline \<notin> set l" by (meson split_list_first)
  with assms ReadString_append [of l r] have "line = l @ [newline]" "rest = r" by simp_all
  with s show "s = line @ rest" "\<exists>l. line = l @ [newline] \<and> newline \<notin> set l" "length rest < length s" by simp_all
qed

section \<open>One connection at a time\<close>

definition echo :: "string \<Rightarrow> string" where
  "echo message = ''Echo: '' @ message @ [newline]"

text \<open>The loop of \<^verbatim>\<open>handleConnection\<close>: its writes, whose errors it ignores.\<close>

function handleConnection :: "string \<Rightarrow> string list" where
  "handleConnection inp =
     (case ReadString inp of
        None \<Rightarrow> []
      | Some (line, rest) \<Rightarrow>
          (let message = TrimSpace line
           in echo message # (if message = ''QUIT'' then [] else handleConnection rest)))"
  by pat_completeness auto
termination
  by (relation "measure length") (auto dest: ReadString_SomeD(3))

declare handleConnection.simps [simp del]

text \<open>The accept loop of \<^verbatim>\<open>Listen\<close> over the results of \<^verbatim>\<open>Accept\<close>: the writes of each connection in turn.\<close>

fun Listen_loop :: "string result list \<Rightarrow> string list list" where
  "Listen_loop [] = []"
| "Listen_loop (Inl err # accepts) = Listen_loop accepts"
| "Listen_loop (Inr conn # accepts) = handleConnection conn # Listen_loop accepts"

section \<open>A goroutine per connection: the handler\<close>

text \<open>The loop of the handler: its writes, the \<open>n\<close>-th of which may fail and end it.\<close>

function serve_lines :: "(nat \<Rightarrow> bool) \<Rightarrow> nat \<Rightarrow> string \<Rightarrow> string list" where
  "serve_lines fails n inp =
     (case ReadString inp of
        None \<Rightarrow> []
      | Some (line, rest) \<Rightarrow>
          (if TrimSpace line = ''exit'' then []
           else line # (if fails n then [] else serve_lines fails (Suc n) rest)))"
  by pat_completeness auto
termination
  by (relation "measure (length \<circ> snd \<circ> snd)") (auto dest: ReadString_SomeD(3))

declare serve_lines.simps [simp del]

section \<open>What the handlers answer\<close>

text \<open>The complete lines of a stream, and those up to the first that ends the conversation.\<close>

definition complete_lines :: "string \<Rightarrow> string list" where
  "complete_lines s = map (\<lambda>l. l @ [newline]) (butlast (Split s newline))"

fun up_to :: "('a \<Rightarrow> bool) \<Rightarrow> 'a list \<Rightarrow> 'a list" where
  "up_to P [] = []"
| "up_to P (x # xs) = x # (if P x then [] else up_to P xs)"

lemma complete_lines_Nil: "newline \<notin> set s \<Longrightarrow> complete_lines s = []"
  using Split_from_append [of newline s "[]" "[]"] by (simp add: complete_lines_def Split_def)

lemma Split_from_ne: "Split_from p s c \<noteq> []"
  by (induction p s c rule: Split_from.induct) simp_all

lemma complete_lines_Cons:
  assumes "newline \<notin> set l"
  shows "complete_lines (l @ newline # s) = (l @ [newline]) # complete_lines s"
  using Split_from_append [OF assms, of "[]" "newline # s"] Split_from_ne [of "[]" s newline]
  by (simp add: complete_lines_def Split_def)

text \<open>The way the lines of a stream are read off, for proofs about the handlers.\<close>

lemma lines_induct [case_names none line]:
  assumes "\<And>s. newline \<notin> set s \<Longrightarrow> ReadString s = None \<Longrightarrow> complete_lines s = [] \<Longrightarrow> P s"
    and "\<And>l s. newline \<notin> set l \<Longrightarrow> ReadString (l @ newline # s) = Some (l @ [newline], s) \<Longrightarrow>
      complete_lines (l @ newline # s) = (l @ [newline]) # complete_lines s \<Longrightarrow> P s \<Longrightarrow> P (l @ newline # s)"
  shows "P s"
proof (induction s rule: length_induct)
  case (1 s)
  show ?case
  proof (cases "newline \<in> set s")
    case False
    then show ?thesis by (intro assms(1)) (simp_all add: ReadString_def complete_lines_Nil)
  next
    case True
    then obtain l r where s: "s = l @ newline # r" "newline \<notin> set l" by (meson split_list_first)
    with 1 have "P r" by simp
    with s show ?thesis by (auto intro!: assms(2) ReadString_append complete_lines_Cons)
  qed
qed

text \<open>
  C37. The single threaded server answers exactly the complete lines up to the first \<open>QUIT\<close>, each
  once and in order, with the trimmed line; a line without its newline is not answered.
\<close>

theorem handleConnection_lines:
  "handleConnection inp =
     map (\<lambda>line. echo (TrimSpace line)) (up_to (\<lambda>line. TrimSpace line = ''QUIT'') (complete_lines inp))"
proof (induction inp rule: lines_induct)
  case (none s)
  then show ?case by (simp add: handleConnection.simps [of s])
next
  case (line l s)
  then show ?case by (simp add: handleConnection.simps [of "l @ newline # s"] Let_def)
qed

text \<open>
  The concurrent server's handler sends the complete lines before the first \<open>exit\<close> back as
  they came, up to the first write that fails: what it has written is always a prefix of what
  it has read, and all of these lines when no write fails.
\<close>

theorem serve_lines_echo:
  "(\<exists>k. serve_lines fails n inp = take k (takeWhile (\<lambda>line. TrimSpace line \<noteq> ''exit'') (complete_lines inp))) \<and>
   (\<exists>rest. inp = concat (serve_lines fails n inp) @ rest) \<and>
   ((\<forall>m. \<not> fails m) \<longrightarrow>
     serve_lines fails n inp = takeWhile (\<lambda>line. TrimSpace line \<noteq> ''exit'') (complete_lines inp))"
proof (induction inp arbitrary: n rule: lines_induct)
  case (none s)
  then show ?case by (simp add: serve_lines.simps [of _ n s])
next
  case (line l s)
  note eq = serve_lines.simps [of _ n "l @ newline # s"] line(2,3)
  from line(4) [of "Suc n"] obtain k rest
    where k: "serve_lines fails (Suc n) s = take k (takeWhile (\<lambda>line. TrimSpace line \<noteq> ''exit'') (complete_lines s))"
    and rest: "s = concat (serve_lines fails (Suc n) s) @ rest"
    and all: "(\<forall>m. \<not> fails m) \<longrightarrow> serve_lines fails (Suc n) s = takeWhile (\<lambda>line. TrimSpace line \<noteq> ''exit'') (complete_lines s)"
    by blast
  show ?case
  proof (cases "TrimSpace (l @ [newline]) = ''exit''")
    case True
    then show ?thesis by (simp add: eq)
  next
    case False
    have "\<exists>k'. serve_lines fails n (l @ newline # s) =
        take k' (takeWhile (\<lambda>line. TrimSpace line \<noteq> ''exit'') (complete_lines (l @ newline # s)))"
      using False k by (cases "fails n") (auto simp: eq intro: exI [of _ "Suc k"] exI [of _ "Suc 0"])
    moreover have "\<exists>rest. l @ newline # s = concat (serve_lines fails n (l @ newline # s)) @ rest"
      using False rest by (cases "fails n") (auto simp: eq)
    moreover have "serve_lines fails n (l @ newline # s) =
        takeWhile (\<lambda>line. TrimSpace line \<noteq> ''exit'') (complete_lines (l @ newline # s))" if a: "\<forall>m. \<not> fails m"
    proof -
      from a have "\<not> fails n" by blast
      with mp [OF all a] False show ?thesis by (simp add: eq)
    qed
    ultimately show ?thesis by blast
  qed
qed

theorem serve_lines_echo_witness:
  "serve_lines (\<lambda>_. False) 0 (''hi'' @ [newline] @ ''exit'' @ [newline]) = [''hi'' @ [newline]]"
proof -
  have "serve_lines (\<lambda>_. False) 0 (''hi'' @ [newline] @ ''exit'' @ [newline]) =
      takeWhile (\<lambda>line. TrimSpace line \<noteq> ''exit'') (complete_lines (''hi'' @ [newline] @ ''exit'' @ [newline]))"
    using serve_lines_echo [of "\<lambda>_. False" 0] by blast
  also have "\<dots> = [''hi'' @ [newline]]" by code_simp
  finally show ?thesis .
qed

section \<open>A goroutine per connection: start and stop\<close>

type_synonym conn = nat

text \<open>
  The places of the goroutines: \<^verbatim>\<open>Start\<close> before each of its operations, a handler before its
  reads and before each of its deferred calls, and \<^verbatim>\<open>Stop\<close>, which holds the mutex while it
  closes the connections of the map one by one.
\<close>

datatype start_pc = SListen | SAccept | STrack conn | SAdd conn | SGo conn | SReturned

datatype handler_pc = HRead | HClose | HUntrack | HDone | HEnd

datatype stop_pc = PIdle | PLock | PClosing "conn set" | PWait | PStopped

datatype listener = NoListener | Listening | ListenerClosed

record server =
  ln :: listener
  wg :: nat
  srv_conns :: "conn set"
  closed :: "conn set"
  start :: start_pc
  handlers :: "conn \<Rightarrow> handler_pc option"
  stop :: stop_pc

definition NewServer :: server where
  "NewServer = \<lparr>ln = NoListener, wg = 0, srv_conns = {}, closed = {}, start = SListen, handlers = (\<lambda>_. None), stop = PIdle\<rparr>"

definition mu_free :: "server \<Rightarrow> bool" where
  "mu_free s \<longleftrightarrow> (\<forall>C. stop s \<noteq> PClosing C)"

definition trackConn :: "conn \<Rightarrow> bool \<Rightarrow> server \<Rightarrow> server" where
  "trackConn c add s = s\<lparr>srv_conns := (if add then insert c (srv_conns s) else srv_conns s - {c})\<rparr>"

text \<open>
  The atomic steps. \<^verbatim>\<open>Accept\<close> returns a new connection while the listener is open, and may fail
  then too; once the listener is closed it returns \<^verbatim>\<open>ErrClosed\<close>. A handler goes on reading, or
  stops at the end of the stream, at a read or write error, or at an \<^verbatim>\<open>exit\<close>.
\<close>

datatype srv_event = Internal | StopReturns

inductive srv_step :: "server \<Rightarrow> srv_event \<Rightarrow> server \<Rightarrow> bool" where
  listen: "start s = SListen \<Longrightarrow> srv_step s Internal (s\<lparr>ln := Listening, start := SAccept\<rparr>)"
| listen_error: "start s = SListen \<Longrightarrow> srv_step s Internal (s\<lparr>start := SReturned\<rparr>)"
| accept: "start s = SAccept \<Longrightarrow> ln s = Listening \<Longrightarrow> handlers s c = None \<Longrightarrow>
    srv_step s Internal (s\<lparr>start := STrack c\<rparr>)"
| accept_error: "start s = SAccept \<Longrightarrow> ln s = Listening \<Longrightarrow> srv_step s Internal s"
| accept_closed: "start s = SAccept \<Longrightarrow> ln s = ListenerClosed \<Longrightarrow> srv_step s Internal (s\<lparr>start := SReturned\<rparr>)"
| track: "start s = STrack c \<Longrightarrow> mu_free s \<Longrightarrow> srv_step s Internal ((trackConn c True s)\<lparr>start := SAdd c\<rparr>)"
| add: "start s = SAdd c \<Longrightarrow> srv_step s Internal (s\<lparr>wg := wg s + 1, start := SGo c\<rparr>)"
| go: "start s = SGo c \<Longrightarrow> srv_step s Internal (s\<lparr>handlers := (handlers s)(c \<mapsto> HRead), start := SAccept\<rparr>)"
| echo_line: "handlers s c = Some HRead \<Longrightarrow> c \<notin> closed s \<Longrightarrow> srv_step s Internal s"
| read_ends: "handlers s c = Some HRead \<Longrightarrow> srv_step s Internal (s\<lparr>handlers := (handlers s)(c \<mapsto> HClose)\<rparr>)"
| close: "handlers s c = Some HClose \<Longrightarrow>
    srv_step s Internal (s\<lparr>closed := insert c (closed s), handlers := (handlers s)(c \<mapsto> HUntrack)\<rparr>)"
| untrack: "handlers s c = Some HUntrack \<Longrightarrow> mu_free s \<Longrightarrow>
    srv_step s Internal ((trackConn c False s)\<lparr>handlers := (handlers s)(c \<mapsto> HDone)\<rparr>)"
| finish: "handlers s c = Some HDone \<Longrightarrow>
    srv_step s Internal (s\<lparr>wg := wg s - 1, handlers := (handlers s)(c \<mapsto> HEnd)\<rparr>)"
| stop_listener: "stop s = PIdle \<Longrightarrow>
    srv_step s Internal (s\<lparr>ln := (if ln s = Listening then ListenerClosed else ln s), stop := PLock\<rparr>)"
| stop_lock: "stop s = PLock \<Longrightarrow> srv_step s Internal (s\<lparr>stop := PClosing (srv_conns s)\<rparr>)"
| stop_close: "stop s = PClosing C \<Longrightarrow> c \<in> C \<Longrightarrow>
    srv_step s Internal (s\<lparr>closed := insert c (closed s), stop := PClosing (C - {c})\<rparr>)"
| stop_unlock: "stop s = PClosing {} \<Longrightarrow> srv_step s Internal (s\<lparr>stop := PWait\<rparr>)"
| stop_wait: "stop s = PWait \<Longrightarrow> wg s = 0 \<Longrightarrow> srv_step s StopReturns (s\<lparr>stop := PStopped\<rparr>)"

section \<open>What a stop achieves\<close>

definition running :: "server \<Rightarrow> conn set" where
  "running s = {c. \<exists>h. handlers s c = Some h \<and> h \<noteq> HEnd}"

definition tracked :: "server \<Rightarrow> conn set" where
  "tracked s = {c. handlers s c \<in> {Some HRead, Some HClose, Some HUntrack}} \<union>
     {c. start s = SAdd c \<or> start s = SGo c}"

text \<open>
  The invariant: the wait group counts the handlers that have not ended and the one about to be
  started; the map holds the connections between their two calls of \<^verbatim>\<open>trackConn\<close>; and a handler
  past its close has closed its connection.
\<close>

definition srv_inv :: "server \<Rightarrow> bool" where
  "srv_inv s \<longleftrightarrow>
     finite (running s) \<and> wg s = card (running s) + (if \<exists>c. start s = SGo c then 1 else 0) \<and>
     srv_conns s = tracked s \<and>
     (\<forall>c. start s \<in> {STrack c, SAdd c, SGo c} \<longrightarrow> handlers s c = None) \<and>
     (\<forall>c. handlers s c \<in> {Some HUntrack, Some HDone, Some HEnd} \<longrightarrow> c \<in> closed s)"

text \<open>The running handlers after one of them moved on.\<close>

lemma running_upd:
  "handlers t = (handlers s)(c \<mapsto> h) \<Longrightarrow> running t = (if h = HEnd then running s - {c} else insert c (running s))"
  by (auto simp: running_def)

lemma running_same: "handlers t = handlers s \<Longrightarrow> running t = running s"
  by (simp add: running_def)

lemma runningI: "handlers s c = Some h \<Longrightarrow> h \<noteq> HEnd \<Longrightarrow> c \<in> running s"
  by (auto simp: running_def)

lemma srv_inv_init: "srv_inv NewServer"
  by (simp add: srv_inv_def NewServer_def running_def tracked_def)

text \<open>A handler that moves on without ending, with the map and the closed connections it leaves.\<close>

lemma srv_inv_move:
  assumes "srv_inv s" and "handlers s c = Some h" and "h \<noteq> HEnd"
    and "handlers t = (handlers s)(c \<mapsto> h')" and "wg t = (if h' = HEnd then wg s - 1 else wg s)"
    and "start t = start s" and "srv_conns t = (if h' \<in> {HDone, HEnd} then srv_conns s - {c} else srv_conns s)"
    and "h' \<in> {HDone, HEnd} \<or> h \<in> {HRead, HClose, HUntrack}"
    and "closed t = closed s \<or> closed t = insert c (closed s)" and "h' \<in> {HUntrack, HDone, HEnd} \<longrightarrow> c \<in> closed t"
  shows "srv_inv t"
proof -
  have c: "c \<in> running s" by (rule runningI [OF assms(2,3)])
  have fin: "finite (running s)" and w: "wg s = card (running s) + (if \<exists>c. start s = SGo c then 1 else 0)"
    and conns: "srv_conns s = tracked s"
    using assms(1) by (simp_all add: srv_inv_def)
  have r: "running t = (if h' = HEnd then running s - {c} else running s)"
    using running_upd [OF assms(4)] c by (simp add: insert_absorb)
  have "0 < card (running s)" using fin c card_gt_0_iff by blast
  then have "wg t = card (running t) + (if \<exists>c. start t = SGo c then 1 else 0)"
    using w c unfolding assms(5,6) r by (cases "h' = HEnd") (simp_all add: card_Diff_singleton [OF c])
  moreover have "start s \<noteq> SAdd c \<and> start s \<noteq> SGo c" using assms(1,2) by (auto simp: srv_inv_def)
  then have "srv_conns t = tracked t"
    using conns assms(2,4,6,7,8) by (cases h') (auto simp: tracked_def)
  moreover have "\<forall>d. start t \<in> {STrack d, SAdd d, SGo d} \<longrightarrow> handlers t d = None"
    using assms(1,2,4,6) by (auto simp: srv_inv_def)
  moreover have "\<forall>d. handlers t d \<in> {Some HUntrack, Some HDone, Some HEnd} \<longrightarrow> d \<in> closed t"
    using assms(1,4,9,10) by (auto simp: srv_inv_def split: if_splits)
  ultimately show ?thesis unfolding srv_inv_def using fin r by auto
qed

lemma srv_inv_step:
  assumes "srv_step s l t" and "srv_inv s"
  shows "srv_inv t"
  using assms
proof (induction rule: srv_step.induct)
  case (track s c)
  then show ?case by (auto simp: srv_inv_def running_def tracked_def trackConn_def)
next
  case (add s c)
  then show ?case by (auto simp: srv_inv_def running_def tracked_def)
next
  case (go s c)
  then have none: "handlers s c = None" by (auto simp: srv_inv_def)
  then have "c \<notin> running s" by (simp add: running_def)
  moreover have "running (s\<lparr>handlers := (handlers s)(c \<mapsto> HRead), start := SAccept\<rparr>) = insert c (running s)"
    using running_upd [of "s\<lparr>handlers := (handlers s)(c \<mapsto> HRead), start := SAccept\<rparr>" s c HRead] by simp
  ultimately show ?case using go none by (auto simp: srv_inv_def tracked_def)
next
  case (read_ends s c)
  show ?case by (rule srv_inv_move [of s c HRead _ HClose]) (use read_ends in simp_all)
next
  case (close s c)
  show ?case by (rule srv_inv_move [of s c HClose _ HUntrack]) (use close in simp_all)
next
  case (untrack s c)
  then have "c \<in> closed s" by (simp add: srv_inv_def)
  then show ?case by (intro srv_inv_move [OF untrack(3,1), of _ HDone]) (simp_all add: trackConn_def)
next
  case (finish s c)
  then have "c \<in> closed s" "c \<notin> srv_conns s" by (auto simp: srv_inv_def tracked_def)
  then show ?case by (intro srv_inv_move [OF finish(2,1), of _ HEnd]) simp_all
qed (auto simp: srv_inv_def running_def tracked_def)

interpretation tcp_server: inv_system "\<lambda>s. s = NewServer" srv_step srv_inv
  by unfold_locales (auto intro: srv_inv_init srv_inv_step)

text \<open>
  C15. When \<^verbatim>\<open>Stop\<close> returns, every handler that was started has ended and closed its connection,
  and the map of connections is empty, except for one that the accept loop has tracked and not
  yet counted.
\<close>

theorem stop_waits_for_handlers:
  assumes "run srv_step NewServer ls s" and "srv_step s StopReturns t"
  shows "(\<forall>c h. handlers t c = Some h \<longrightarrow> h = HEnd \<and> c \<in> closed t) \<and> srv_conns t \<subseteq> {c. start t = SAdd c}"
proof -
  have inv: "srv_inv s" by (rule tcp_server.inv_reachable [OF refl assms(1)])
  from assms(2) have t: "t = s\<lparr>stop := PStopped\<rparr>" and w: "wg s = 0" by (auto elim: srv_step.cases)
  from inv w have "running s = {}" and go: "\<nexists>c. start s = SGo c" by (auto simp: srv_inv_def)
  then have fin: "h = HEnd" if "handlers s c = Some h" for c h using that by (auto simp: running_def)
  then have "srv_conns s \<subseteq> {c. start s = SAdd c}" using inv go by (auto simp: srv_inv_def tracked_def)
  with fin inv t show ?thesis by (auto simp: srv_inv_def)
qed

section \<open>Concrete runs\<close>

text \<open>A server with one connection, number 0, that has not been closed by \<^verbatim>\<open>Stop\<close>.\<close>

definition srv :: "listener \<Rightarrow> nat \<Rightarrow> conn set \<Rightarrow> conn set \<Rightarrow> start_pc \<Rightarrow> handler_pc option \<Rightarrow> stop_pc \<Rightarrow> server" where
  "srv l w C X p h q = \<lparr>ln = l, wg = w, srv_conns = C, closed = X, start = p, handlers = (\<lambda>_. None)(0 := h), stop = q\<rparr>"

lemma srv_sel [simp]:
  "ln (srv l w C X p h q) = l" "wg (srv l w C X p h q) = w" "srv_conns (srv l w C X p h q) = C"
  "closed (srv l w C X p h q) = X" "start (srv l w C X p h q) = p" "handlers (srv l w C X p h q) = (\<lambda>_. None)(0 := h)"
  "stop (srv l w C X p h q) = q"
  by (simp_all add: srv_def)

lemma srv_upd [simp]:
  "(srv l w C X p h q)\<lparr>ln := l'\<rparr> = srv l' w C X p h q" "(srv l w C X p h q)\<lparr>wg := w'\<rparr> = srv l w' C X p h q"
  "(srv l w C X p h q)\<lparr>srv_conns := C'\<rparr> = srv l w C' X p h q" "(srv l w C X p h q)\<lparr>closed := X'\<rparr> = srv l w C X' p h q"
  "(srv l w C X p h q)\<lparr>start := p'\<rparr> = srv l w C X p' h q" "(srv l w C X p h q)\<lparr>stop := q'\<rparr> = srv l w C X p h q'"
  "(srv l w C X p h q)\<lparr>handlers := (\<lambda>_. None)(0 := h')\<rparr> = srv l w C X p h' q"
  by (simp_all add: srv_def)

lemma NewServer_srv: "NewServer = srv NoListener 0 {} {} SListen None PIdle"
  by (simp add: NewServer_def srv_def)

lemma srv_steps:
  "srv_step (srv NoListener w C X SListen h q) Internal (srv Listening w C X SAccept h q)"
  "srv_step (srv Listening w C X SAccept None q) Internal (srv Listening w C X (STrack 0) None q)"
  "srv_step (srv ListenerClosed w C X SAccept h q) Internal (srv ListenerClosed w C X SReturned h q)"
  "q \<in> {PIdle, PLock, PWait} \<Longrightarrow> srv_step (srv l w C X (STrack 0) h q) Internal (srv l w (insert 0 C) X (SAdd 0) h q)"
  "srv_step (srv l w C X (SAdd 0) h q) Internal (srv l (w + 1) C X (SGo 0) h q)"
  "srv_step (srv l w C X (SGo 0) h q) Internal (srv l w C X SAccept (Some HRead) q)"
  "srv_step (srv l w C X p (Some HRead) q) Internal (srv l w C X p (Some HClose) q)"
  "srv_step (srv l w C X p (Some HClose) q) Internal (srv l w C (insert 0 X) p (Some HUntrack) q)"
  "q \<in> {PIdle, PLock, PWait} \<Longrightarrow> srv_step (srv l w C X p (Some HUntrack) q) Internal (srv l w (C - {0}) X p (Some HDone) q)"
  "srv_step (srv l w C X p (Some HDone) q) Internal (srv l (w - 1) C X p (Some HEnd) q)"
  "srv_step (srv Listening w C X p h PIdle) Internal (srv ListenerClosed w C X p h PLock)"
  "srv_step (srv l w C X p h PLock) Internal (srv l w C X p h (PClosing C))"
  "srv_step (srv l w C X p h (PClosing {})) Internal (srv l w C X p h PWait)"
  "srv_step (srv l 0 C X p h PWait) StopReturns (srv l 0 C X p h PStopped)"
proof -
  show "srv_step (srv NoListener w C X SListen h q) Internal (srv Listening w C X SAccept h q)"
    using srv_step.listen [of "srv NoListener w C X SListen h q"] by simp
  show "srv_step (srv Listening w C X SAccept None q) Internal (srv Listening w C X (STrack 0) None q)"
    using srv_step.accept [of "srv Listening w C X SAccept None q" 0] by simp
  show "srv_step (srv ListenerClosed w C X SAccept h q) Internal (srv ListenerClosed w C X SReturned h q)"
    using srv_step.accept_closed [of "srv ListenerClosed w C X SAccept h q"] by simp
  show "q \<in> {PIdle, PLock, PWait} \<Longrightarrow> srv_step (srv l w C X (STrack 0) h q) Internal (srv l w (insert 0 C) X (SAdd 0) h q)"
    using srv_step.track [of "srv l w C X (STrack 0) h q" 0] by (auto simp: trackConn_def mu_free_def)
  show "srv_step (srv l w C X (SAdd 0) h q) Internal (srv l (w + 1) C X (SGo 0) h q)"
    using srv_step.add [of "srv l w C X (SAdd 0) h q" 0] by simp
  show "srv_step (srv l w C X (SGo 0) h q) Internal (srv l w C X SAccept (Some HRead) q)"
    using srv_step.go [of "srv l w C X (SGo 0) h q" 0] by simp
  show "srv_step (srv l w C X p (Some HRead) q) Internal (srv l w C X p (Some HClose) q)"
    using srv_step.read_ends [of "srv l w C X p (Some HRead) q" 0] by simp
  show "srv_step (srv l w C X p (Some HClose) q) Internal (srv l w C (insert 0 X) p (Some HUntrack) q)"
    using srv_step.close [of "srv l w C X p (Some HClose) q" 0] by simp
  show "q \<in> {PIdle, PLock, PWait} \<Longrightarrow> srv_step (srv l w C X p (Some HUntrack) q) Internal (srv l w (C - {0}) X p (Some HDone) q)"
    using srv_step.untrack [of "srv l w C X p (Some HUntrack) q" 0] by (auto simp: trackConn_def mu_free_def)
  show "srv_step (srv l w C X p (Some HDone) q) Internal (srv l (w - 1) C X p (Some HEnd) q)"
    using srv_step.finish [of "srv l w C X p (Some HDone) q" 0] by simp
  show "srv_step (srv Listening w C X p h PIdle) Internal (srv ListenerClosed w C X p h PLock)"
    using srv_step.stop_listener [of "srv Listening w C X p h PIdle"] by simp
  show "srv_step (srv l w C X p h PLock) Internal (srv l w C X p h (PClosing C))"
    using srv_step.stop_lock [of "srv l w C X p h PLock"] by simp
  show "srv_step (srv l w C X p h (PClosing {})) Internal (srv l w C X p h PWait)"
    using srv_step.stop_unlock [of "srv l w C X p h (PClosing {})"] by simp
  show "srv_step (srv l 0 C X p h PWait) StopReturns (srv l 0 C X p h PStopped)"
    using srv_step.stop_wait [of "srv l 0 C X p h PWait"] by simp
qed

text \<open>
  C38. \<^verbatim>\<open>Stop\<close> can miss a connection: one that was accepted before the listener was closed and
  tracked after \<^verbatim>\<open>Stop\<close> had closed the connections of the map stays open, and \<^verbatim>\<open>Stop\<close> waits for
  its handler; nothing but the end of that client's stream moves the server on.
\<close>

theorem stop_misses_late_connection:
  "\<exists>ls s. run srv_step NewServer ls s \<and> start s = SReturned \<and> stop s = PWait \<and> handlers s 0 = Some HRead \<and>
     0 \<notin> closed s \<and> (\<nexists>l t. srv_step s l t \<and> t \<noteq> s \<and> handlers t 0 \<noteq> Some HClose)"
proof -
  let ?s = "srv ListenerClosed 1 {0} {} SReturned (Some HRead) PWait"
  have "run srv_step NewServer (replicate 9 Internal) ?s"
    unfolding NewServer_srv numeral_eq_Suc replicate.simps pred_numeral_simps BitM.simps
    by (rule run_Cons, rule srv_steps(1), rule run_Cons, rule srv_steps(2), rule run_Cons, rule srv_steps(11),
        rule run_Cons, rule srv_steps(12), rule run_Cons, rule srv_steps(13), rule run_Cons, rule srv_steps(4), simp,
        rule run_Cons, rule srv_steps(5), rule run_Cons, rule srv_steps(6), rule run_Cons, rule srv_steps(3), simp)
  moreover have "t = ?s \<or> handlers t 0 = Some HClose" if "srv_step ?s l t" for l t
    using that by cases (auto split: if_splits)
  ultimately show ?thesis by (intro exI [of _ "replicate 9 Internal"] exI [of _ ?s]) auto
qed

theorem stop_waits_for_handlers_witness:
  "\<exists>ls s t. run srv_step NewServer ls s \<and> srv_step s StopReturns t \<and> handlers t 0 = Some HEnd \<and> 0 \<in> closed t"
proof -
  let ?s = "srv ListenerClosed 0 {} {0} SAccept (Some HEnd) PWait"
  have "run srv_step NewServer (replicate 12 Internal) ?s"
    unfolding NewServer_srv numeral_eq_Suc replicate.simps pred_numeral_simps BitM.simps
    by (rule run_Cons, rule srv_steps(1), rule run_Cons, rule srv_steps(2), rule run_Cons, rule srv_steps(4), simp,
        rule run_Cons, rule srv_steps(5), rule run_Cons, rule srv_steps(6), rule run_Cons, rule srv_steps(7),
        rule run_Cons, rule srv_steps(8), rule run_Cons, rule srv_steps(9), simp, rule run_Cons, rule srv_steps(10),
        rule run_Cons, rule srv_steps(11), rule run_Cons, rule srv_steps(12), simp, rule srv_steps(13))
  moreover note stop_waits_for_handlers [OF this srv_steps(14)]
  ultimately show ?thesis using srv_steps(14) [of ListenerClosed "{}" "{0}" SAccept "Some HEnd"]
    by (intro exI [of _ "replicate 12 Internal"] exI [of _ ?s] exI) auto
qed

end
