(* ===== verification/Tcp_Event_Loop.thy ===== *)
theory Tcp_Event_Loop
  imports Go_Prelude
begin

text \<open>
  The event loop server of src/tcp_servers/single_threaded_with_epoll.go: one goroutine that
  waits on a kqueue for its listening socket and its clients. The kernel is a parameter: the
  results of its calls are given as lists, in the order of the calls, and the state is what the
  server made of the descriptors. A loop that the given results do not bring to an end is \<open>None\<close>.
  The last section holds the server of src/socketio/main.go, which greets its clients through
  the same system calls.
\<close>

section \<open>Descriptors\<close>

type_synonym fd = int

datatype errno = EAGAIN | EWOULDBLOCK | EINTR | Errno nat

record kq_state =
  open_fds :: "fd set"
  watched :: "fd set"
  written :: "(fd \<times> string) list"

text \<open>\<^verbatim>\<open>kqAddRead\<close>, which may fail, \<^verbatim>\<open>kqDelRead\<close> and \<^verbatim>\<open>Close\<close>; the kernel forgets the events of a closed descriptor.\<close>

definition kqAddRead :: "errno option \<Rightarrow> fd \<Rightarrow> kq_state \<Rightarrow> kq_state" where
  "kqAddRead err f s = (case err of None \<Rightarrow> s\<lparr>watched := insert f (watched s)\<rparr> | Some e \<Rightarrow> s)"

definition kqDelRead :: "fd \<Rightarrow> kq_state \<Rightarrow> kq_state" where
  "kqDelRead f s = s\<lparr>watched := watched s - {f}\<rparr>"

definition unix_Close :: "fd \<Rightarrow> kq_state \<Rightarrow> kq_state" where
  "unix_Close f s = s\<lparr>open_fds := open_fds s - {f}, watched := watched s - {f}\<rparr>"

definition unix_Write :: "fd \<Rightarrow> string \<Rightarrow> kq_state \<Rightarrow> kq_state" where
  "unix_Write f b s = s\<lparr>written := written s @ [(f, b)]\<rparr>"

definition hang_up :: "fd \<Rightarrow> kq_state \<Rightarrow> kq_state" where
  "hang_up f s = unix_Close f (kqDelRead f s)"

section \<open>Setting up\<close>

text \<open>The results of the calls before the loop, and what \<^verbatim>\<open>ListeningForConnections\<close> does with them.\<close>

record setup_results =
  r_Socket :: "errno + fd"
  r_Setsockopt :: "errno option"
  r_SetNonblock :: "errno option"
  r_Bind :: "errno option"
  r_Listen :: "errno option"
  r_Kqueue :: "errno + fd"
  r_AddRead :: "errno option"

text \<open>
  Either an error is returned, with the descriptors that the deferred calls leave open, or the
  loop is entered with the listening socket and the queue.
\<close>

definition set_up :: "setup_results \<Rightarrow> (errno \<times> fd set) + (fd \<times> fd \<times> kq_state)" where
  "set_up r =
     (case r_Socket r of
        Inl e \<Rightarrow> Inl (e, {})
      | Inr f \<Rightarrow>
          (case r_Setsockopt r of Some e \<Rightarrow> Inl (e, {f} - {f}) | None \<Rightarrow>
          (case r_SetNonblock r of Some e \<Rightarrow> Inl (e, {f} - {f}) | None \<Rightarrow>
          (case r_Bind r of Some e \<Rightarrow> Inl (e, {f} - {f}) | None \<Rightarrow>
          (case r_Listen r of Some e \<Rightarrow> Inl (e, {f} - {f}) | None \<Rightarrow>
          (case r_Kqueue r of
             Inl e \<Rightarrow> Inl (e, {f} - {f})
           | Inr kq \<Rightarrow>
               (case r_AddRead r of
                  Some e \<Rightarrow> Inl (e, {f, kq} - {kq} - {f})
                | None \<Rightarrow> Inr (f, kq, kqAddRead None f \<lparr>open_fds = {f, kq}, watched = {}, written = []\<rparr>))))))))"

section \<open>The loop\<close>

text \<open>Accepting until \<^verbatim>\<open>Accept\<close> fails; the result of adding a client is ignored.\<close>

fun accept_loop :: "(errno + fd \<times> errno option) list \<Rightarrow> kq_state \<Rightarrow> kq_state option" where
  "accept_loop [] s = None"
| "accept_loop (Inl err # rs) s = Some s"
| "accept_loop (Inr (cfd, added) # rs) s = accept_loop rs (kqAddRead added cfd (s\<lparr>open_fds := insert cfd (open_fds s)\<rparr>))"

text \<open>Reading and echoing until \<^verbatim>\<open>Read\<close> has an error or returns nothing.\<close>

fun read_loop :: "fd \<Rightarrow> (string \<times> errno option) list \<Rightarrow> kq_state \<Rightarrow> kq_state option" where
  "read_loop f [] s = None"
| "read_loop f ((buf, rerr) # rs) s =
     (let s = (if 0 < length buf then unix_Write f buf s else s)
      in case rerr of
           Some e \<Rightarrow> if e = EAGAIN \<or> e = EWOULDBLOCK then Some s else Some (hang_up f s)
         | None \<Rightarrow> if length buf = 0 then Some (hang_up f s) else read_loop f rs s)"

text \<open>An event, with the results of the calls its handling makes.\<close>

record kevent =
  Ident :: fd
  EV_EOF :: bool
  accepts :: "(errno + fd \<times> errno option) list"
  reads :: "(string \<times> errno option) list"

definition handle_event :: "fd \<Rightarrow> kevent \<Rightarrow> kq_state \<Rightarrow> kq_state option" where
  "handle_event f ev s =
     (if Ident ev = f then accept_loop (accepts ev) s
      else if EV_EOF ev then Some (hang_up (Ident ev) s)
      else read_loop (Ident ev) (reads ev) s)"

fun handle_events :: "fd \<Rightarrow> kevent list \<Rightarrow> kq_state \<Rightarrow> kq_state option" where
  "handle_events f [] s = Some s"
| "handle_events f (ev # evs) s = (case handle_event f ev s of None \<Rightarrow> None | Some s' \<Rightarrow> handle_events f evs s')"

text \<open>
  The results of \<^verbatim>\<open>Kevent\<close>: an interrupt is ignored, another error is returned, after the deferred
  calls have closed the queue, which drops what it watches, and the listening socket.
\<close>

definition deferred_closes :: "fd \<Rightarrow> fd \<Rightarrow> kq_state \<Rightarrow> kq_state" where
  "deferred_closes f kq s = unix_Close f ((unix_Close kq s)\<lparr>watched := {}\<rparr>)"

fun event_loop :: "fd \<Rightarrow> fd \<Rightarrow> (errno + kevent list) list \<Rightarrow> kq_state \<Rightarrow> (errno option \<times> kq_state) option" where
  "event_loop f kq [] s = Some (None, s)"
| "event_loop f kq (Inl err # ks) s =
     (if err = EINTR then event_loop f kq ks s else Some (Some err, deferred_closes f kq s))"
| "event_loop f kq (Inr evs # ks) s = (case handle_events f evs s of None \<Rightarrow> None | Some s' \<Rightarrow> event_loop f kq ks s')"

section \<open>What a client gets\<close>

text \<open>
  The bytes of a client that arrive together are written back to it in the same pieces and
  order; the client stays watched when the socket is drained, and is closed and forgotten at the
  end of its stream or an error. Nothing of another client is touched.
\<close>

theorem read_loop_echoes:
  assumes "list_all (\<lambda>d. d \<noteq> []) ds"
  shows "read_loop f (map (\<lambda>d. (d, None)) ds @ ([], e) # rs) s =
    Some (if e = Some EAGAIN \<or> e = Some EWOULDBLOCK then s\<lparr>written := written s @ map (Pair f) ds\<rparr>
          else s\<lparr>written := written s @ map (Pair f) ds, open_fds := open_fds s - {f}, watched := watched s - {f}\<rparr>)"
  using assms
  by (induction ds arbitrary: s)
    (auto simp: unix_Write_def hang_up_def unix_Close_def kqDelRead_def split: option.splits)

theorem read_loop_echoes_witness:
  "read_loop 7 [(''ab'', None), (''c'', None), ([], Some EAGAIN)] \<lparr>open_fds = {3, 4, 7}, watched = {3, 7}, written = []\<rparr> =
     Some \<lparr>open_fds = {3, 4, 7}, watched = {3, 7}, written = [(7, ''ab''), (7, ''c'')]\<rparr>"
  using read_loop_echoes [of "[''ab'', ''c'']" 7 "Some EAGAIN" "[]" "\<lparr>open_fds = {3, 4, 7}, watched = {3, 7}, written = []\<rparr>"]
  by simp

section \<open>Descriptors are open while they are watched\<close>

definition kq_inv :: "fd \<Rightarrow> kq_state \<Rightarrow> bool" where
  "kq_inv f s \<longleftrightarrow> watched s \<subseteq> open_fds s \<and> f \<in> watched s"

lemma accept_loop_inv: "accept_loop rs s = Some t \<Longrightarrow> kq_inv f s \<Longrightarrow> kq_inv f t"
  by (induction rs s rule: accept_loop.induct) (auto simp: kq_inv_def kqAddRead_def split: option.splits)

lemma read_loop_inv: "read_loop c rs s = Some t \<Longrightarrow> c \<noteq> f \<Longrightarrow> kq_inv f s \<Longrightarrow> kq_inv f t"
proof (induction c rs s rule: read_loop.induct)
  case (2 c buf rerr rs s)
  then show ?case
    by (auto simp: kq_inv_def Let_def unix_Write_def hang_up_def unix_Close_def kqDelRead_def
        split: option.splits if_splits)
qed simp

lemma handle_event_inv: "handle_event f ev s = Some t \<Longrightarrow> kq_inv f s \<Longrightarrow> kq_inv f t"
  by (auto simp: handle_event_def intro: accept_loop_inv read_loop_inv split: if_splits)
    (auto simp: kq_inv_def hang_up_def unix_Close_def kqDelRead_def)

lemma handle_events_inv: "handle_events f evs s = Some t \<Longrightarrow> kq_inv f s \<Longrightarrow> kq_inv f t"
  by (induction f evs s rule: handle_events.induct) (auto intro: handle_event_inv split: option.splits)

lemma event_loop_inv:
  "event_loop f kq ks s = Some (e, t) \<Longrightarrow> kq_inv f s \<Longrightarrow>
   (case e of None \<Rightarrow> kq_inv f t
    | Some x \<Rightarrow> x \<noteq> EINTR \<and> Inl x \<in> set ks \<and> watched t = {} \<and> f \<notin> open_fds t \<and> kq \<notin> open_fds t)"
proof (induction f kq ks s rule: event_loop.induct)
  case (3 f kq evs ks s)
  then show ?case by (auto dest: handle_events_inv split: option.splits)
qed (auto simp: deferred_closes_def unix_Close_def split: if_splits option.splits)

text \<open>
  C39. A failed setup leaves no descriptor open. After a setup that succeeded, whatever events come
  and whatever the calls return, as long as the loop runs the listening socket is open and watched
  and every watched descriptor is open; and the loop ends only with an error of the queue other than
  an interrupt, with the listening socket and the queue closed and nothing watched.
\<close>

theorem event_loop_descriptors:
  "(set_up r = Inl (e, F) \<longrightarrow> F = {}) \<and>
   (set_up r = Inr (f, kq, s) \<longrightarrow> event_loop f kq ks s = Some (e', t) \<longrightarrow>
      (case e' of
         None \<Rightarrow> f \<in> watched t \<and> watched t \<subseteq> open_fds t
       | Some x \<Rightarrow> x \<noteq> EINTR \<and> Inl x \<in> set ks \<and> watched t = {} \<and> f \<notin> open_fds t \<and> kq \<notin> open_fds t))"
proof (intro conjI impI)
  show "F = {}" if "set_up r = Inl (e, F)"
    using that by (auto simp: set_up_def split: sum.splits option.splits)
next
  assume "set_up r = Inr (f, kq, s)" and loop: "event_loop f kq ks s = Some (e', t)"
  then have "kq_inv f s" by (auto simp: set_up_def kq_inv_def kqAddRead_def split: sum.splits option.splits)
  from event_loop_inv [OF loop this]
  show "case e' of
         None \<Rightarrow> f \<in> watched t \<and> watched t \<subseteq> open_fds t
       | Some x \<Rightarrow> x \<noteq> EINTR \<and> Inl x \<in> set ks \<and> watched t = {} \<and> f \<notin> open_fds t \<and> kq \<notin> open_fds t"
    by (auto simp: kq_inv_def split: option.splits)
qed

theorem event_loop_descriptors_witness:
  "\<exists>s t u. set_up \<lparr>r_Socket = Inr 3, r_Setsockopt = None, r_SetNonblock = None, r_Bind = None, r_Listen = None,
       r_Kqueue = Inr 4, r_AddRead = None\<rparr> = Inr (3, 4, s) \<and>
     event_loop 3 4 [Inl EINTR, Inr [\<lparr>Ident = 3, EV_EOF = False, accepts = [Inr (7, None), Inl EAGAIN], reads = []\<rparr>]] s = Some (None, t) \<and>
     3 \<in> watched t \<and> event_loop 3 4 [Inl EINTR, Inl (Errno 9)] s = Some (Some (Errno 9), u) \<and> 3 \<notin> open_fds u \<and> 4 \<notin> open_fds u"
proof -
  let ?r = "\<lparr>r_Socket = Inr 3, r_Setsockopt = None, r_SetNonblock = None, r_Bind = None, r_Listen = None,
       r_Kqueue = Inr 4, r_AddRead = None\<rparr>"
  let ?ks = "[Inl EINTR, Inr [\<lparr>Ident = 3, EV_EOF = False, accepts = [Inr (7, None), Inl EAGAIN], reads = []\<rparr>]]"
  obtain s where s: "set_up ?r = Inr (3, 4, s)" by (simp add: set_up_def)
  obtain t where t: "event_loop 3 4 ?ks s = Some (None, t)" by (simp add: handle_event_def)
  obtain u where u: "event_loop 3 4 [Inl EINTR, Inl (Errno 9)] s = Some (Some (Errno 9), u)" by simp
  have "3 \<in> watched t" using event_loop_descriptors [of ?r _ _ 3 4 s ?ks None t] s t by auto
  moreover have "3 \<notin> open_fds u \<and> 4 \<notin> open_fds u"
    using event_loop_descriptors [of ?r _ _ 3 4 s "[Inl EINTR, Inl (Errno 9)]" "Some (Errno 9)" u] s u by auto
  ultimately show ?thesis using s t u by blast
qed

section \<open>What is lost\<close>

text \<open>
  An event with the end-of-file flag closes the client without reading: what it had sent before
  it hung up is never echoed.
\<close>

lemma eof_event_drops_data:
  assumes "Ident ev \<noteq> f" and "EV_EOF ev"
  shows "handle_event f ev s = Some (s\<lparr>open_fds := open_fds s - {Ident ev}, watched := watched s - {Ident ev}\<rparr>)"
  using assms by (simp add: handle_event_def hang_up_def unix_Close_def kqDelRead_def)

text \<open>A client that could not be added to the queue stays open and is never read or closed.\<close>

lemma unwatched_client_leaks:
  "c \<notin> watched s \<Longrightarrow> \<exists>t. accept_loop [Inr (c, Some e), Inl EAGAIN] s = Some t \<and> c \<in> open_fds t \<and> c \<notin> watched t"
  by (simp add: kqAddRead_def)

section \<open>Raw system calls\<close>

definition greeting :: string where
  "greeting = ''Hello from raw syscalls!'' @ [CHR 0x0A]"

text \<open>The accept loop: an error is skipped, a client is greeted and closed.\<close>

fun greet_loop :: "(errno + fd) list \<Rightarrow> kq_state \<Rightarrow> kq_state" where
  "greet_loop [] s = s"
| "greet_loop (Inl err # rs) s = greet_loop rs s"
| "greet_loop (Inr clientFD # rs) s =
     greet_loop rs (unix_Close clientFD (unix_Write clientFD greeting (s\<lparr>open_fds := insert clientFD (open_fds s)\<rparr>)))"

text \<open>The calls before it: the error of \<^verbatim>\<open>Socket\<close> is not looked at, those of \<^verbatim>\<open>Bind\<close> and \<^verbatim>\<open>Listen\<close> panic.\<close>

definition greet_main :: "errno + fd \<Rightarrow> (fd \<Rightarrow> errno option) \<Rightarrow> (fd \<Rightarrow> errno option) \<Rightarrow> (errno + fd) list \<Rightarrow> kq_state outcome" where
  "greet_main socket bind listen accepted =
     (let f = (case socket of Inl e \<Rightarrow> - 1 | Inr f \<Rightarrow> f)
      in if bind f \<noteq> None then Panic
         else if listen f \<noteq> None then Panic
         else Return (greet_loop accepted \<lparr>open_fds = {f}, watched = {}, written = []\<rparr>))"

text \<open>Every client that is accepted is greeted once, in turn, and none stays open.\<close>

lemma greet_loop_clients:
  assumes "\<forall>c. Inr c \<in> set rs \<longrightarrow> c \<notin> open_fds s"
  shows "written (greet_loop rs s) = written s @ concat (map (\<lambda>r. case r of Inl e \<Rightarrow> [] | Inr c \<Rightarrow> [(c, greeting)]) rs)"
    and "open_fds (greet_loop rs s) = open_fds s"
  using assms
proof (induction rs arbitrary: s)
  case (Cons r rs)
  {
    case 1
    then show ?case using Cons.IH(1) by (cases r) (simp_all add: unix_Write_def unix_Close_def)
  next
    case 2
    then show ?case using Cons.IH(2) by (cases r) (simp_all add: unix_Write_def unix_Close_def)
  }
qed simp_all

end
