(* ===== verification/Deployment_Events.thy ===== *)
theory Deployment_Events
  imports Go_HTTP Go_Strings
begin

text \<open>
  The deployments of src/communication-mechanisms/server-sent-events: a goroutine appends lines to
  the file of a deployment, and a handler reads the file again and again and sends the lines it
  has not sent yet as events.
\<close>

section \<open>Files\<close>

abbreviation newline :: char where
  "newline \<equiv> CHR 0x0A"

type_synonym files = "string \<Rightarrow> string option"

definition deployment_path :: "string \<Rightarrow> string" where
  "deployment_path deploymentId = ''deployments/'' @ deploymentId @ ''.txt''"

text \<open>What a write leaves in a file: all of it, or the first bytes when it fails (\<open>Some n\<close>).\<close>

fun write_part :: "nat option \<Rightarrow> string \<Rightarrow> string" where
  "write_part None msg = msg"
| "write_part (Some n) msg = take n msg"

text \<open>
  \<^verbatim>\<open>appendMessage\<close>: without \<^verbatim>\<open>O_CREATE\<close> only a file that is there is opened; errors, of the open
  (\<open>Some 0\<close>) or of the write, are ignored.
\<close>

definition appendMessage :: "nat option \<Rightarrow> string \<Rightarrow> string \<Rightarrow> files \<Rightarrow> files" where
  "appendMessage fault msg fileName m =
     (case m (deployment_path fileName) of
        None \<Rightarrow> m
      | Some f \<Rightarrow> m(deployment_path fileName \<mapsto> f @ write_part fault msg))"

text \<open>The messages of a deployment, for the numbers \<^verbatim>\<open>rand.Intn\<close> returns.\<close>

definition step_message :: "nat \<Rightarrow> nat \<Rightarrow> string" where
  "step_message i r = ''Step '' @ dec i @ '' completed: '' @ dec r @ [newline]"

definition started_message :: string where
  "started_message = ''Deployment started...'' @ [newline]"

definition deployment_messages :: "(nat \<Rightarrow> nat) \<Rightarrow> string list" where
  "deployment_messages rand = map (\<lambda>i. step_message i (rand i)) [1..<1001] @ [''Deployment finished!'' @ [newline]]"

text \<open>The goroutine: its messages in turn, each of which may fail.\<close>

definition run_deployment :: "(nat \<Rightarrow> nat) \<Rightarrow> (nat \<Rightarrow> nat option) \<Rightarrow> string \<Rightarrow> files \<Rightarrow> files" where
  "run_deployment rand faults uuid m =
     fold (\<lambda>(i, msg) m. appendMessage (faults i) msg uuid m) (List.enumerate 0 (deployment_messages rand)) m"

text \<open>\<^verbatim>\<open>http.Redirect\<close> to a local path, for the method of the request, and \<^verbatim>\<open>startDeployment\<close> up to the \<^verbatim>\<open>go\<close> statement's loop.\<close>

definition http_Redirect :: "string \<Rightarrow> string \<Rightarrow> Writer \<Rightarrow> Writer outcome" where
  "http_Redirect meth url w =
     (let hadCT = w_header w ''Content-Type'' \<noteq> [];
          h = header_Set ''Location'' url (w_header w);
          h = (if \<not> hadCT \<and> (meth = ''GET'' \<or> meth = ''HEAD'') then header_Set ''Content-Type'' ''text/html; charset=utf-8'' h else h)
      in if \<not> hadCT \<and> meth = ''GET''
         then write_all 303 (text_bytes (''<a href=\"'' @ url @ ''\">See Other</a>.'' @ [newline, newline])) (w\<lparr>w_header := h\<rparr>)
         else WriteHeader 303 (w\<lparr>w_header := h\<rparr>))"

definition startDeployment :: "bool \<Rightarrow> nat option \<Rightarrow> string \<Rightarrow> string \<Rightarrow> files \<Rightarrow> Writer \<Rightarrow> files \<times> bool \<times> Writer outcome" where
  "startDeployment create_fails fault uuid meth m w =
     (if create_fails then (m, False, http_Error ''Unable to start deployment'' 500 w)
      else (m(deployment_path uuid \<mapsto> write_part fault started_message), True, http_Redirect meth (''/deployment/'' @ uuid) w))"

section \<open>Scanning lines\<close>

text \<open>
  \<^verbatim>\<open>bufio.Scanner\<close> on a whole file: the lines without newline and without a carriage return
  before it, and a last line without newline when it is not empty; a line that does not fit the
  buffer ends the scan.
\<close>

definition MaxScanTokenSize :: nat where
  "MaxScanTokenSize = 65536"

definition drop_cr :: "string \<Rightarrow> string" where
  "drop_cr l = (if l \<noteq> [] \<and> last l = CHR 0x0D then butlast l else l)"

definition raw_lines :: "string \<Rightarrow> string list" where
  "raw_lines s = (let parts = Split s newline in if last parts = [] then butlast parts else parts)"

definition scan_lines :: "string \<Rightarrow> string list" where
  "scan_lines s = map drop_cr (takeWhile (\<lambda>l. length l < MaxScanTokenSize) (raw_lines s))"

section \<open>Sending events\<close>

text \<open>An event, the loop over the new lines, and one round of \<^verbatim>\<open>sseHandler\<close> for the result of \<^verbatim>\<open>os.Open\<close>.\<close>

definition event :: "string \<Rightarrow> string" where
  "event line = ''data: '' @ line @ [newline, newline]"

record sse =
  lastLine :: nat
  response :: Writer

fun send_lines :: "nat \<Rightarrow> string list \<Rightarrow> sse \<Rightarrow> sse" where
  "send_lines 0 lines s = s"
| "send_lines (Suc n) lines s =
     send_lines n lines (s\<lparr>response := Write (text_bytes (event (lines ! lastLine s))) (response s), lastLine := lastLine s + 1\<rparr>)"

definition sse_round :: "string result \<Rightarrow> sse \<Rightarrow> sse" where
  "sse_round opened s =
     (case opened of
        Inl err \<Rightarrow> s
      | Inr f \<Rightarrow> (let lines = scan_lines f in send_lines (length lines - lastLine s) lines s))"

text \<open>The start of the handler, which returns only when it has no deployment id.\<close>

definition sse_start :: "string \<Rightarrow> Writer \<Rightarrow> Writer outcome + sse" where
  "sse_start deploymentId w =
     (if deploymentId = [] then Inl (http_Error ''Deployment ID is required'' 400 w)
      else Inr \<lparr>lastLine = 0, response = w\<lparr>w_header := header_Set ''Content-Type'' ''text/event-stream'' (w_header w)\<rparr>\<rparr>)"

definition sse_rounds :: "string result list \<Rightarrow> sse \<Rightarrow> sse" where
  "sse_rounds opens s = fold sse_round opens s"

section \<open>Every line is sent once\<close>

text \<open>A file that consists of complete lines.\<close>

definition unlines :: "string list \<Rightarrow> string" where
  "unlines ls = concat (map (\<lambda>l. l @ [newline]) ls)"

lemma Split_unlines: "\<forall>l \<in> set ls. newline \<notin> set l \<Longrightarrow> Split_from [] (unlines ls) newline = ls @ [[]]"
  by (induction ls) (simp_all add: unlines_def Split_from_append)

lemma scan_unlines:
  assumes "\<forall>l \<in> set ls. newline \<notin> set l \<and> length l < MaxScanTokenSize"
  shows "scan_lines (unlines ls) = map drop_cr ls"
proof -
  have raw: "raw_lines (unlines ls) = ls" using Split_unlines [of ls] assms by (simp add: raw_lines_def Split_def)
  have short: "takeWhile (\<lambda>l. length l < MaxScanTokenSize) ls = ls" using assms by (simp add: takeWhile_eq_all_conv)
  show ?thesis unfolding scan_lines_def raw short ..
qed

lemma w_body_Write [simp]: "w_body (Write b w) = w_body w @ b"
  by (simp add: Write_def)

lemma text_bytes_append [simp]: "text_bytes (s @ t) = text_bytes s @ text_bytes t"
  by (simp add: text_bytes_def)

lemma send_lines_sent:
  "lastLine s + n \<le> length lines \<Longrightarrow>
    lastLine (send_lines n lines s) = lastLine s + n \<and>
    w_body (response (send_lines n lines s)) =
      w_body (response s) @ text_bytes (concat (map event (take n (drop (lastLine s) lines))))"
proof (induction n arbitrary: s)
  case 0
  then show ?case by (simp add: text_bytes_def)
next
  case (Suc n)
  have "drop (lastLine s) lines = lines ! lastLine s # drop (Suc (lastLine s)) lines"
    using Suc.prems by (simp add: Cons_nth_drop_Suc)
  with Suc show ?case by simp
qed

text \<open>
  The file as the rounds find it: not there (\<open>None\<close>), or with its first \<open>k\<close> lines complete; and
  the number of lines the last of them saw.
\<close>

fun round_file :: "string list \<Rightarrow> nat option \<Rightarrow> string result" where
  "round_file ls None = Inl ErrNotExist"
| "round_file ls (Some k) = Inr (unlines (take k ls))"

definition seen :: "nat option list \<Rightarrow> nat" where
  "seen ks = fold (\<lambda>k n. case k of None \<Rightarrow> n | Some m \<Rightarrow> m) ks 0"

definition growing :: "nat \<Rightarrow> nat option list \<Rightarrow> bool" where
  "growing n ks \<longleftrightarrow> sorted (map the (filter (\<lambda>k. k \<noteq> None) ks)) \<and> list_all (\<lambda>k. k = None \<or> the k \<le> n) ks"

lemma seen_snoc: "seen (ks @ [k]) = (case k of None \<Rightarrow> seen ks | Some m \<Rightarrow> m)"
  by (simp add: seen_def split: option.splits)

lemma seen_le:
  assumes "growing n (ks @ [Some m])"
  shows "seen ks \<le> m"
proof -
  have "seen ks = 0 \<or> Some (seen ks) \<in> set ks"
    by (induction ks rule: rev_induct) (auto simp: seen_snoc seen_def split: option.splits)
  then show ?thesis
  proof
    assume "Some (seen ks) \<in> set ks"
    obtain xs where xs: "xs = map the (filter (\<lambda>k. k \<noteq> None) ks)" by blast
    have "seen ks \<in> set xs" unfolding xs using \<open>Some (seen ks) \<in> set ks\<close> by force
    moreover have "sorted (xs @ [m])" using assms by (simp add: growing_def xs)
    ultimately show ?thesis by (simp add: sorted_append)
  qed simp
qed

lemma growing_Suc:
  assumes "growing n ks"
  shows "growing (Suc n) (map (map_option Suc) ks)"
proof -
  have eq: "map the (filter (\<lambda>k. k \<noteq> None) (map (map_option Suc) ks)) = map Suc (map the (filter (\<lambda>k. k \<noteq> None) ks))"
    by (induction ks) auto
  have "sorted (map Suc xs)" if "sorted xs" for xs using that by (induction xs) auto
  moreover have "map_option Suc k = None \<or> the (map_option Suc k) \<le> Suc n" if "k \<in> set ks" for k
    using assms that by (cases k) (auto simp: growing_def list_all_iff)
  then have "list_all (\<lambda>k. k = None \<or> the k \<le> Suc n) (map (map_option Suc) ks)" unfolding list_all_iff set_map by blast
  ultimately show ?thesis using assms unfolding growing_def eq by blast
qed

text \<open>
  A client of a growing file of complete lines gets every line as one event, in order and once,
  however often and when the handler looks.
\<close>

lemma lines_sent_once:
  assumes "sse_start deploymentId w = Inr s"
    and "\<forall>l \<in> set ls. newline \<notin> set l \<and> length l < MaxScanTokenSize" and "growing (length ls) ks"
  shows "w_body (response (sse_rounds (map (round_file ls) ks) s)) =
    w_body w @ text_bytes (concat (map (\<lambda>l. event (drop_cr l)) (take (seen ks) ls)))"
proof -
  have s: "lastLine s = 0" "w_body (response s) = w_body w"
    using assms(1) by (auto simp: sse_start_def split: if_splits)
  have "lastLine (sse_rounds (map (round_file ls) ks) s) = seen ks \<and>
    w_body (response (sse_rounds (map (round_file ls) ks) s)) =
      w_body w @ text_bytes (concat (map (\<lambda>l. event (drop_cr l)) (take (seen ks) ls)))"
    using assms(3)
  proof (induction ks rule: rev_induct)
    case Nil
    then show ?case using s by (simp add: sse_rounds_def seen_def text_bytes_def)
  next
    case (snoc k ks)
    let ?t = "sse_rounds (map (round_file ls) ks) s"
    have IH: "lastLine ?t = seen ks" "w_body (response ?t) =
        w_body w @ text_bytes (concat (map (\<lambda>l. event (drop_cr l)) (take (seen ks) ls)))"
      using snoc by (auto simp: growing_def sorted_append)
    show ?case
    proof (cases k)
      case None
      with IH show ?thesis by (simp add: sse_rounds_def sse_round_def seen_snoc)
    next
      case (Some m)
      have le: "seen ks \<le> m" "m \<le> length ls"
        using seen_le [of "length ls" ks m] snoc.prems Some by (simp_all add: growing_def)
      have lines: "scan_lines (unlines (take m ls)) = map drop_cr (take m ls)"
        by (rule scan_unlines) (use assms(2) in_set_takeD in fast)
      have step: "sse_rounds (map (round_file ls) (ks @ [Some m])) s = send_lines (m - seen ks) (map drop_cr (take m ls)) ?t"
        using IH(1) le(2) by (simp add: sse_rounds_def sse_round_def Some lines Let_def min_def)
      have new: "take (m - seen ks) (drop (seen ks) (map drop_cr (take m ls))) =
          map drop_cr (take (m - seen ks) (drop (seen ks) ls))"
        by (simp add: drop_map take_map drop_take)
      have all: "take m ls = take (seen ks) ls @ take (m - seen ks) (drop (seen ks) ls)"
        using le(1) by (metis take_add le_add_diff_inverse)
      have "lastLine ?t + (m - seen ks) \<le> length (map drop_cr (take m ls))" using IH(1) le by simp
      from send_lines_sent [OF this] show ?thesis
        unfolding step seen_snoc Some option.case IH new by (subst all) (simp add: le(1) comp_def)
    qed
  qed
  then show ?thesis by blast
qed

section \<open>Watching a deployment\<close>

text \<open>The files after \<open>n\<close> messages of a deployment, and the result of \<^verbatim>\<open>os.Open\<close> then; \<open>None\<close> is a failure.\<close>

definition files_after :: "(nat \<Rightarrow> nat) \<Rightarrow> string \<Rightarrow> files \<Rightarrow> nat \<Rightarrow> files" where
  "files_after rand uuid m n = fold (\<lambda>msg m. appendMessage None msg uuid m) (take n (deployment_messages rand)) m"

fun open_after :: "(nat \<Rightarrow> nat) \<Rightarrow> string \<Rightarrow> files \<Rightarrow> nat option \<Rightarrow> string result" where
  "open_after rand uuid m None = Inl EIO"
| "open_after rand uuid m (Some n) =
     (case files_after rand uuid m n (deployment_path uuid) of None \<Rightarrow> Inl ErrNotExist | Some f \<Rightarrow> Inr f)"

definition deployment_lines :: "(nat \<Rightarrow> nat) \<Rightarrow> string list" where
  "deployment_lines rand =
     ''Deployment started...'' # map (\<lambda>i. ''Step '' @ dec i @ '' completed: '' @ dec (rand i)) [1..<1001] @ [''Deployment finished!'']"

lemma messages_lines: "deployment_messages rand = map (\<lambda>l. l @ [newline]) (tl (deployment_lines rand))"
  unfolding deployment_messages_def deployment_lines_def step_message_def by simp

lemma fold_appendMessage:
  "m (deployment_path uuid) = Some f \<Longrightarrow>
    fold (\<lambda>msg m. appendMessage None msg uuid m) ms m (deployment_path uuid) = Some (f @ concat ms)"
  by (induction ms arbitrary: m f) (auto simp: appendMessage_def)

text \<open>The file grows by complete lines.\<close>

lemma files_after_lines:
  assumes "startDeployment False None uuid meth m w = (m', b, r)"
  shows "files_after rand uuid m' n (deployment_path uuid) = Some (unlines (take (Suc n) (deployment_lines rand)))"
proof -
  have "m' (deployment_path uuid) = Some started_message" using assms by (auto simp: startDeployment_def)
  then have "files_after rand uuid m' n (deployment_path uuid) = Some (started_message @ concat (take n (deployment_messages rand)))"
    unfolding files_after_def by (rule fold_appendMessage)
  moreover have "hd (deployment_lines rand) = ''Deployment started...''" "deployment_lines rand \<noteq> []"
    by (simp_all add: deployment_lines_def)
  then have "take (Suc n) (deployment_lines rand) = ''Deployment started...'' # take n (tl (deployment_lines rand))"
    by (metis list.collapse take_Suc_Cons)
  ultimately show ?thesis by (simp add: messages_lines unlines_def started_message_def take_map)
qed

lemma run_deployment_files: "run_deployment rand (\<lambda>_. None) uuid m = files_after rand uuid m 1001"
proof -
  have "fold (\<lambda>(i, msg). appendMessage None msg uuid) (List.enumerate k ms) m = fold (\<lambda>msg. appendMessage None msg uuid) ms m" for k ms
    by (induction ms arbitrary: k m) simp_all
  moreover have "take 1001 (deployment_messages rand) = deployment_messages rand" by (simp add: deployment_messages_def)
  ultimately show ?thesis by (simp add: run_deployment_def files_after_def)
qed

lemma dec_no_control [simp]: "newline \<notin> set (dec n)" "CHR 0x0D \<notin> set (dec n)"
  using dec_digits [of n] by (auto simp: is_digit_def)

lemma drop_cr_id: "CHR 0x0D \<notin> set l \<Longrightarrow> drop_cr l = l"
  by (cases l rule: rev_cases) (auto simp: drop_cr_def)

lemma deployment_lines_short:
  assumes "\<forall>i. rand i < 1000" and "l \<in> set (deployment_lines rand)"
  shows "newline \<notin> set l \<and> length l < MaxScanTokenSize" and "drop_cr l = l"
proof -
  from assms(2) consider "l \<in> {''Deployment started...'', ''Deployment finished!''}"
    | i where "l = ''Step '' @ dec i @ '' completed: '' @ dec (rand i)" "i < 1001"
    by (auto simp: deployment_lines_def)
  then have "newline \<notin> set l \<and> length l < MaxScanTokenSize \<and> CHR 0x0D \<notin> set l"
  proof cases
    case 2
    have "length (dec i) \<le> 4" "length (dec (rand i)) \<le> 3"
      using length_dec [of i 4] length_dec [of "rand i" 3] 2(2) assms(1) by simp_all
    with 2(1) show ?thesis by (simp add: MaxScanTokenSize_def)
  qed (auto simp: MaxScanTokenSize_def)
  then show "newline \<notin> set l \<and> length l < MaxScanTokenSize" and "drop_cr l = l" by (simp_all add: drop_cr_id)
qed

text \<open>
  C18. A client that watches a deployment gets the start, every step and the end as events, in
  order and once each, as far as the file has grown: however often and when the handler looks,
  and whichever of its opens fail, after any rounds the body holds exactly the events of the
  lines the file had in the last round that could open it.
\<close>

theorem deployment_watched:
  assumes "startDeployment False None uuid meth m w0 = (m', True, r)" and "sse_start uuid w = Inr s"
    and "\<forall>i. rand i < 1000" and "growing 1001 ks"
  shows "w_body (response (sse_rounds (map (open_after rand uuid m') ks) s)) =
    w_body w @ text_bytes (concat (map event (take (seen (map (map_option Suc) ks)) (deployment_lines rand))))"
proof -
  have "sse_round (open_after rand uuid m' k) = sse_round (round_file (deployment_lines rand) (map_option Suc k))" for k
    by (cases k) (simp_all add: files_after_lines [OF assms(1)] sse_round_def fun_eq_iff)
  then have rounds: "sse_rounds (map (open_after rand uuid m') ks) s =
      sse_rounds (map (round_file (deployment_lines rand)) (map (map_option Suc) ks)) s"
    unfolding sse_rounds_def fold_map comp_def by simp
  have "growing (length (deployment_lines rand)) (map (map_option Suc) ks)"
    using growing_Suc [OF assms(4)] by (simp add: deployment_lines_def)
  from lines_sent_once [OF assms(2) _ this] deployment_lines_short [OF assms(3)]
  have "w_body (response (sse_rounds (map (open_after rand uuid m') ks) s)) = w_body w @
      text_bytes (concat (map (\<lambda>l. event (drop_cr l)) (take (seen (map (map_option Suc) ks)) (deployment_lines rand))))"
    unfolding rounds by blast
  moreover have "map (\<lambda>l. event (drop_cr l)) (take n (deployment_lines rand)) = map event (take n (deployment_lines rand))" for n
  proof (rule map_cong [OF refl])
    fix l assume "l \<in> set (take n (deployment_lines rand))"
    then have "l \<in> set (deployment_lines rand)" by (rule in_set_takeD)
    then show "event (drop_cr l) = event l" by (simp only: deployment_lines_short(2) [OF assms(3)])
  qed
  ultimately show ?thesis by simp
qed

theorem deployment_watched_witness:
  "\<exists>m' r s. startDeployment False None ''u1'' ''GET'' Map.empty new_writer = (m', True, r) \<and> sse_start ''u1'' new_writer = Inr s \<and>
     w_body (response (sse_rounds (map (open_after (\<lambda>_. 7) ''u1'' m') [None, Some 0, Some 1, Some 1]) s)) =
       text_bytes (event ''Deployment started...'' @ event (''Step 1 completed: 7''))"
proof -
  obtain m' r where start: "startDeployment False None ''u1'' ''GET'' Map.empty new_writer = (m', True, r)"
    by (simp add: startDeployment_def)
  obtain s where s: "sse_start ''u1'' new_writer = Inr s" by (simp add: sse_start_def)
  have d: "dec 7 = ''7''" "dec (Suc 0) = ''1''" by (simp_all add: dec.simps digit_char_def, code_simp+)
  have "take 2 (deployment_lines (\<lambda>_. 7)) = [''Deployment started...'', ''Step 1 completed: 7'']"
    by (simp add: deployment_lines_def numeral_2_eq_2 take_map take_upt d)
  with deployment_watched [OF start s, of "\<lambda>_. 7" "[None, Some 0, Some 1, Some 1]"]
  have "w_body (response (sse_rounds (map (open_after (\<lambda>_. 7) ''u1'' m') [None, Some 0, Some 1, Some 1]) s)) =
      text_bytes (event ''Deployment started...'' @ event (''Step 1 completed: 7''))"
    by (simp add: growing_def seen_def new_writer_def numeral_2_eq_2)
  with start s show ?thesis by blast
qed

end
