(* ===== verification/Redis_Pubsub.thy ===== *)
theory Redis_Pubsub
  imports Go_Prelude "HOL-Library.Multiset"
begin

text \<open>
  The program of src/communication-mechanisms/redis-pubsub: one goroutine publishes the numbers
  from 0 to 19 on a channel, three subscribe to it and print what they receive, and \<^verbatim>\<open>main\<close> ends the
  program after a tenth of a second. Redis with its client library is a parameter; about it the
  theorem assumes what the two document: Redis delivers the message of a command to a subscriber
  at most once, and the library sends a command that fails again, up to a number of attempts.
\<close>

section \<open>The server as the program sees it\<close>

text \<open>What \<^verbatim>\<open>Receive\<close> returns: the confirmation of a subscription, a message, or a pong.\<close>

datatype received = Subscription string | Message string string | Pong string

text \<open>
  The three calls, as relations between states of the server (and of the library's connections):
  \<^verbatim>\<open>Publish\<close> with its result, which the program only prints, \<^verbatim>\<open>Subscribe\<close> of a subscriber, and
  \<^verbatim>\<open>Receive\<close> of a subscriber with a value or an error.
\<close>

record 'b redis =
  Publish :: "'b \<Rightarrow> string \<Rightarrow> string \<Rightarrow> int result \<Rightarrow> 'b \<Rightarrow> bool"
  Subscribe :: "'b \<Rightarrow> nat \<Rightarrow> string \<Rightarrow> 'b \<Rightarrow> bool"
  Receive :: "'b \<Rightarrow> nat \<Rightarrow> received result \<Rightarrow> 'b \<Rightarrow> bool"

section \<open>The program\<close>

definition chat_room :: string where
  "chat_room = ''chat:room1''"

definition subscribers :: "nat set" where
  "subscribers = {1, 2, 3}"

text \<open>
  Where a subscriber is: before \<^verbatim>\<open>Subscribe\<close>, in its loop, or returned after an error. The
  state has the loop variable of \<^verbatim>\<open>publish\<close> and what each subscriber has printed; \<open>exited\<close> says that
  \<^verbatim>\<open>main\<close> has slept enough.
\<close>

datatype subscriber = Fresh | InLoop | Failed go_error

record 'b pubsub =
  broker :: 'b
  publish_i :: nat
  subscriber_at :: "nat \<Rightarrow> subscriber"
  printed :: "nat \<Rightarrow> received list"
  exited :: bool

datatype pubsub_event = Published nat "int result" | Subscribed nat | Printed nat received | Errored nat go_error | Slept

text \<open>\<^verbatim>\<open>Publish\<close> sends the number in decimal; an error of it does not end the loop.\<close>

inductive pubsub_step :: "'b redis \<Rightarrow> 'b pubsub \<Rightarrow> pubsub_event \<Rightarrow> 'b pubsub \<Rightarrow> bool" for R where
  publish: "\<not> exited s \<Longrightarrow> publish_i s < 20 \<Longrightarrow> Publish R (broker s) chat_room (dec (publish_i s)) r b \<Longrightarrow>
    pubsub_step R s (Published (publish_i s) r) (s\<lparr>broker := b, publish_i := publish_i s + 1\<rparr>)"
| subscribe: "\<not> exited s \<Longrightarrow> k \<in> subscribers \<Longrightarrow> subscriber_at s k = Fresh \<Longrightarrow> Subscribe R (broker s) k chat_room b \<Longrightarrow>
    pubsub_step R s (Subscribed k) (s\<lparr>broker := b, subscriber_at := (subscriber_at s)(k := InLoop)\<rparr>)"
| receive: "\<not> exited s \<Longrightarrow> subscriber_at s k = InLoop \<Longrightarrow> Receive R (broker s) k (Inr m) b \<Longrightarrow>
    pubsub_step R s (Printed k m) (s\<lparr>broker := b, printed := (printed s)(k := printed s k @ [m])\<rparr>)"
| receive_error: "\<not> exited s \<Longrightarrow> subscriber_at s k = InLoop \<Longrightarrow> Receive R (broker s) k (Inl e) b \<Longrightarrow>
    pubsub_step R s (Errored k e) (s\<lparr>broker := b, subscriber_at := (subscriber_at s)(k := Failed e)\<rparr>)"
| slept: "\<not> exited s \<Longrightarrow> pubsub_step R s Slept (s\<lparr>exited := True\<rparr>)"

definition pubsub_start :: "'b \<Rightarrow> 'b pubsub" where
  "pubsub_start b = \<lparr>broker = b, publish_i = 0, subscriber_at = (\<lambda>_. Fresh), printed = (\<lambda>_. []), exited = False\<rparr>"

section \<open>What Redis and its library promise\<close>

text \<open>
  The messages that may still reach a subscriber, as a channel and a payload each: those queued for
  it, and those of commands that have been sent and not been carried out. One call of \<^verbatim>\<open>Publish\<close>
  adds at most as many as the library makes attempts; a received message is one of them; any
  call may lose some. Nothing is said of their order, because a command of a failed attempt
  may be carried out after a later one.
\<close>

type_synonym 'b on_the_way = "'b \<Rightarrow> nat \<Rightarrow> (string \<times> string) multiset"

fun message_of :: "received result \<Rightarrow> (string \<times> string) multiset" where
  "message_of (Inr (Message c m)) = {#(c, m)#}"
| "message_of x = {#}"

definition delivers :: "nat \<Rightarrow> 'b redis \<Rightarrow> 'b on_the_way \<Rightarrow> bool" where
  "delivers attempts R way \<longleftrightarrow>
     (\<forall>b c m r b' k. Publish R b c m r b' \<longrightarrow> way b' k \<subseteq># way b k + replicate_mset attempts (c, m)) \<and>
     (\<forall>b j c b' k. Subscribe R b j c b' \<longrightarrow> way b' k \<subseteq># way b k) \<and>
     (\<forall>b j x b' k. Receive R b j x b' \<longrightarrow> (if k = j then message_of x else {#}) + way b' k \<subseteq># way b k)"

lemma deliversD:
  assumes "delivers n R way"
  shows "Publish R b c m r b' \<Longrightarrow> way b' k \<subseteq># way b k + replicate_mset n (c, m)"
    and "Subscribe R b j c b' \<Longrightarrow> way b' k \<subseteq># way b k"
    and "Receive R b j x b' \<Longrightarrow> (if k = j then message_of x else {#}) + way b' k \<subseteq># way b k"
  using assms unfolding delivers_def by blast+

text \<open>The messages among what a subscriber printed, and those of the first numbers.\<close>

fun messages :: "received list \<Rightarrow> (string \<times> string) list" where
  "messages [] = []"
| "messages (Message c m # ms) = (c, m) # messages ms"
| "messages (m # ms) = messages ms"

lemma messages_snoc: "mset (messages (xs @ [x])) = mset (messages xs) + message_of (Inr x)"
  by (induction xs rule: messages.induct) (cases x; simp)+

definition numbers :: "nat \<Rightarrow> nat \<Rightarrow> (string \<times> string) multiset" where
  "numbers n j = (\<Sum>i < j. replicate_mset n (chat_room, dec i))"

lemma count_numbers:
  "count (numbers n j) (c, m) = (if c = chat_room \<and> (\<exists>i < j. m = dec i) then n else 0)"
proof (induction j)
  case (Suc j)
  have "(c, m) \<noteq> (chat_room, dec j)" if "i < j" "m = dec i" for i using that by simp
  with Suc show ?case by (auto simp: numbers_def less_Suc_eq)
qed (simp add: numbers_def)

text \<open>
  The invariant: what a subscriber has printed, together with what may still reach it, is part of
  what the calls of \<^verbatim>\<open>Publish\<close> so far can have sent.
\<close>

definition pubsub_inv :: "nat \<Rightarrow> 'b on_the_way \<Rightarrow> 'b pubsub \<Rightarrow> bool" where
  "pubsub_inv n way s \<longleftrightarrow>
     publish_i s \<le> 20 \<and> (\<forall>k. mset (messages (printed s k)) + way (broker s) k \<subseteq># numbers n (publish_i s))"

lemma pubsub_inv_step:
  assumes "pubsub_step R s l t" and R: "delivers n R way" and inv: "pubsub_inv n way s"
  shows "pubsub_inv n way t"
proof -
  note D = deliversD [OF R]
  have old: "mset (messages (printed s k)) + way (broker s) k \<subseteq># numbers n (publish_i s)" for k
    using inv by (simp add: pubsub_inv_def)
  have less: "mset (messages (printed s k)) + X \<subseteq># numbers n (publish_i s)" if "X \<subseteq># way (broker s) k" for k X
    using old [of k] that by (meson subset_mset.add_left_mono subset_mset.order_trans)
  show ?thesis
    using assms(1)
  proof cases
    case (publish r b)
    have "mset (messages (printed s k)) + way b k \<subseteq># numbers n (Suc (publish_i s))" for k
    proof -
      have "mset (messages (printed s k)) + way b k \<subseteq>#
          (mset (messages (printed s k)) + way (broker s) k) + replicate_mset n (chat_room, dec (publish_i s))"
        using D(1) [OF publish(5), of k] by (simp add: add.assoc)
      also have "\<dots> \<subseteq># numbers n (publish_i s) + replicate_mset n (chat_room, dec (publish_i s))"
        using old [of k] by simp
      finally show ?thesis by (simp add: numbers_def)
    qed
    with publish show ?thesis by (simp add: pubsub_inv_def)
  next
    case (subscribe k b)
    with less [OF D(2) [OF subscribe(6)]] inv show ?thesis by (simp add: pubsub_inv_def)
  next
    case (receive k m b)
    have "mset (messages (((printed s)(k := printed s k @ [m])) j)) + way b j \<subseteq># numbers n (publish_i s)" for j
      using less [OF D(3) [OF receive(5), of j]] by (auto simp: messages_snoc add.assoc)
    with receive inv show ?thesis by (simp add: pubsub_inv_def)
  next
    case (receive_error k e b)
    have "way b j \<subseteq># way (broker s) j" for j using D(3) [OF receive_error(5), of j] by (simp split: if_splits)
    with less receive_error inv show ?thesis by (simp add: pubsub_inv_def)
  next
    case slept
    with inv show ?thesis by (simp add: pubsub_inv_def)
  qed
qed

interpretation pubsub_sys: inv_system "\<lambda>s. \<exists>b. s = pubsub_start b \<and> (\<forall>k. way b k = {#})" "pubsub_step R"
    "\<lambda>s. delivers n R way \<longrightarrow> pubsub_inv n way s" for R way n
proof unfold_locales
  show "delivers n R way \<longrightarrow> pubsub_inv n way s" if "\<exists>b. s = pubsub_start b \<and> (\<forall>k. way b k = {#})" for s
    using that by (auto simp: pubsub_inv_def pubsub_start_def)
qed (blast intro: pubsub_inv_step)

text \<open>
  C17. Whatever the interleaving of the publisher and the subscribers and whatever fails, at most
  the twenty numbers from 0 on are published, and a subscriber prints only numbers that were
  published, on the channel of the program, and each of them at most as often as the client library
  may send one command: once without retries, four times with the three retries of its default.
\<close>

theorem subscribers_print_published:
  assumes "run (pubsub_step R) (pubsub_start b) ls t" and "delivers attempts R way" and "\<forall>k. way b k = {#}"
  shows "publish_i t \<le> 20 \<and>
    (\<forall>c m. count (mset (messages (printed t k))) (c, m) \<le>
       (if c = ''chat:room1'' \<and> (\<exists>i < publish_i t. m = dec i) then attempts else 0))"
proof -
  have inv: "pubsub_inv attempts way t" using pubsub_sys.inv_reachable [OF _ assms(1), of way] assms(2,3) by blast
  have "mset (messages (printed t k)) \<subseteq># mset (messages (printed t k)) + way (broker t) k" by simp
  also have "\<dots> \<subseteq># numbers attempts (publish_i t)" using inv by (simp add: pubsub_inv_def)
  finally have "count (mset (messages (printed t k))) (c, m) \<le> count (numbers attempts (publish_i t)) (c, m)" for c m
    by (rule mset_subset_eq_count)
  with inv show ?thesis unfolding pubsub_inv_def count_numbers chat_room_def by blast
qed

section \<open>A server in memory\<close>

text \<open>A reference server: a queue of messages for each subscriber, without losses or errors.\<close>

record mem_redis =
  queue :: "nat \<Rightarrow> (string \<times> string) list"
  channels :: "nat \<Rightarrow> string set"

definition mem_publish :: "string \<Rightarrow> string \<Rightarrow> mem_redis \<Rightarrow> mem_redis" where
  "mem_publish c m b = b\<lparr>queue := (\<lambda>k. if c \<in> channels b k then queue b k @ [(c, m)] else queue b k)\<rparr>"

definition mem_subscribe :: "nat \<Rightarrow> string \<Rightarrow> mem_redis \<Rightarrow> mem_redis" where
  "mem_subscribe k c b = b\<lparr>channels := (channels b)(k := insert c (channels b k))\<rparr>"

definition mem_server :: "mem_redis redis" where
  "mem_server = \<lparr>Publish = (\<lambda>b c m r b'. r = Inr (int (card {k \<in> subscribers. c \<in> channels b k})) \<and> b' = mem_publish c m b),
     Subscribe = (\<lambda>b k c b'. b' = mem_subscribe k c b),
     Receive = (\<lambda>b k x b'. \<exists>c m ms. queue b k = (c, m) # ms \<and> x = Inr (Message c m) \<and> b' = b\<lparr>queue := (queue b)(k := ms)\<rparr>)\<rparr>"

definition no_clients :: mem_redis where
  "no_clients = \<lparr>queue = (\<lambda>_. []), channels = (\<lambda>_. {})\<rparr>"

lemma mem_delivers: "delivers 1 mem_server (\<lambda>b k. mset (queue b k))"
  unfolding delivers_def mem_server_def mem_publish_def mem_subscribe_def by auto

text \<open>Subscriber 2 subscribes, and prints the first number.\<close>

lemma mem_first_run:
  "\<exists>ls t. run (pubsub_step mem_server) (pubsub_start no_clients) ls t \<and> printed t 2 = [Message chat_room (dec 0)] \<and> publish_i t = 1"
proof -
  obtain b1 where b1: "b1 = mem_subscribe 2 chat_room no_clients" by blast
  obtain b2 where b2: "b2 = mem_publish chat_room (dec 0) b1" by blast
  let ?s0 = "pubsub_start no_clients"
  obtain s1 where s1: "s1 = ?s0\<lparr>broker := b1, subscriber_at := (subscriber_at ?s0)(2 := InLoop)\<rparr>" by blast
  obtain s2 where s2: "s2 = s1\<lparr>broker := b2, publish_i := publish_i s1 + 1\<rparr>" by blast
  obtain s3 where s3: "s3 = s2\<lparr>broker := b2\<lparr>queue := (queue b2)(2 := [])\<rparr>, printed := (printed s2)(2 := printed s2 2 @ [Message chat_room (dec 0)])\<rparr>" by blast
  have q: "queue b2 2 = [(chat_room, dec 0)]" by (simp add: b1 b2 mem_publish_def mem_subscribe_def no_clients_def)
  have 1: "pubsub_step mem_server ?s0 (Subscribed 2) s1"
    unfolding s1 by (rule pubsub_step.subscribe) (simp_all add: pubsub_start_def subscribers_def mem_server_def b1)
  have 2: "\<exists>r. pubsub_step mem_server s1 (Published (publish_i s1) r) s2"
    unfolding s2 by (rule exI, rule pubsub_step.publish) (simp_all add: s1 pubsub_start_def mem_server_def b2)
  have 3: "pubsub_step mem_server s2 (Printed 2 (Message chat_room (dec 0))) s3"
    unfolding s3 by (rule pubsub_step.receive) (simp_all add: s2 s1 pubsub_start_def mem_server_def q)
  from 1 2 3 have "\<exists>ls. run (pubsub_step mem_server) ?s0 ls s3" by (meson run.intros)
  moreover have "printed s3 2 = [Message chat_room (dec 0)]" "publish_i s3 = 1" by (simp_all add: s1 s2 s3 pubsub_start_def)
  ultimately show ?thesis by blast
qed

theorem subscribers_print_published_witness:
  "\<exists>ls t. run (pubsub_step mem_server) (pubsub_start no_clients) ls t \<and> messages (printed t 2) = [(''chat:room1'', dec 0)] \<and>
     count (mset (messages (printed t 2))) (''chat:room1'', dec 0) \<le> 1 \<and>
     count (mset (messages (printed t 2))) (''chat:room1'', dec 1) \<le> 0"
proof -
  obtain ls t where r: "run (pubsub_step mem_server) (pubsub_start no_clients) ls t"
    and p: "printed t 2 = [Message chat_room (dec 0)]" "publish_i t = 1" using mem_first_run by blast
  have "\<forall>k. mset (queue no_clients k) = {#}" by (simp add: no_clients_def)
  note all = subscribers_print_published [OF r mem_delivers this, of 2, THEN conjunct2, rule_format]
  have "count (mset (messages (printed t 2))) (''chat:room1'', dec 0) \<le> 1"
    using all [of "''chat:room1''" "dec 0"] p(2) by (simp split: if_splits)
  moreover have "count (mset (messages (printed t 2))) (''chat:room1'', dec 1) \<le> 0"
    using all [of "''chat:room1''" "dec 1"] p(2) by simp
  moreover have "messages (printed t 2) = [(''chat:room1'', dec 0)]" by (simp add: p(1) chat_room_def)
  ultimately show ?thesis using r by blast
qed

section \<open>Nothing waits for the subscribers\<close>

text \<open>The publisher alone, on a server without subscribers.\<close>

lemma mem_publish_nobody: "(\<forall>k. channels b k = {}) \<Longrightarrow> mem_publish c m b = b"
  by (simp add: mem_publish_def)

lemma publish_alone:
  "n \<le> 20 \<Longrightarrow> \<exists>ls. run (pubsub_step mem_server) (pubsub_start no_clients) ls ((pubsub_start no_clients)\<lparr>publish_i := n\<rparr>)"
proof (induction n)
  case 0
  have "(pubsub_start no_clients)\<lparr>publish_i := 0\<rparr> = pubsub_start no_clients" by (simp add: pubsub_start_def)
  then show ?case by (metis run.run_Nil)
next
  case (Suc n)
  let ?s = "(pubsub_start no_clients)\<lparr>publish_i := n\<rparr>"
  obtain ls where r: "run (pubsub_step mem_server) (pubsub_start no_clients) ls ?s" using Suc by auto
  have "pubsub_step mem_server ?s (Published (publish_i ?s) (Inr 0)) (?s\<lparr>broker := no_clients, publish_i := publish_i ?s + 1\<rparr>)"
    using Suc.prems by (intro pubsub_step.publish)
      (simp_all add: pubsub_start_def mem_server_def no_clients_def mem_publish_nobody)
  moreover have "?s\<lparr>broker := no_clients, publish_i := publish_i ?s + 1\<rparr> = (pubsub_start no_clients)\<lparr>publish_i := Suc n\<rparr>"
    by (simp add: pubsub_start_def)
  ultimately have "pubsub_step mem_server ?s (Published n (Inr 0)) ((pubsub_start no_clients)\<lparr>publish_i := Suc n\<rparr>)" by simp
  then have "run (pubsub_step mem_server) ?s [Published n (Inr 0)] ((pubsub_start no_clients)\<lparr>publish_i := Suc n\<rparr>)" by simp
  from run_trans [OF r this] show ?case by blast
qed

definition nothing_comes :: "mem_redis pubsub \<Rightarrow> bool" where
  "nothing_comes s \<longleftrightarrow> publish_i s = 20 \<and> (\<forall>k. queue (broker s) k = [] \<and> printed s k = [])"

interpretation late: inv_system nothing_comes "pubsub_step mem_server" nothing_comes
proof unfold_locales
  show "nothing_comes t" if "pubsub_step mem_server s l t" and "nothing_comes s" for s l t
    using that by (cases rule: pubsub_step.cases) (auto simp: nothing_comes_def mem_server_def mem_subscribe_def)
qed

lemma late_subscribe:
  assumes "nothing_comes s" and "\<not> exited s" and "k \<in> subscribers" and "subscriber_at s k = Fresh"
  shows "\<exists>t. pubsub_step mem_server s (Subscribed k) t \<and> nothing_comes t \<and> \<not> exited t \<and>
    subscriber_at t = (subscriber_at s)(k := InLoop)"
proof -
  let ?t = "s\<lparr>broker := mem_subscribe k chat_room (broker s), subscriber_at := (subscriber_at s)(k := InLoop)\<rparr>"
  have step: "pubsub_step mem_server s (Subscribed k) ?t"
    using assms by (intro pubsub_step.subscribe) (simp_all add: mem_server_def)
  show ?thesis using late.inv_step [OF step assms(1)] step assms(2) by (intro exI [of _ ?t]) simp
qed

text \<open>
  The program does not make its subscribers wait to be subscribed before it publishes: on a
  server that loses nothing, all twenty numbers can be published first, and then none of the
  three subscribers ever prints anything.
\<close>

theorem late_subscribers_print_nothing:
  "\<exists>ls t. run (pubsub_step mem_server) (pubsub_start no_clients) ls t \<and> publish_i t = 20 \<and>
     subscriber_at t 1 = InLoop \<and> subscriber_at t 2 = InLoop \<and> subscriber_at t 3 = InLoop \<and>
     (\<nexists>ls' u k m. run (pubsub_step mem_server) t ls' u \<and> m \<in> set (printed u k))"
proof -
  let ?s = "(pubsub_start no_clients)\<lparr>publish_i := 20\<rparr>"
  obtain ls where r0: "run (pubsub_step mem_server) (pubsub_start no_clients) ls ?s" using publish_alone [of 20] by auto
  have start: "nothing_comes ?s" "\<not> exited ?s" "subscriber_at ?s = (\<lambda>_. Fresh)"
    by (simp_all add: nothing_comes_def pubsub_start_def no_clients_def)
  obtain t1 where t1: "pubsub_step mem_server ?s (Subscribed 1) t1" "nothing_comes t1" "\<not> exited t1" "subscriber_at t1 = (\<lambda>_. Fresh)(1 := InLoop)"
    using late_subscribe [OF start(1,2), of 1] start(3) by (auto simp: subscribers_def)
  obtain t2 where t2: "pubsub_step mem_server t1 (Subscribed 2) t2" "nothing_comes t2" "\<not> exited t2" "subscriber_at t2 = (subscriber_at t1)(2 := InLoop)"
    using late_subscribe [OF t1(2,3), of 2] t1(4) by (auto simp: subscribers_def)
  obtain t3 where t3: "pubsub_step mem_server t2 (Subscribed 3) t3" "nothing_comes t3" "subscriber_at t3 = (subscriber_at t2)(3 := InLoop)"
    using late_subscribe [OF t2(2,3), of 3] t2(4) t1(4) by (auto simp: subscribers_def)
  have "run (pubsub_step mem_server) ?s [Subscribed 1, Subscribed 2, Subscribed 3] t3" using t1(1) t2(1) t3(1) by (blast intro: run.intros)
  from run_trans [OF r0 this] have r: "run (pubsub_step mem_server) (pubsub_start no_clients) (ls @ [Subscribed 1, Subscribed 2, Subscribed 3]) t3" .
  have "\<nexists>ls' u k m. run (pubsub_step mem_server) t3 ls' u \<and> m \<in> set (printed u k)"
    using late.inv_run [OF _ t3(2)] unfolding nothing_comes_def by fastforce
  moreover have "publish_i t3 = 20" using t3(2) by (simp add: nothing_comes_def)
  moreover have "subscriber_at t3 1 = InLoop" "subscriber_at t3 2 = InLoop" "subscriber_at t3 3 = InLoop"
    by (simp_all add: t3(3) t2(4) t1(4))
  ultimately show ?thesis using r by blast
qed

end
