(* ===== verification/Spec2Isabelle.thy ===== *)
theory Spec2Isabelle
  imports Bitcask_Damage Word_Dictionary Consistent_Hashing Load_Balancer_System Disk_Id_Generator
    Fair_Primes Booking_Service Batch_Id_Generator Dynamo Bulk_Writes Tcp_Servers Tcp_Event_Loop
    Deployment_Events Redis_Pubsub Chat_Room Web_Routes
begin

text \<open>
  Verification of the design proofs-of-concept under src/: independent Go programs, each a
  small model of a component of a storage or server system. The development translates them
  into executable definitions over shared models of the Go values and of the packages \<^verbatim>\<open>os\<close>,
  \<^verbatim>\<open>net/http\<close>, \<^verbatim>\<open>strings\<close> and \<^verbatim>\<open>database/sql\<close>, and proves what makes each of them correct, or where it is not.

  \<^bold>\<open>Shared theories.\<close>
  \<^item> \<open>Go_Prelude\<close>: bytes, 64-bit integers with their wrap-around, errors as \<open>go_error\<close>, a result
    \<^verbatim>\<open>(T, error)\<close> as a sum, a call that may panic as \<open>outcome\<close>; decimal formatting and parsing with
    their round trip; finite runs of a labelled step relation; the locales \<open>inv_system\<close> (an
    invariant of a transition system), \<open>refinement\<close> (a simulation of a specification) and
    \<open>counted_system\<close> (steps that use up a resource).
  \<^item> \<open>Go_OS\<close>: the file system. Every call consumes one entry of a script of faults, so a theorem for
    every script covers every pattern of I/O errors, torn writes included.
  \<^item> \<open>Go_HTTP\<close>: headers with canonical keys, query parameters and the response writer.
  \<^item> \<open>Go_Mux\<close>: \<^verbatim>\<open>ServeMux\<close>, with clean paths, the longest matching pattern and redirects; a request is
    redirected at most once.
  \<^item> \<open>Go_Strings\<close>: \<open>Join\<close>, \<open>Split\<close>, \<open>TrimSpace\<close> on UTF-8 text, and interface values.
  \<^item> \<open>Go_SQL\<close>: operations and answers of a transaction, what a database promises about transactions
    and row locks (\<open>transactions\<close>), the interleaving of clients (\<open>sys_step\<close>), the locale \<open>txn_clients\<close>
    in which a client's knowledge survives its own steps and those of others, and databases in
    memory that keep the promises.
  \<^item> \<open>Crc\<close>: CRC-32 IEEE and CRC-64 ISO, with the detection of a single changed byte and what the low bits of the latter depend on.
  \<^item> \<open>KV_Store\<close>: the locales of a key-value store and of one with compaction.

  \<^bold>\<open>bitcask\<close> (src/bitcask/main.go). \<open>Bitcask_Entry\<close> holds the record format and its round trip;
  \<open>Bitcask\<close> the engine (\<open>BitCask\<close> with the index \<open>keyDir\<close>, the open files and the offset) and
  \<open>New\<close>, \<open>put\<close>, \<open>Put\<close>, \<open>Delete\<close>, \<open>Get\<close>; \<open>Bitcask_Merge\<close> the compaction as a machine whose steps
  are the sections of \<^verbatim>\<open>Merge\<close> between two lock operations; \<open>Bitcask_Concurrent\<close> the interleaving
  of all operations with one merge at a time; \<open>Bitcask_Compact\<close> the sequential use; \<open>Bitcask_Damage\<close> a
  merge on a damaged segment. Shown: every interleaving, under every script of faults, returns what a
  map returns as long as every merge starts on a segment file that is a whole log; a write is
  atomic; a merge without faults ends and is invisible to readers; a damaged record is reported. The condition on
  segments is needed: after a torn append two more merges lose a key (\<open>torn_append_loses_key\<close>). Also
  shown are three ways in which the engine stops accepting writes or panics. Two merges at the same time,
  which would write at the same offsets, are not modelled. The rounds of \<^verbatim>\<open>main\<close> are \<open>bitcask_main\<close>.

  \<^bold>\<open>word-dictionary\<close> (src/word-dictionary/main.go). \<open>Word_Dictionary\<close>: \<open>Insert\<close>, \<open>GetMeaning\<close> and
  \<open>Import\<close> with its three loops and its error paths; the import refines a merge of two lists of
  entries, sorted files stay sorted, and a failed import leaves the index alone. The loops end
  because every round advances an offset towards the end of its file. \<open>dictionary_main\<close> is the program:
  its first run leaves a sorted file, a second run has its words twice.

  \<^bold>\<open>consistent_hashing\<close> (src/consistent_hashing/main.go). \<open>Consistent_Hashing\<close>: the ring, the binary
  search of \<open>getNode\<close> as the clockwise successor, and which keys move when nodes come and go.
  \<open>ring_main\<close> is the demonstration of \<^verbatim>\<open>main\<close>, which never panics: the slots of its three hosts are apart,
  because the low bits of their CRC-64 ISO depend on the host and the number of digits only (\<open>Checksum64ISO_low\<close>).

  \<^bold>\<open>load-balancer\<close> (src/load-balancer). \<open>Load_Balancer\<close> has the backends, kept in a heap because the
  configuration and the requests in flight share them by pointer, round robin and least
  connections, and the locale \<open>balancing_algorithm\<close> of the Go interface, which all four algorithms
  and the dispatch over them interpret. \<open>Load_Balancer_Weighted\<close> has the two weighted
  algorithms; both give every server exactly its share of every hundred requests.
  \<open>Load_Balancer_Server\<close> has \<open>requestHandler\<close> and \<open>forwardRequest\<close>, split at the call of the backend
  so that concurrent handlers interleave. The network (\<open>Do\<close>) and the verdict of
  \<^verbatim>\<open>http.NewRequest\<close> are parameters, of which the theorems there assume nothing. Weights are Go integers with their
  wrap-around; the invariant of the smooth algorithm keeps them within \<open>[-99, 9900]\<close>.
  \<open>Load_Balancer_System\<close> puts the program that \<^verbatim>\<open>main\<close> starts in front of three processes of
  src/load-balancer/backend_server, with a network that brings a request to the process on its
  port; the theorem at the end of this file counts their answers, and assumes that the network
  does so (\<open>reaches_backends\<close>) and that \<^verbatim>\<open>http.NewRequest\<close> accepts the requests.

  \<^bold>\<open>id-generators/disk-based\<close> (main.go there). \<open>Disk_Id_Generator\<close>: the counter file over \<open>Go_OS\<close> and the
  lives of a server that stops and starts on the same file. Persisted identifiers increase
  strictly; the periodic variant and torn writes repeat identifiers. The bound
  \<open>50 * length ls < 2 ^ 63\<close> keeps the counter, which a step raises by at most fifty, from wrapping.

  \<^bold>\<open>concurrency-examples/fairness\<close> (main.go there). \<open>Fair_Primes\<close>: the prime test, the workers that
  draw numbers from a shared 32-bit counter, and the fixed batches. The bound
  \<open>maxN + N < 2 ^ 31\<close> holds for the program's constants (500000000 and 10).

  \<^bold>\<open>relational-db/exclusive-locks/db\<close> (db.go). \<open>Connection_Pool\<close>: the pool's stack and its counting
  channel, with \<^verbatim>\<open>Get\<close> and \<^verbatim>\<open>Put\<close> as two interleaved sections each, and \<open>Init\<close>; after it the
  hundred bookings never wait for one of the 101 connections.

  \<^bold>\<open>relational-db/exclusive-locks: BookSeats and main\<close>. \<open>Booking_Service\<close> composes the two theories around it:
  a hundred goroutines started by the loop of \<^verbatim>\<open>BookSeats\<close>, each taking a connection, running its
  \<^verbatim>\<open>bookSeat\<close>, giving the connection back and signing off at the wait group. Its steps project onto
  those of the pool and onto those of the database clients (two interpretations of
  \<open>refinement\<close>), so the invariant of the one and the safety of the other hold of the whole. The
  locale \<open>ranked_program\<close> bounds the steps of a run: an answer lowers a rank, at most 4 for a
  booking with one transaction and 200 for the fifty attempts of the optimistic one, and a goroutine takes at
  most six more steps, which gives the bounds 1002 and 20602. \<open>exclusive_locks_main\<close> is \<open>Init\<close>, which panics when a
  connection cannot be opened or the seats cannot be reset, and then \<^verbatim>\<open>BookSeats\<close>. Shown: no deadlock, no
  panic of the pool or the wait group, all connections back at the end, and no seat booked twice by \<^verbatim>\<open>main\<close>.

  \<^bold>\<open>relational-db/exclusive-locks\<close> (noupdate, update, updateskip, optimisticlock). \<open>Seat_Booking\<close>: \<open>bookSeat\<close>
  as a program that sends operations and reads answers (\<open>book_op\<close>, \<open>book_next\<close> for the three variants
  that differ in their SELECT, \<open>opt_op\<close>, \<open>opt_next\<close> for the optimistic one), and a hundred users on one
  database. The database is a parameter; \<open>transactions\<close>, \<open>selects\<close> and \<open>updates\<close> state what MySQL
  documents about transactions, row locks and updates, and \<open>mem_db\<close> is a database that keeps
  these promises. The server may end a transaction on its own, as after a deadlock or a lost connection. Shown: no seat is booked twice with a lock or a version, and one can be without.

  \<^bold>\<open>id-generators/amazon-way\<close> (main.go there). \<open>Batch_Id_Generator\<close>: a request as such a program
  (\<open>gen_op\<close>, \<open>gen_next\<close>), any number of them at once, and its response. The batches of a service are
  disjoint; a request ends within four operations and never leaves its transaction open. The bound
  on the counters keeps them, which a step raises by at most a hundred, from wrapping; the
  unique key of the table is part of the promise \<open>id_statements\<close>.

  \<^bold>\<open>relational-db/dynamo-db-implementation\<close> (dynamo, main.go). \<open>Dynamo\<close>: the text and arguments of the
  statements, the results made of rows, and the calls of \<^verbatim>\<open>main\<close>. MySQL is a parameter, with what
  the statements do to tables as hypotheses (\<open>creates\<close>, \<open>replaces\<close>, \<open>selects_key\<close>) that
  \<open>users_mysql\<close> satisfies by reading the statements. Shown: an item that was put is got back;
  well typed programs never panic; the keys of a table, and how registered keys can be wrong.

  \<^bold>\<open>relational-db/upsert and id-generators/uuid-mysql\<close> (main.go there). \<open>Bulk_Writes\<close>: goroutines that write
  rows of their own, whose interleaving does not matter, and the two loops of inserts.

  \<^bold>\<open>tcp_servers and socketio\<close>. \<open>Tcp_Servers\<close>: what the two line servers answer to a stream, and start, handlers
  and stop of the concurrent one as a transition system; \<open>Tcp_Event_Loop\<close>: the event loop and the
  raw socket server over the results of the system calls.

  \<^bold>\<open>communication-mechanisms/server-sent-events\<close> (main.go there). \<open>Deployment_Events\<close>: the deployment that
  appends lines to its file and the handler that polls it; every line is sent once.

  \<^bold>\<open>communication-mechanisms/redis-pubsub\<close> (main.go there). \<open>Redis_Pubsub\<close>: the publisher, the subscribers and
  the end of \<^verbatim>\<open>main\<close> as interleaved steps on a server that is a parameter (\<open>delivers\<close> is what Redis and its
  library document, retries included; \<open>mem_server\<close> keeps it). Subscribers print published numbers only, none more
  often than the library sends a command, and may print nothing.

  \<^bold>\<open>communication-mechanisms/websockets\<close> (main.go there). \<open>Chat_Room\<close>: the event handlers, which run side by side,
  on a Socket.IO library that is a parameter (\<open>keeps_rooms\<close> is what it promises, \<open>mem_socketio\<close> keeps it); they
  refine a chat room in which everyone hears what is said while in the room. The periodic messages and
  the broadcast endpoint that the README there describes are not in the code.

  \<^bold>\<open>http-server, load-balancer/backend_server and the outer handler of websockets\<close>. \<open>Web_Handlers\<close>: their
  handlers. \<open>Web_Routes\<close>: what the main functions of all HTTP servers register at a \<^verbatim>\<open>ServeMux\<close>, and
  where requests with clean paths go.

  \<^bold>\<open>Conventions.\<close> A critical section is one step; code between two sections that touches no shared
  state belongs to the section before it. Least connections reads its counters without a lock;
  the model reads them at one moment. Log output, timing and the listening sockets are left out.
  Nothing uses fuel: every loop is structural recursion or has a termination proof.

  Loops that run for ever are modelled by their rounds, over lists of what the environment answers.

  \<^bold>\<open>Not modelled.\<close> The Socket.IO and Redis libraries, MySQL and the network, which are parameters. The
  static pages and the router library of server-sent-events. The structs of exclusive-locks/models,
  which no code uses. Listening sockets and signal handling. The main functions of
  fairness and tcp_servers, which call one function. SQL text is compared as text; what it means is a hypothesis for names that need no quoting.
\<close>

section \<open>The load balancer and its backends\<close>

text \<open>
  C28. End to end, the main program of the load balancer in front of its three backends shares the
  requests as configured: of \<open>100 * n\<close> GET requests for plain paths, exactly \<open>50 * n\<close> are answered
  with status 200 by the backend on port 9001, and \<open>25 * n\<close> each by those on 9002 and 9003, so
  every request is answered by one of them.
\<close>

theorem load_balancer_shares:
  assumes "reaches_backends redirect Do {9001, 9002, 9003}" and "\<forall>u. NewRequest ''GET'' u = None"
    and "\<forall>r \<in> set rs. plain_request r" and "length rs = 100 * n"
  shows "count_list (map ok_body (serve_requests NewRequest Do redirect rs main_lb main_servers)) (Some (greeting_from 9001)) = 50 * n \<and>
    count_list (map ok_body (serve_requests NewRequest Do redirect rs main_lb main_servers)) (Some (greeting_from 9002)) = 25 * n \<and>
    count_list (map ok_body (serve_requests NewRequest Do redirect rs main_lb main_servers)) (Some (greeting_from 9003)) = 25 * n"
proof -
  note from_port = answers_from_port [where NewRequest = NewRequest, OF assms(1-3)]
  from from_port [of 2] from_port [of 3] from_port [of 4] main_share [of n] show ?thesis by (simp add: assms(4))
qed

theorem load_balancer_shares_witness:
  "count_list (map ok_body (serve_requests (\<lambda>_ _. None) demo_network (\<lambda>_. Return) (replicate 200 root_request) main_lb main_servers))
     (Some (greeting_from 9001)) = 100"
  using load_balancer_shares [where NewRequest = "\<lambda>_ _. None" and rs = "replicate 200 root_request" and n = 2, OF demo_network_reaches]
    plain_root_request by simp

end
